(* ===== verification/Prelude.thy ===== *)
theory Prelude imports Main "HOL-Library.AList" "HOL-Library.List_Lexorder" "HOL-Library.Char_ord" begin

text \<open>
  What every component of the development shares: how a C++ call can end
  (\<open>outcome\<close>), the fixed-width integer casts, association lists as the model of
  \<open>std::unordered_map\<close>, and the fact collections the component proofs use.

  A C++ expression either yields a value, throws an exception object, hits a failed
  \<open>assert\<close> (the Makefile does not define \<open>NDEBUG\<close>, so \<open>JSON_ASSERT\<close> aborts the
  process), or has undefined behaviour. A call that also changes an object returns the
  changed object beside its outcome, because a C++ exception does not undo what was
  written before it was thrown.
\<close>

named_theorems outcome_simps "how outcomes compose"
named_theorems alist_simps "lookups and updates of association lists"

section \<open>Outcomes\<close>

text \<open>
  \<open>JsonException id what\<close> stands for the subclasses of \<open>json::exception\<close>;
  \<open>StdException what\<close> for any other \<open>std::exception\<close> (\<open>std::stoi\<close>'s
  \<open>invalid_argument\<close> and \<open>out_of_range\<close>, \<open>std::runtime_error\<close>). The code tells
  only these two groups apart: \<open>StateMachine::apply\<close> catches the first, the remote
  calls catch both.
\<close>

datatype exn = JsonException nat string | StdException string

fun exn_what :: "exn \<Rightarrow> string" where
  "exn_what (JsonException i w) = w"
| "exn_what (StdException w) = w"

datatype 'a outcome = Ok 'a | Throw exn | Abort | UB

fun obind :: "'a outcome \<Rightarrow> ('a \<Rightarrow> 'b outcome) \<Rightarrow> 'b outcome" where
  "obind (Ok a) f = f a"
| "obind (Throw e) f = Throw e"
| "obind Abort f = Abort"
| "obind UB f = UB"

fun omap :: "('a \<Rightarrow> 'b) \<Rightarrow> 'a outcome \<Rightarrow> 'b outcome" where
  "omap f (Ok a) = Ok (f a)"
| "omap f (Throw e) = Throw e"
| "omap f Abort = Abort"
| "omap f UB = UB"

text \<open>\<open>try\<close> with one \<open>catch\<close> clause; \<open>h\<close> gives \<open>None\<close> where the clause does not match.\<close>

fun ocatch :: "'a outcome \<Rightarrow> (exn \<Rightarrow> 'a outcome option) \<Rightarrow> 'a outcome" where
  "ocatch (Throw e) h = (case h e of Some r \<Rightarrow> r | None \<Rightarrow> Throw e)"
| "ocatch r h = r"

text \<open>A call on an object of type \<open>'s\<close>: its outcome and the object afterwards.\<close>

type_synonym ('s, 'a) action = "'s \<Rightarrow> 'a outcome \<times> 's"

definition ret :: "'a \<Rightarrow> ('s, 'a) action" where
  "ret a s = (Ok a, s)"

definition lift :: "'a outcome \<Rightarrow> ('s, 'a) action" where
  "lift r s = (r, s)"

definition modify :: "('s \<Rightarrow> 's) \<Rightarrow> ('s, unit) action" where
  "modify f s = (Ok (), f s)"

fun abind :: "('s, 'a) action \<Rightarrow> ('a \<Rightarrow> ('s, 'b) action) \<Rightarrow> ('s, 'b) action" where
  "abind m f s =
     (case m s of
        (Ok a, s') \<Rightarrow> f a s'
      | (Throw e, s') \<Rightarrow> (Throw e, s')
      | (Abort, s') \<Rightarrow> (Abort, s')
      | (UB, s') \<Rightarrow> (UB, s'))"

lemma obind_eq_Ok [outcome_simps]: "obind r f = Ok b \<longleftrightarrow> (\<exists>a. r = Ok a \<and> f a = Ok b)"
  by (cases r) auto

lemma obind_cong [fundef_cong]:
  "r = r' \<Longrightarrow> (\<And>a. r' = Ok a \<Longrightarrow> f a = g a) \<Longrightarrow> obind r f = obind r' g"
  by (cases r') auto

lemma obind_assoc: "obind (obind r f) g = obind r (\<lambda>a. obind (f a) g)"
  by (cases r) auto

lemma omap_eq_Ok [outcome_simps]: "omap f r = Ok b \<longleftrightarrow> (\<exists>a. r = Ok a \<and> f a = b)"
  by (cases r) auto

lemma abind_eq_Ok [outcome_simps]:
  "abind m f s = (Ok b, t) \<longleftrightarrow> (\<exists>a s'. m s = (Ok a, s') \<and> f a s' = (Ok b, t))"
  by (auto split: prod.splits outcome.splits)

lemmas action_defs = ret_def lift_def modify_def

section \<open>Fixed-width integers\<close>

text \<open>
  The code's \<open>int\<close> has 32 bits and \<open>time_t\<close> 64 (the Makefile builds with g++ on a
  64-bit Linux). A \<open>static_cast\<close> to a narrower signed type wraps modulo the width.
  Arithmetic that overflows \<open>int\<close> is undefined, and is a branch of the model where the
  code can reach it.
\<close>

definition to_int32 :: "int \<Rightarrow> int" where
  "to_int32 z = signed_take_bit 31 z"

definition to_int64 :: "int \<Rightarrow> int" where
  "to_int64 z = signed_take_bit 63 z"

definition INT_MAX :: int where
  "INT_MAX = 2147483647"

definition INT_MIN :: int where
  "INT_MIN = - 2147483648"

definition is_int32 :: "int \<Rightarrow> bool" where
  "is_int32 z \<longleftrightarrow> INT_MIN \<le> z \<and> z \<le> INT_MAX"

definition is_int64 :: "int \<Rightarrow> bool" where
  "is_int64 z \<longleftrightarrow> - 9223372036854775808 \<le> z \<and> z \<le> 9223372036854775807"

lemma to_int32_id [simp]: "is_int32 z \<Longrightarrow> to_int32 z = z"
  by (simp add: to_int32_def is_int32_def INT_MAX_def INT_MIN_def signed_take_bit_int_eq_self)

lemma to_int64_id [simp]: "is_int64 z \<Longrightarrow> to_int64 z = z"
  by (simp add: to_int64_def is_int64_def signed_take_bit_int_eq_self)

lemma is_int32_to_int32 [simp]: "is_int32 (to_int32 z)"
  using signed_take_bit_int_greater_eq_minus_exp [of 31 z] signed_take_bit_int_less_exp [of 31 z]
  by (simp add: to_int32_def is_int32_def INT_MAX_def INT_MIN_def)

lemma is_int32_is_int64: "is_int32 z \<Longrightarrow> is_int64 z"
  by (simp add: is_int32_def is_int64_def INT_MAX_def INT_MIN_def)

section \<open>Association lists as hash maps\<close>

text \<open>
  \<open>std::unordered_map\<close> is an association list with distinct keys: \<open>m[k] = v\<close> is
  \<open>AList.update\<close>, \<open>find\<close> is \<open>map_of\<close>, \<open>erase\<close> is \<open>AList.delete\<close>. The order in
  which a C++ loop visits the map is unspecified; nothing proved below depends on the
  order of the list.
\<close>

definition keys :: "('k \<times> 'v) list \<Rightarrow> 'k list" where
  "keys m = map fst m"

definition wf_alist :: "('k \<times> 'v) list \<Rightarrow> bool" where
  "wf_alist m \<longleftrightarrow> distinct (map fst m)"

text \<open>\<open>m[k]\<close> on a non-const map: reads the value, default-initialised where the key is new.\<close>

definition lookup_default :: "'v \<Rightarrow> ('k \<times> 'v) list \<Rightarrow> 'k \<Rightarrow> 'v" where
  "lookup_default d m k = (case map_of m k of Some v \<Rightarrow> v | None \<Rightarrow> d)"

lemma wf_alist_Nil [simp]: "wf_alist []"
  by (simp add: wf_alist_def)

lemma wf_alist_update [simp]: "wf_alist m \<Longrightarrow> wf_alist (AList.update k v m)"
  by (simp add: wf_alist_def distinct_update)

lemma wf_alist_delete [simp]: "wf_alist m \<Longrightarrow> wf_alist (AList.delete k m)"
  by (simp add: wf_alist_def distinct_delete)

lemma map_of_update [alist_simps]: "map_of (AList.update k v m) k' = (if k' = k then Some v else map_of m k')"
  by (simp add: update_conv')

lemma map_of_delete [alist_simps]: "map_of (AList.delete k m) k' = (if k' = k then None else map_of m k')"
  by (simp add: delete_conv')

lemma lookup_default_update [alist_simps]:
  "lookup_default d (AList.update k v m) k' = (if k' = k then v else lookup_default d m k')"
  by (simp add: lookup_default_def map_of_update)

lemma wf_alist_map_of: "wf_alist m \<Longrightarrow> (k, v) \<in> set m \<longleftrightarrow> map_of m k = Some v"
  by (auto simp: wf_alist_def)

lemma update_keys [alist_simps]: "fst ` set (AList.update k v m) = insert k (fst ` set m)"
  by (simp add: dom_update dom_map_of_conv_image_fst [symmetric] update_conv')

section \<open>Lists\<close>

text \<open>A length as the code's \<open>(int)v.size()\<close>, and reads of a vector at an \<open>int\<close> index.\<close>

abbreviation len :: "'a list \<Rightarrow> int" where
  "len xs \<equiv> int (length xs)"

lemma take_Suc_nth: "k < length xs \<Longrightarrow> take (Suc k) xs = take k xs @ [xs ! k]"
  by (simp add: take_Suc_conv_app_nth)

lemma take_eq_nth: "take n xs = take n ys \<Longrightarrow> k < n \<Longrightarrow> k < length xs \<Longrightarrow> k < length ys \<Longrightarrow> xs ! k = ys ! k"
  by (metis nth_take)

lemma take_eq_le: "take n xs = take n ys \<Longrightarrow> m \<le> n \<Longrightarrow> take m xs = take m ys"
  by (metis min.absorb1 take_take)

end
