(* ===== verification/Json_Double.thy ===== *)
theory Json_Double imports Prelude "HOL-Library.Word" begin

unbundle bit_operations_syntax

text \<open>
  IEEE-754 doubles as \<open>common/json.hpp\<close> uses them: the value of a JSON number that is
  not an integer of 64 bits. A double is kept as its three bit fields. Modelled are what
  the lexer gets from \<open>std::strtod\<close> (the nearest double, ties to even), the conversion of
  an integer to a double, the truncation of \<open>static_cast<int>\<close>, the comparison, and the
  shortest-digits printer \<open>to_chars\<close> (Grisu2) the serializer calls.
\<close>

section \<open>The format\<close>

record double =
  dsign :: bool
  dexp :: int     \<comment> \<open>biased exponent, 11 bits; 2047 is infinity or NaN\<close>
  dfrac :: int    \<comment> \<open>fraction, 52 bits\<close>

definition double_zero :: "bool \<Rightarrow> double" where
  "double_zero s = \<lparr>dsign = s, dexp = 0, dfrac = 0\<rparr>"

definition double_inf :: "bool \<Rightarrow> double" where
  "double_inf s = \<lparr>dsign = s, dexp = 2047, dfrac = 0\<rparr>"

definition double_isfinite :: "double \<Rightarrow> bool" where
  "double_isfinite d \<longleftrightarrow> dexp d < 2047"

text \<open>A finite double is \<open>(-1)^sign * significand * 2 ^ exponent\<close>.\<close>

definition double_significand :: "double \<Rightarrow> int" where
  "double_significand d = (if dexp d = 0 then dfrac d else dfrac d + 2 ^ 52)"

definition double_exponent :: "double \<Rightarrow> int" where
  "double_exponent d = (if dexp d = 0 then - 1074 else dexp d - 1075)"

section \<open>Rounding a rational to the nearest double\<close>

function bit_length :: "int \<Rightarrow> int" where
  "bit_length n = (if n \<le> 0 then 0 else 1 + bit_length (n div 2))"
  by pat_completeness auto
termination
  by (relation "measure nat") auto

declare bit_length.simps [simp del]

definition round_half_even :: "int \<Rightarrow> int \<Rightarrow> int" where
  "round_half_even a b =
     (let q = a div b; r = a mod b
      in if 2 * r < b then q else if b < 2 * r then q + 1
         else if even q then q else q + 1)"

text \<open>\<open>scaled a b q\<close> is \<open>a / b\<close> divided by \<open>2 ^ q\<close>, as a fraction.\<close>

definition scaled :: "int \<Rightarrow> int \<Rightarrow> int \<Rightarrow> int \<times> int" where
  "scaled a b q = (if 0 \<le> q then (a, b * 2 ^ nat q) else (a * 2 ^ nat (- q), b))"

text \<open>The binary exponent of \<open>a / b\<close>: the \<open>e\<close> with \<open>2 ^ e \<le> a / b < 2 ^ (e + 1)\<close>.\<close>

definition binary_exponent :: "int \<Rightarrow> int \<Rightarrow> int" where
  "binary_exponent a b =
     (let e = bit_length a - bit_length b; (n, d) = scaled a b e
      in if n < d then e - 1 else e)"

definition round_double :: "bool \<Rightarrow> int \<Rightarrow> int \<Rightarrow> double" where
  "round_double s a b =
     (if a = 0 then double_zero s
      else
        let q = max (- 1074) (binary_exponent a b - 52);
            (n, d) = scaled a b q;
            f = round_half_even n d;
            (f', q') = (if f = 2 ^ 53 then (2 ^ 52, q + 1) else (f, q))
        in if 971 < q' then double_inf s
           else if f' < 2 ^ 52 then \<lparr>dsign = s, dexp = 0, dfrac = f'\<rparr>
           else \<lparr>dsign = s, dexp = q' + 1075, dfrac = f' - 2 ^ 52\<rparr>)"

text \<open>\<open>static_cast<double>\<close> of an integer, and of \<open>m * 10 ^ e\<close> as \<open>std::strtod\<close> reads it.\<close>

definition double_of_int :: "int \<Rightarrow> double" where
  "double_of_int z = round_double (z < 0) \<bar>z\<bar> 1"

definition double_of_decimal :: "bool \<Rightarrow> int \<Rightarrow> int \<Rightarrow> double" where
  "double_of_decimal s m e =
     (if 0 \<le> e then round_double s (m * 10 ^ nat e) 1 else round_double s m (10 ^ nat (- e)))"

text \<open>\<open>std::trunc\<close>; \<open>static_cast<int>\<close> is this value where it fits, undefined otherwise.\<close>

definition double_trunc :: "double \<Rightarrow> int" where
  "double_trunc d =
     (let e = double_exponent d; f = double_significand d;
          m = (if 0 \<le> e then f * 2 ^ nat e else f div 2 ^ nat (- e))
      in if dsign d then - m else m)"

text \<open>\<open>==\<close> on doubles that are not NaN: equal bits, or both zero.\<close>

definition double_eq :: "double \<Rightarrow> double \<Rightarrow> bool" where
  "double_eq x y \<longleftrightarrow> x = y \<or> (dexp x = 0 \<and> dfrac x = 0 \<and> dexp y = 0 \<and> dfrac y = 0)"

section \<open>Grisu2\<close>

text \<open>\<open>diyfp\<close>: \<open>f * 2 ^ e\<close> with a 64-bit significand.\<close>

record diyfp =
  df :: "64 word"
  de :: int

definition mk_diyfp :: "64 word \<Rightarrow> int \<Rightarrow> diyfp" where
  "mk_diyfp f e = \<lparr>df = f, de = e\<rparr>"

definition diyfp_sub :: "diyfp \<Rightarrow> diyfp \<Rightarrow> diyfp" where
  "diyfp_sub x y = mk_diyfp (df x - df y) (de x)"

definition diyfp_mul :: "diyfp \<Rightarrow> diyfp \<Rightarrow> diyfp" where
  "diyfp_mul x y =
     (let u_lo = df x AND 0xFFFFFFFF; u_hi = drop_bit 32 (df x);
          v_lo = df y AND 0xFFFFFFFF; v_hi = drop_bit 32 (df y);
          p0 = u_lo * v_lo; p1 = u_lo * v_hi; p2 = u_hi * v_lo; p3 = u_hi * v_hi;
          p0_hi = drop_bit 32 p0;
          p1_lo = p1 AND 0xFFFFFFFF; p1_hi = drop_bit 32 p1;
          p2_lo = p2 AND 0xFFFFFFFF; p2_hi = drop_bit 32 p2;
          Q = p0_hi + p1_lo + p2_lo + push_bit 31 1;
          h = p3 + p2_hi + p1_hi + drop_bit 32 Q
      in mk_diyfp h (de x + de y + 64))"

text \<open>
  \<open>normalize\<close> shifts until bit 63 is set. Its precondition \<open>f \<noteq> 0\<close> makes 63 shifts
  enough, which is the bound of the recursion here.
\<close>

fun diyfp_shift :: "nat \<Rightarrow> diyfp \<Rightarrow> diyfp" where
  "diyfp_shift 0 x = x"
| "diyfp_shift (Suc n) x =
     (if drop_bit 63 (df x) = 0 then diyfp_shift n (mk_diyfp (push_bit 1 (df x)) (de x - 1)) else x)"

definition diyfp_normalize :: "diyfp \<Rightarrow> diyfp" where
  "diyfp_normalize x = diyfp_shift 63 x"

definition diyfp_normalize_to :: "diyfp \<Rightarrow> int \<Rightarrow> diyfp" where
  "diyfp_normalize_to x e = mk_diyfp (push_bit (nat (de x - e)) (df x)) e"

record boundaries =
  bw :: diyfp
  bminus :: diyfp
  bplus :: diyfp

definition compute_boundaries :: "double \<Rightarrow> boundaries" where
  "compute_boundaries d =
     (let F = word_of_int (dfrac d);
          v = (if dexp d = 0 then mk_diyfp F (- 1074)
               else mk_diyfp (F + push_bit 52 1) (dexp d - 1075));
          closer = (dfrac d = 0 \<and> 1 < dexp d);
          m_plus = mk_diyfp (2 * df v + 1) (de v - 1);
          m_minus = (if closer then mk_diyfp (4 * df v - 1) (de v - 2)
                     else mk_diyfp (2 * df v - 1) (de v - 1));
          w_plus = diyfp_normalize m_plus;
          w_minus = diyfp_normalize_to m_minus (de w_plus)
      in \<lparr>bw = diyfp_normalize v, bminus = w_minus, bplus = w_plus\<rparr>)"

text \<open>The table of cached powers of ten, and the one the code picks for a binary exponent.\<close>

definition cached_powers :: "(64 word \<times> int \<times> int) list" where
  "cached_powers =
    [(0xAB70FE17C79AC6CA, - 1060, - 300),
     (0xFF77B1FCBEBCDC4F, - 1034, - 292),
     (0xBE5691EF416BD60C, - 1007, - 284),
     (0x8DD01FAD907FFC3C, - 980, - 276),
     (0xD3515C2831559A83, - 954, - 268),
     (0x9D71AC8FADA6C9B5, - 927, - 260),
     (0xEA9C227723EE8BCB, - 901, - 252),
     (0xAECC49914078536D, - 874, - 244),
     (0x823C12795DB6CE57, - 847, - 236),
     (0xC21094364DFB5637, - 821, - 228),
     (0x9096EA6F3848984F, - 794, - 220),
     (0xD77485CB25823AC7, - 768, - 212),
     (0xA086CFCD97BF97F4, - 741, - 204),
     (0xEF340A98172AACE5, - 715, - 196),
     (0xB23867FB2A35B28E, - 688, - 188),
     (0x84C8D4DFD2C63F3B, - 661, - 180),
     (0xC5DD44271AD3CDBA, - 635, - 172),
     (0x936B9FCEBB25C996, - 608, - 164),
     (0xDBAC6C247D62A584, - 582, - 156),
     (0xA3AB66580D5FDAF6, - 555, - 148),
     (0xF3E2F893DEC3F126, - 529, - 140),
     (0xB5B5ADA8AAFF80B8, - 502, - 132),
     (0x87625F056C7C4A8B, - 475, - 124),
     (0xC9BCFF6034C13053, - 449, - 116),
     (0x964E858C91BA2655, - 422, - 108),
     (0xDFF9772470297EBD, - 396, - 100),
     (0xA6DFBD9FB8E5B88F, - 369, - 92),
     (0xF8A95FCF88747D94, - 343, - 84),
     (0xB94470938FA89BCF, - 316, - 76),
     (0x8A08F0F8BF0F156B, - 289, - 68),
     (0xCDB02555653131B6, - 263, - 60),
     (0x993FE2C6D07B7FAC, - 236, - 52),
     (0xE45C10C42A2B3B06, - 210, - 44),
     (0xAA242499697392D3, - 183, - 36),
     (0xFD87B5F28300CA0E, - 157, - 28),
     (0xBCE5086492111AEB, - 130, - 20),
     (0x8CBCCC096F5088CC, - 103, - 12),
     (0xD1B71758E219652C, - 77, - 4),
     (0x9C40000000000000, - 50, 4),
     (0xE8D4A51000000000, - 24, 12),
     (0xAD78EBC5AC620000, 3, 20),
     (0x813F3978F8940984, 30, 28),
     (0xC097CE7BC90715B3, 56, 36),
     (0x8F7E32CE7BEA5C70, 83, 44),
     (0xD5D238A4ABE98068, 109, 52),
     (0x9F4F2726179A2245, 136, 60),
     (0xED63A231D4C4FB27, 162, 68),
     (0xB0DE65388CC8ADA8, 189, 76),
     (0x83C7088E1AAB65DB, 216, 84),
     (0xC45D1DF942711D9A, 242, 92),
     (0x924D692CA61BE758, 269, 100),
     (0xDA01EE641A708DEA, 295, 108),
     (0xA26DA3999AEF774A, 322, 116),
     (0xF209787BB47D6B85, 348, 124),
     (0xB454E4A179DD1877, 375, 132),
     (0x865B86925B9BC5C2, 402, 140),
     (0xC83553C5C8965D3D, 428, 148),
     (0x952AB45CFA97A0B3, 455, 156),
     (0xDE469FBD99A05FE3, 481, 164),
     (0xA59BC234DB398C25, 508, 172),
     (0xF6C69A72A3989F5C, 534, 180),
     (0xB7DCBF5354E9BECE, 561, 188),
     (0x88FCF317F22241E2, 588, 196),
     (0xCC20CE9BD35C78A5, 614, 204),
     (0x98165AF37B2153DF, 641, 212),
     (0xE2A0B5DC971F303A, 667, 220),
     (0xA8D9D1535CE3B396, 694, 228),
     (0xFB9B7CD9A4A7443C, 720, 236),
     (0xBB764C4CA7A44410, 747, 244),
     (0x8BAB8EEFB6409C1A, 774, 252),
     (0xD01FEF10A657842C, 800, 260),
     (0x9B10A4E5E9913129, 827, 268),
     (0xE7109BFBA19C0C9D, 853, 276),
     (0xAC2820D9623BF429, 880, 284),
     (0x80444B5E7AA7CF85, 907, 292),
     (0xBF21E44003ACDD2D, 933, 300),
     (0x8E679C2F5E44FF8F, 960, 308),
     (0xD433179D9C8CB841, 986, 316),
     (0x9E19DB92B4E31BA9, 1013, 324)]"

definition cached_power_index :: "int \<Rightarrow> int" where
  "cached_power_index e =
     (let f = - 60 - e - 1;
          q = (if 0 \<le> f then (f * 78913) div 262144 else - ((- (f * 78913)) div 262144));
          k = q + (if 0 < f then 1 else 0)
      in (300 + k + 7) div 8)"

definition get_cached_power_for_binary_exponent :: "int \<Rightarrow> 64 word \<times> int \<times> int" where
  "get_cached_power_for_binary_exponent e = cached_powers ! nat (cached_power_index e)"

fun find_pow10 :: "nat \<Rightarrow> int \<Rightarrow> int \<times> nat" where
  "find_pow10 0 n = (1, 1)"
| "find_pow10 (Suc i) n = (if 10 ^ Suc i \<le> n then (10 ^ Suc i, Suc (Suc i)) else find_pow10 i n)"

definition find_largest_pow10 :: "int \<Rightarrow> int \<times> nat" where
  "find_largest_pow10 n = find_pow10 9 n"

text \<open>
  The digits in the buffer are kept as numbers. \<open>grisu2_round\<close> lowers the last digit; its
  assertion that the digit is not \<open>0\<close> is the \<open>None\<close> branch, so the recursion is on the
  digit itself.
\<close>

fun grisu2_round :: "nat \<Rightarrow> 64 word \<Rightarrow> 64 word \<Rightarrow> 64 word \<Rightarrow> 64 word \<Rightarrow> nat option" where
  "grisu2_round 0 dist delta rst ten_k =
     (if rst < dist \<and> ten_k \<le> delta - rst \<and> (rst + ten_k < dist \<or> rst + ten_k - dist < dist - rst)
      then None else Some 0)"
| "grisu2_round (Suc d) dist delta rst ten_k =
     (if rst < dist \<and> ten_k \<le> delta - rst \<and> (rst + ten_k < dist \<or> rst + ten_k - dist < dist - rst)
      then grisu2_round d dist delta (rst + ten_k) ten_k else Some (Suc d))"

definition round_last :: "nat list \<Rightarrow> 64 word \<Rightarrow> 64 word \<Rightarrow> 64 word \<Rightarrow> 64 word \<Rightarrow> nat list option" where
  "round_last ds dist delta rst ten_k =
     map_option (\<lambda>d. butlast ds @ [d]) (grisu2_round (last ds) dist delta rst ten_k)"

text \<open>
  \<open>grisu2_digit_gen\<close>: the digits of the integral part \<open>p1\<close>, most significant first
  (\<open>n\<close> counts down), then digits of the fraction \<open>p2\<close> until the rest is at most \<open>delta\<close>.
  Each step of the second loop multiplies \<open>delta\<close> by ten while \<open>p2\<close> stays below
  \<open>one \<le> 2 ^ 60\<close>, so 20 steps are enough for \<open>delta \<ge> 1\<close>; where \<open>delta\<close> is 0 the fuel
  runs out, which is \<open>None\<close>.
\<close>

fun digit_gen_frac :: "nat \<Rightarrow> nat list \<Rightarrow> int \<Rightarrow> int \<Rightarrow> 64 word \<Rightarrow> 64 word \<Rightarrow> 64 word \<Rightarrow> (nat list \<times> int) option" where
  "digit_gen_frac 0 ds m e p2 delta dist = None"
| "digit_gen_frac (Suc fuel) ds m e p2 delta dist =
     (let p = p2 * 10; d = drop_bit (nat (- e)) p; r = p AND (push_bit (nat (- e)) 1 - 1);
          ds' = ds @ [nat (uint d)]; delta' = delta * 10; dist' = dist * 10
      in if r \<le> delta'
         then map_option (\<lambda>xs. (xs, m + 1)) (round_last ds' dist' delta' r (push_bit (nat (- e)) 1))
         else digit_gen_frac fuel ds' (m + 1) e r delta' dist')"

fun digit_gen_int :: "nat \<Rightarrow> nat list \<Rightarrow> int \<Rightarrow> int \<Rightarrow> int \<Rightarrow> 64 word \<Rightarrow> 64 word \<Rightarrow> 64 word \<Rightarrow> (nat list \<times> int) option" where
  "digit_gen_int 0 ds p1 pow10 e p2 delta dist =
     map_option (\<lambda>(xs, m). (xs, - m)) (digit_gen_frac 20 ds 0 e p2 delta dist)"
| "digit_gen_int (Suc n) ds p1 pow10 e p2 delta dist =
     (let d = p1 div pow10; r = p1 mod pow10; ds' = ds @ [nat d];
          rst = push_bit (nat (- e)) (word_of_int r) + p2
      in if rst \<le> delta
         then map_option (\<lambda>xs. (xs, int n))
                (round_last ds' dist delta rst (push_bit (nat (- e)) (word_of_int pow10)))
         else digit_gen_int n ds' r (pow10 div 10) e p2 delta dist)"

definition grisu2_digit_gen :: "diyfp \<Rightarrow> diyfp \<Rightarrow> diyfp \<Rightarrow> (nat list \<times> int) option" where
  "grisu2_digit_gen M_minus w M_plus =
     (let delta = df (diyfp_sub M_plus M_minus); dist = df (diyfp_sub M_plus w);
          e = de M_plus; p1 = uint (drop_bit (nat (- e)) (df M_plus));
          p2 = df M_plus AND (push_bit (nat (- e)) 1 - 1);
          (pow10, k) = find_largest_pow10 p1
      in digit_gen_int k [] p1 pow10 e p2 delta dist)"

text \<open>The digits and the decimal exponent of a positive finite double.\<close>

definition grisu2 :: "double \<Rightarrow> (nat list \<times> int) option" where
  "grisu2 d =
     (let b = compute_boundaries d; (cf, ce, ck) = get_cached_power_for_binary_exponent (de (bplus b));
          c = mk_diyfp cf ce;
          w = diyfp_mul (bw b) c; w_minus = diyfp_mul (bminus b) c; w_plus = diyfp_mul (bplus b) c;
          M_minus = mk_diyfp (df w_minus + 1) (de w_minus);
          M_plus = mk_diyfp (df w_plus - 1) (de w_plus)
      in map_option (\<lambda>(ds, x). (ds, x - ck)) (grisu2_digit_gen M_minus w M_plus))"

definition digit_char :: "nat \<Rightarrow> char" where
  "digit_char d = char_of (48 + d)"

definition append_exponent :: "int \<Rightarrow> string" where
  "append_exponent e =
     (let k = nat \<bar>e\<bar>
      in (if e < 0 then CHR ''-'' else CHR ''+'') #
         (if k < 10 then [CHR ''0'', digit_char k]
          else if k < 100 then [digit_char (k div 10), digit_char (k mod 10)]
          else [digit_char (k div 100), digit_char (k mod 100 div 10), digit_char (k mod 10)]))"

definition format_buffer :: "string \<Rightarrow> int \<Rightarrow> int \<Rightarrow> int \<Rightarrow> string" where
  "format_buffer buf decimal_exponent min_exp max_exp =
     (let k = len buf; n = k + decimal_exponent
      in if k \<le> n \<and> n \<le> max_exp then buf @ replicate (nat (n - k)) CHR ''0'' @ ''.0''
         else if 0 < n \<and> n \<le> max_exp then take (nat n) buf @ ''.'' @ drop (nat n) buf
         else if min_exp < n \<and> n \<le> 0 then ''0.'' @ replicate (nat (- n)) CHR ''0'' @ buf
         else if k = 1 then buf @ ''e'' @ append_exponent (n - 1)
         else take 1 buf @ ''.'' @ drop 1 buf @ ''e'' @ append_exponent (n - 1))"

text \<open>\<open>to_chars\<close> of a finite double; \<open>None\<close> is a failed assertion.\<close>

definition to_chars :: "double \<Rightarrow> string option" where
  "to_chars d =
     (let sgn = (if dsign d then ''-'' else [])
      in if double_significand d = 0 then Some (sgn @ ''0.0'')
         else map_option (\<lambda>(ds, x). sgn @ format_buffer (map digit_char ds) x (- 4) 15) (grisu2 d))"

end
