(* ===== verification/Tables.thy ===== *)
theory Tables imports Prelude begin

text \<open>
  The contract of a key-value table, stated once for the containers the program uses:
  \<open>std::unordered_map\<close> (association lists, interpreted here) and the \<open>std::map\<close> inside a JSON
  object (interpreted in \<open>Json_Value\<close>). The lemmas say what a loop of assignments leaves behind.
\<close>

locale table =
  fixes lookup :: "'m \<Rightarrow> 'k \<Rightarrow> 'v option"
    and assign :: "'k \<Rightarrow> 'v \<Rightarrow> 'm \<Rightarrow> 'm"
    and inv :: "'m \<Rightarrow> bool"
  assumes lookup_assign: "inv m \<Longrightarrow> lookup (assign k v m) k' = (if k' = k then Some v else lookup m k')"
    and inv_assign: "inv m \<Longrightarrow> inv (assign k v m)"
begin

lemma inv_assign_all: "inv m \<Longrightarrow> inv (fold (\<lambda>x. assign (f x) (g x)) xs m)"
  by (induction xs arbitrary: m) (simp_all add: inv_assign)

lemma lookup_assign_const:
  "inv m \<Longrightarrow> lookup (fold (\<lambda>k. assign k v) ks m) k' = (if k' \<in> set ks then Some v else lookup m k')"
  by (induction ks arbitrary: m) (simp_all add: inv_assign lookup_assign)

text \<open>A copy of a table with distinct keys, its values changed by \<open>g\<close>.\<close>

lemma lookup_assign_all:
  "inv m \<Longrightarrow> distinct (map fst kvs) \<Longrightarrow>
   lookup (fold (\<lambda>kv. assign (fst kv) (g (snd kv))) kvs m) k =
   (case map_of kvs k of Some v \<Rightarrow> Some (g v) | None \<Rightarrow> lookup m k)"
proof (induction kvs arbitrary: m)
  case (Cons kv kvs)
  obtain a b where kv: "kv = (a, b)" by force
  have "map_of kvs a = None" using Cons.prems(2) kv by (simp add: map_of_eq_None_iff)
  then show ?case using Cons kv by (auto simp: inv_assign lookup_assign split: option.split)
qed simp

end

locale table_erase = table lookup assign inv
  for lookup :: "'m \<Rightarrow> 'k \<Rightarrow> 'v option" and assign :: "'k \<Rightarrow> 'v \<Rightarrow> 'm \<Rightarrow> 'm" and inv :: "'m \<Rightarrow> bool" +
  fixes erase :: "'k \<Rightarrow> 'm \<Rightarrow> 'm"
  assumes lookup_erase: "inv m \<Longrightarrow> lookup (erase k m) k' = (if k' = k then None else lookup m k')"
    and inv_erase: "inv m \<Longrightarrow> inv (erase k m)"
begin

lemma lookup_erase_assign:
  "inv m \<Longrightarrow> lookup (erase k (assign k v m)) k' = (if k' = k then None else lookup m k')"
  by (simp add: lookup_erase lookup_assign inv_assign)

end

interpretation hash_map: table_erase map_of AList.update wf_alist AList.delete
  by unfold_locales (simp_all add: map_of_update map_of_delete)

end
