(* ===== verification/Json_Value.thy ===== *)
theory Json_Value imports Json_Double Tables begin

text \<open>
  The JSON values of \<open>common/json.hpp\<close> and the members of \<open>basic_json\<close> the program
  calls: \<open>contains\<close>, \<open>operator[]\<close> on const and non-const values, the conversions to
  \<open>int\<close>, \<open>time_t\<close>, \<open>bool\<close> and \<open>std::string\<close>, \<open>value\<close>, the comparisons, iteration and the
  construction from an initializer list. The types \<open>binary\<close> and \<open>discarded\<close> are left out:
  the program never builds a binary value, and \<open>parse\<close> throws instead of returning a
  discarded one.
\<close>

section \<open>Values\<close>

text \<open>
  \<open>number_integer\<close> holds an \<open>int64_t\<close>, \<open>number_unsigned\<close> a \<open>uint64_t\<close>. An object is a
  \<open>std::map\<close>, here the list of its entries in key order; strings compare byte by byte, as
  \<open>std::less<std::string>\<close> does.
\<close>

datatype json =
    JNull
  | JBoolean bool
  | JInteger int
  | JUnsigned int
  | JFloat double
  | JString string
  | JArray "json list"
  | JObject "(string \<times> json) list"

type_synonym entries = "(string \<times> json) list"

fun type_name :: "json \<Rightarrow> string" where
  "type_name JNull = ''null''"
| "type_name (JObject kvs) = ''object''"
| "type_name (JArray js) = ''array''"
| "type_name (JString s) = ''string''"
| "type_name (JBoolean b) = ''boolean''"
| "type_name (JInteger i) = ''number''"
| "type_name (JUnsigned i) = ''number''"
| "type_name (JFloat d) = ''number''"

text \<open>\<open>type_error::create\<close>: the name of the exception, its id, and the text.\<close>

fun nat_digits :: "nat \<Rightarrow> string" where
  "nat_digits n = (if n < 10 then [digit_char n] else nat_digits (n div 10) @ [digit_char (n mod 10)])"

declare nat_digits.simps [simp del]

definition exception_name :: "string \<Rightarrow> nat \<Rightarrow> string" where
  "exception_name ename i = ''[json.exception.'' @ ename @ ''.'' @ nat_digits i @ ''] ''"

definition type_error :: "nat \<Rightarrow> string \<Rightarrow> exn" where
  "type_error i what = JsonException i (exception_name ''type_error'' i @ what)"

section \<open>Objects\<close>

text \<open>\<open>map::emplace\<close> keeps an existing entry; \<open>map[k] = v\<close> replaces it.\<close>

fun obj_emplace :: "string \<Rightarrow> json \<Rightarrow> entries \<Rightarrow> entries" where
  "obj_emplace k v [] = [(k, v)]"
| "obj_emplace k v ((k', v') # kvs) =
     (if k = k' then (k', v') # kvs
      else if k < k' then (k, v) # (k', v') # kvs
      else (k', v') # obj_emplace k v kvs)"

fun obj_assign :: "string \<Rightarrow> json \<Rightarrow> entries \<Rightarrow> entries" where
  "obj_assign k v [] = [(k, v)]"
| "obj_assign k v ((k', v') # kvs) =
     (if k = k' then (k, v) # kvs
      else if k < k' then (k, v) # (k', v') # kvs
      else (k', v') # obj_assign k v kvs)"

definition obj_sorted :: "entries \<Rightarrow> bool" where
  "obj_sorted kvs \<longleftrightarrow> sorted_wrt (<) (map fst kvs)"

text \<open>A value as the class invariant of \<open>std::map\<close> allows it, at every depth.\<close>

fun json_wf :: "json \<Rightarrow> bool" where
  "json_wf (JArray js) = (\<forall>j \<in> set js. json_wf j)"
| "json_wf (JObject kvs) = (obj_sorted kvs \<and> (\<forall>kv \<in> set kvs. json_wf (snd kv)))"
| "json_wf (JInteger i) = is_int64 i"
| "json_wf (JUnsigned i) = (0 \<le> i \<and> i \<le> 18446744073709551615)"
| "json_wf _ = True"

text \<open>The object of an initializer list of pairs \<open>{key, value}\<close>.\<close>

definition json_object :: "entries \<Rightarrow> json" where
  "json_object kvs = JObject (foldl (\<lambda>acc (k, v). obj_emplace k v acc) [] kvs)"

section \<open>Access\<close>

fun json_contains :: "json \<Rightarrow> string \<Rightarrow> bool" where
  "json_contains (JObject kvs) k = (map_of kvs k \<noteq> None)"
| "json_contains _ k = False"

text \<open>
  The const \<open>operator[]\<close>: a missing key of an object fails \<open>JSON_ASSERT\<close>, anything that is
  not an object throws \<open>type_error.305\<close>.
\<close>

definition index_error :: "json \<Rightarrow> exn" where
  "index_error j = type_error 305 (''cannot use operator[] with a string argument with '' @ type_name j)"

fun json_at :: "json \<Rightarrow> string \<Rightarrow> json outcome" where
  "json_at (JObject kvs) k = (case map_of kvs k of Some v \<Rightarrow> Ok v | None \<Rightarrow> Abort)"
| "json_at j k = Throw (index_error j)"

text \<open>
  The non-const \<open>operator[]\<close> turns null into an empty object and adds a null entry for a
  missing key: the value it refers to, and the changed container.
\<close>

fun json_ref :: "json \<Rightarrow> string \<Rightarrow> (json \<times> json) outcome" where
  "json_ref JNull k = Ok (JNull, JObject [(k, JNull)])"
| "json_ref (JObject kvs) k =
     (let kvs' = obj_emplace k JNull kvs
      in Ok (case map_of kvs' k of Some v \<Rightarrow> v | None \<Rightarrow> JNull, JObject kvs'))"
| "json_ref j k = Throw (index_error j)"

text \<open>\<open>j[k] = v\<close>.\<close>

fun json_assign :: "json \<Rightarrow> string \<Rightarrow> json \<Rightarrow> json outcome" where
  "json_assign JNull k v = Ok (JObject [(k, v)])"
| "json_assign (JObject kvs) k v = Ok (JObject (obj_assign k v kvs))"
| "json_assign j k v = Throw (index_error j)"

text \<open>The range of \<open>for (x : j)\<close>: elements, member values, nothing for null, the value itself otherwise.\<close>

fun json_items :: "json \<Rightarrow> json list" where
  "json_items (JArray js) = js"
| "json_items (JObject kvs) = map snd kvs"
| "json_items JNull = []"
| "json_items j = [j]"

section \<open>Conversions\<close>

definition number_error :: "json \<Rightarrow> exn" where
  "number_error j = type_error 302 (''type must be number, but is '' @ type_name j)"

text \<open>
  \<open>get<int>\<close> converts any number, and a boolean, by \<open>static_cast\<close>; a double that does not
  fit is undefined behaviour.
\<close>

fun get_int :: "json \<Rightarrow> int outcome" where
  "get_int (JUnsigned i) = Ok (to_int32 i)"
| "get_int (JInteger i) = Ok (to_int32 i)"
| "get_int (JFloat d) = (if is_int32 (double_trunc d) then Ok (double_trunc d) else UB)"
| "get_int (JBoolean b) = Ok (of_bool b)"
| "get_int j = Throw (number_error j)"

text \<open>\<open>get<time_t>\<close> is \<open>get<int64_t>\<close>, which does not take a boolean.\<close>

fun get_time :: "json \<Rightarrow> int outcome" where
  "get_time (JUnsigned i) = Ok (to_int64 i)"
| "get_time (JInteger i) = Ok (to_int64 i)"
| "get_time (JFloat d) = (if is_int64 (double_trunc d) then Ok (double_trunc d) else UB)"
| "get_time j = Throw (number_error j)"

fun get_bool :: "json \<Rightarrow> bool outcome" where
  "get_bool (JBoolean b) = Ok b"
| "get_bool j = Throw (type_error 302 (''type must be boolean, but is '' @ type_name j))"

fun get_string :: "json \<Rightarrow> string outcome" where
  "get_string (JString s) = Ok s"
| "get_string j = Throw (type_error 302 (''type must be string, but is '' @ type_name j))"

text \<open>\<open>j.value(k, d)\<close> for a boolean default.\<close>

fun value_bool :: "json \<Rightarrow> string \<Rightarrow> bool \<Rightarrow> bool outcome" where
  "value_bool (JObject kvs) k d = (case map_of kvs k of Some v \<Rightarrow> get_bool v | None \<Rightarrow> Ok d)"
| "value_bool j k d = Throw (type_error 306 (''cannot use value() with '' @ type_name j))"

text \<open>\<open>n != j\<close> for an \<open>int\<close> \<open>n\<close>: the comparison of a \<open>number_integer\<close> with any value.\<close>

fun int_eq_json :: "int \<Rightarrow> json \<Rightarrow> bool" where
  "int_eq_json n (JInteger i) = (n = i)"
| "int_eq_json n (JUnsigned i) = (n = to_int64 i)"
| "int_eq_json n (JFloat d) = double_eq (double_of_int n) d"
| "int_eq_json n j = False"

definition int_neq_json :: "int \<Rightarrow> json \<Rightarrow> bool" where
  "int_neq_json n j \<longleftrightarrow> \<not> int_eq_json n j"

text \<open>\<open>get<int>\<close> and \<open>get<std::string>\<close> of a member of a const object.\<close>

definition int_at :: "json \<Rightarrow> string \<Rightarrow> int outcome" where
  "int_at j k = obind (json_at j k) get_int"

definition string_at :: "json \<Rightarrow> string \<Rightarrow> string outcome" where
  "string_at j k = obind (json_at j k) get_string"

section \<open>Lemmas\<close>

lemma obj_sorted_Nil [simp]: "obj_sorted []"
  by (simp add: obj_sorted_def)

lemma obj_sorted_Cons: "obj_sorted ((k, v) # kvs) \<longleftrightarrow> (\<forall>kv \<in> set kvs. k < fst kv) \<and> obj_sorted kvs"
  by (auto simp: obj_sorted_def)

lemma obj_sorted_distinct: "obj_sorted kvs \<Longrightarrow> distinct (map fst kvs)"
  by (induction kvs) (simp, fastforce simp: obj_sorted_Cons)

lemma obj_lookup_greater: "\<forall>kv \<in> set kvs. k < fst kv \<Longrightarrow> map_of kvs k' = Some v \<Longrightarrow> k < k'"
  by (drule map_of_SomeD) auto

lemma map_of_obj_assign [alist_simps]: "map_of (obj_assign k v kvs) k' = (if k' = k then Some v else map_of kvs k')"
  by (induction k v kvs rule: obj_assign.induct) auto

lemma keys_obj_assign: "fst ` set (obj_assign k v kvs) = insert k (fst ` set kvs)"
  by (induction k v kvs rule: obj_assign.induct) auto

lemma keys_obj_emplace: "fst ` set (obj_emplace k v kvs) = insert k (fst ` set kvs)"
  by (induction k v kvs rule: obj_emplace.induct) auto

lemma keys_greater_assign:
  "(\<forall>kv \<in> set (obj_assign k v kvs). x < fst kv) \<longleftrightarrow> x < k \<and> (\<forall>kv \<in> set kvs. x < fst kv)"
proof -
  have "(\<forall>kv \<in> set (obj_assign k v kvs). x < fst kv) \<longleftrightarrow> (\<forall>y \<in> fst ` set (obj_assign k v kvs). x < y)"
    by blast
  then show ?thesis by (simp add: keys_obj_assign)
qed

lemma keys_greater_emplace:
  "(\<forall>kv \<in> set (obj_emplace k v kvs). x < fst kv) \<longleftrightarrow> x < k \<and> (\<forall>kv \<in> set kvs. x < fst kv)"
proof -
  have "(\<forall>kv \<in> set (obj_emplace k v kvs). x < fst kv) \<longleftrightarrow> (\<forall>y \<in> fst ` set (obj_emplace k v kvs). x < y)"
    by blast
  then show ?thesis by (simp add: keys_obj_emplace)
qed

lemma obj_sorted_assign [simp]: "obj_sorted kvs \<Longrightarrow> obj_sorted (obj_assign k v kvs)"
  by (induction k v kvs rule: obj_assign.induct)
     (simp_all add: obj_sorted_Cons keys_greater_assign, force)

lemma obj_sorted_emplace [simp]: "obj_sorted kvs \<Longrightarrow> obj_sorted (obj_emplace k v kvs)"
  by (induction k v kvs rule: obj_emplace.induct)
     (simp_all add: obj_sorted_Cons keys_greater_emplace, force)

lemma map_of_obj_emplace [alist_simps]:
  "obj_sorted kvs \<Longrightarrow> map_of (obj_emplace k v kvs) k' =
     (if k' = k \<and> map_of kvs k = None then Some v else map_of kvs k')"
proof (induction k v kvs rule: obj_emplace.induct)
  case (2 k v k' v' kvs)
  then show ?case
    by (auto simp: obj_sorted_Cons dest: obj_lookup_greater)
qed simp

interpretation json_members: table map_of obj_assign obj_sorted
  by unfold_locales (simp_all add: map_of_obj_assign)

text \<open>Two sorted objects with the same entries are the same object.\<close>

lemma obj_sorted_ext:
  "obj_sorted xs \<Longrightarrow> obj_sorted ys \<Longrightarrow> map_of xs = map_of ys \<Longrightarrow> xs = ys"
proof (induction xs arbitrary: ys)
  case Nil
  then show ?case by (cases ys) (auto simp: fun_eq_iff split: if_splits)
next
  case (Cons x xs)
  obtain k v where x: "x = (k, v)" by force
  obtain k' v' ys' where ys: "ys = (k', v') # ys'"
    using Cons.prems(3) x by (cases ys) (force simp: fun_eq_iff split: if_splits)+
  have "map_of ys k = Some v" "map_of (x # xs) k' = Some v'"
    using Cons.prems(3) x ys by (metis map_of_Cons_code(2))+
  then have kk: "k = k'" and vv: "v = v'"
    using Cons.prems(1,2) x ys by (auto simp: obj_sorted_Cons split: if_splits dest: obj_lookup_greater order.asym)
  have "map_of xs k = None" "map_of ys' k = None"
    using Cons.prems(1,2) x ys kk by (fastforce simp: obj_sorted_Cons map_of_eq_None_iff)+
  then have "map_of xs = map_of ys'"
    using Cons.prems(3) x ys kk by (metis fun_upd_triv fun_upd_upd map_of.simps(2) fst_conv snd_conv)
  with Cons show ?case using x ys kk vv by (simp add: obj_sorted_Cons)
qed

text \<open>What the parser returns for a value that was printed: a non-negative integer comes back unsigned.\<close>

fun json_norm :: "json \<Rightarrow> json" where
  "json_norm (JInteger i) = (if 0 \<le> i then JUnsigned i else JInteger i)"
| "json_norm (JArray js) = JArray (map json_norm js)"
| "json_norm (JObject kvs) = JObject (map (\<lambda>kv. (fst kv, json_norm (snd kv))) kvs)"
| "json_norm j = j"

lemma map_of_norm: "map_of (map (\<lambda>kv. (fst kv, f (snd kv))) kvs) k = map_option f (map_of kvs k)"
  by (induction kvs) auto

lemma type_name_norm [simp]: "type_name (json_norm j) = type_name j"
  by (cases j) auto

lemma get_int_norm [simp]: "get_int (json_norm j) = get_int j"
  by (cases j) (auto simp: number_error_def)

lemma get_time_norm [simp]: "get_time (json_norm j) = get_time j"
  by (cases j) (auto simp: number_error_def)

lemma get_bool_norm [simp]: "get_bool (json_norm j) = get_bool j"
  by (cases j) auto

lemma get_string_norm [simp]: "get_string (json_norm j) = get_string j"
  by (cases j) auto

lemma json_contains_norm [simp]: "json_contains (json_norm j) k = json_contains j k"
  by (cases j) (auto simp: map_of_norm)

lemma json_at_norm: "json_at (json_norm j) k = omap json_norm (json_at j k)"
  by (cases j) (auto simp: map_of_norm index_error_def split: option.splits)

lemma int_at_norm [simp]: "int_at (json_norm j) k = int_at j k"
  by (cases "json_at j k") (auto simp: int_at_def json_at_norm)

lemma string_at_norm [simp]: "string_at (json_norm j) k = string_at j k"
  by (cases "json_at j k") (auto simp: string_at_def json_at_norm)

lemma value_bool_norm [simp]: "value_bool (json_norm j) k d = value_bool j k d"
  by (cases j) (auto simp: map_of_norm split: option.splits)

lemma json_items_norm [simp]: "json_items (json_norm j) = map json_norm (json_items j)"
  by (cases j) auto

lemma int_eq_json_norm [simp]: "json_wf j \<Longrightarrow> int_eq_json n (json_norm j) = int_eq_json n j"
  by (cases j) auto

end
