(* ===== verification/Json_Dump.thy ===== *)
theory Json_Dump imports Json_Value begin

text \<open>
  The serializer of \<open>common/json.hpp\<close>: \<open>dump()\<close> prints a message compactly, \<open>dump(4)\<close>
  pretty. Strings are decoded with a UTF-8 automaton while they are escaped; a byte that is
  not UTF-8 throws \<open>type_error.316\<close> (the error handler is \<open>strict\<close>, the default, at every
  call of the program). Output goes to a string that is lost when an exception is thrown, so
  a call has only its outcome.
\<close>

section \<open>The UTF-8 automaton\<close>

text \<open>The table \<open>utf8d\<close>: a class for each byte, then a row of 16 successors for each state.\<close>

definition utf8_class_table :: "nat list" where
  "utf8_class_table =
     replicate 128 0 @ replicate 16 1 @ replicate 16 9 @ replicate 32 7 @
     [8, 8] @ replicate 30 2 @
     [10] @ replicate 12 3 @ [4, 3, 3] @
     [11, 6, 6, 6, 5] @ replicate 11 8"

definition utf8_next_table :: "nat list list" where
  "utf8_next_table =
     [[0, 1, 2, 3, 5, 8, 7, 1, 1, 1, 4, 6, 1, 1, 1, 1],
      [1, 1, 1, 1, 1, 1, 1, 1, 1, 1, 1, 1, 1, 1, 1, 1],
      [1, 0, 1, 1, 1, 1, 1, 0, 1, 0, 1, 1, 1, 1, 1, 1],
      [1, 2, 1, 1, 1, 1, 1, 2, 1, 2, 1, 1, 1, 1, 1, 1],
      [1, 1, 1, 1, 1, 1, 1, 2, 1, 1, 1, 1, 1, 1, 1, 1],
      [1, 2, 1, 1, 1, 1, 1, 1, 1, 2, 1, 1, 1, 1, 1, 1],
      [1, 1, 1, 1, 1, 1, 1, 3, 1, 3, 1, 1, 1, 1, 1, 1],
      [1, 3, 1, 1, 1, 1, 1, 3, 1, 3, 1, 1, 1, 1, 1, 1],
      [1, 3, 1, 1, 1, 1, 1, 1, 1, 1, 1, 1, 1, 1, 1, 1]]"

definition byte_of :: "char \<Rightarrow> nat" where
  "byte_of c = of_char c"

definition utf8_class :: "nat \<Rightarrow> nat" where
  "utf8_class b = utf8_class_table ! b"

definition utf8_next :: "nat \<Rightarrow> nat \<Rightarrow> nat" where
  "utf8_next st b = utf8_next_table ! st ! utf8_class b"

definition utf8_codepoint :: "nat \<Rightarrow> nat \<Rightarrow> nat \<Rightarrow> nat" where
  "utf8_codepoint st codep b =
     (if st \<noteq> 0 then b mod 64 + codep * 64 else b mod 2 ^ (8 - utf8_class b))"

text \<open>
  The code's \<open>(byte & 0x3f) | (codep << 6)\<close> and \<open>(0xff >> type) & byte\<close> are written with the
  arithmetic they stand for: the operands of the \<open>|\<close> have no common bit, and a mask of low
  bits is a remainder.
\<close>

section \<open>Escaping\<close>

definition hex_digit :: "nat \<Rightarrow> char" where
  "hex_digit n = (if n < 10 then char_of (48 + n) else char_of (87 + n))"

definition hex_digit_upper :: "nat \<Rightarrow> char" where
  "hex_digit_upper n = (if n < 10 then char_of (48 + n) else char_of (55 + n))"

text \<open>\<open>hex_bytes\<close>, and \<open>snprintf\<close> with the format \<open>%04x\<close>.\<close>

definition hex_bytes :: "nat \<Rightarrow> string" where
  "hex_bytes b = [hex_digit_upper (b div 16), hex_digit_upper (b mod 16)]"

definition hex4 :: "nat \<Rightarrow> string" where
  "hex4 n = [hex_digit (n div 4096 mod 16), hex_digit (n div 256 mod 16),
             hex_digit (n div 16 mod 16), hex_digit (n mod 16)]"

definition backslash :: char where
  "backslash = CHR 0x5C"

definition quote :: char where
  "quote = CHR 0x22"

definition unicode_escape :: "nat \<Rightarrow> string" where
  "unicode_escape cp =
     (if cp \<le> 65535 then [backslash, CHR ''u''] @ hex4 cp
      else [backslash, CHR ''u''] @ hex4 (55232 + cp div 1024) @
           [backslash, CHR ''u''] @ hex4 (56320 + cp mod 1024))"

text \<open>The bytes written when the automaton accepts the code point \<open>cp\<close> at the byte \<open>c\<close>.\<close>

definition escape_codepoint :: "bool \<Rightarrow> nat \<Rightarrow> char \<Rightarrow> string" where
  "escape_codepoint ascii cp c =
     (if cp = 8 then [backslash, CHR ''b'']
      else if cp = 9 then [backslash, CHR ''t'']
      else if cp = 10 then [backslash, CHR ''n'']
      else if cp = 12 then [backslash, CHR ''f'']
      else if cp = 13 then [backslash, CHR ''r'']
      else if cp = 34 then [backslash, quote]
      else if cp = 92 then [backslash, backslash]
      else if cp \<le> 31 \<or> (ascii \<and> 127 \<le> cp) then unicode_escape cp
      else [c])"

text \<open>The loop over the bytes: index, state, code point so far, last byte, output.\<close>

fun dump_escaped_loop :: "bool \<Rightarrow> string \<Rightarrow> nat \<Rightarrow> nat \<Rightarrow> nat \<Rightarrow> nat \<Rightarrow> string outcome" where
  "dump_escaped_loop ascii [] i st codep lst =
     (if st = 0 then Ok []
      else Throw (type_error 316 (''incomplete UTF-8 string; last byte: 0x'' @ hex_bytes lst)))"
| "dump_escaped_loop ascii (c # cs) i st codep lst =
     (let b = byte_of c; cp = utf8_codepoint st codep b; st' = utf8_next st b
      in if st' = 0 then
           omap (\<lambda>s. escape_codepoint ascii cp c @ s) (dump_escaped_loop ascii cs (Suc i) st' cp b)
         else if st' = 1 then
           Throw (type_error 316 (''invalid UTF-8 byte at index '' @ nat_digits i @ '': 0x'' @ hex_bytes b))
         else
           omap (\<lambda>s. (if ascii then s else c # s)) (dump_escaped_loop ascii cs (Suc i) st' cp b))"

definition dump_escaped :: "bool \<Rightarrow> string \<Rightarrow> string outcome" where
  "dump_escaped ascii s = dump_escaped_loop ascii s 0 0 0 0"

text \<open>
  Text of printable ASCII characters without quote and backslash is printed as it is; this is
  also how such text is evaluated.
\<close>

definition plain_text :: "string \<Rightarrow> bool" where
  "plain_text s \<longleftrightarrow> list_all (\<lambda>c. 32 \<le> byte_of c \<and> byte_of c < 127 \<and> byte_of c \<noteq> 34 \<and> byte_of c \<noteq> 92) s"

lemma ascii_byte:
  assumes "b < 128"
  shows "utf8_next 0 b = 0" "utf8_codepoint 0 cp b = b"
proof -
  have "utf8_class b = 0" using assms by (simp add: utf8_class_def utf8_class_table_def nth_append)
  then show "utf8_next 0 b = 0" "utf8_codepoint 0 cp b = b"
    using assms by (simp_all add: utf8_next_def utf8_next_table_def utf8_codepoint_def)
qed

lemma dump_escaped_plain: "plain_text s \<Longrightarrow> dump_escaped False s = Ok s"
proof -
  have "plain_text s \<Longrightarrow> dump_escaped_loop False s i 0 cp l = Ok s" for i cp l
  proof (induction s arbitrary: i cp l)
    case (Cons c s)
    then have "byte_of c < 128" "escape_codepoint False (byte_of c) c = [c]"
      by (simp_all add: plain_text_def escape_codepoint_def)
    then show ?case using Cons ascii_byte [of "byte_of c"] by (simp add: plain_text_def Let_def)
  qed simp
  then show "plain_text s \<Longrightarrow> dump_escaped False s = Ok s" by (simp add: dump_escaped_def)
qed

lemma dump_escaped_code [code]:
  "dump_escaped ascii s = (if \<not> ascii \<and> plain_text s then Ok s else dump_escaped_loop ascii s 0 0 0 0)"
  using dump_escaped_plain by (simp add: dump_escaped_def)

section \<open>Integers\<close>

function count_digits :: "int \<Rightarrow> nat" where
  "count_digits x =
     (if x < 10 then 1 else if x < 100 then 2 else if x < 1000 then 3 else if x < 10000 then 4
      else count_digits (x div 10000) + 4)"
  by pat_completeness auto
termination
  by (relation "measure nat") auto

declare count_digits.simps [simp del]

text \<open>The buffer is filled from its end, two digits of the table \<open>digits_to_99\<close> at a time.\<close>

definition digits_to_99 :: "int \<Rightarrow> string" where
  "digits_to_99 n = [digit_char (nat (n div 10)), digit_char (nat (n mod 10))]"

function fill_digits :: "int \<Rightarrow> string \<Rightarrow> string" where
  "fill_digits x buf =
     (if 100 \<le> x then fill_digits (x div 100) (digits_to_99 (x mod 100) @ buf)
      else if 10 \<le> x then digits_to_99 x @ buf
      else digit_char (nat x) # buf)"
  by pat_completeness auto
termination
  by (relation "measure (\<lambda>(x, buf). nat x)") auto

declare fill_digits.simps [simp del]

definition remove_sign :: "int \<Rightarrow> int" where
  "remove_sign x = - (x + 1) + 1"

definition dump_integer :: "int \<Rightarrow> string" where
  "dump_integer x =
     (if x = 0 then ''0''
      else if x < 0 then CHR ''-'' # fill_digits (remove_sign x) []
      else fill_digits x [])"

definition dump_float :: "double \<Rightarrow> string outcome" where
  "dump_float d =
     (if \<not> double_isfinite d then Ok ''null''
      else case to_chars d of Some s \<Rightarrow> Ok s | None \<Rightarrow> Abort)"

section \<open>Values\<close>

fun osequence :: "'a outcome list \<Rightarrow> 'a list outcome" where
  "osequence [] = Ok []"
| "osequence (r # rs) = obind r (\<lambda>a. omap (\<lambda>as. a # as) (osequence rs))"

fun join :: "string \<Rightarrow> string list \<Rightarrow> string" where
  "join sep [] = []"
| "join sep [s] = s"
| "join sep (s # t # ss) = s @ sep @ join sep (t # ss)"

definition indentation :: "nat \<Rightarrow> string" where
  "indentation n = replicate n CHR '' ''"

text \<open>
  \<open>dump(val, pretty_print, ensure_ascii, indent_step, current_indent)\<close>. Elements and members
  are printed in order, separated by a comma (and a line break when pretty); the first one
  that throws ends the call. The indentation string of the class holds 512 characters and is
  doubled once when needed, so the pretty form is the code's up to an indentation of 512.
\<close>

fun json_dump :: "bool \<Rightarrow> bool \<Rightarrow> nat \<Rightarrow> nat \<Rightarrow> json \<Rightarrow> string outcome" where
  "json_dump pretty ascii stp cur (JObject kvs) =
     (if kvs = [] then Ok ''{}''
      else if pretty then
        omap (\<lambda>ms. ''{'' @ [CHR 0x0A] @ join ('','' @ [CHR 0x0A]) (map (\<lambda>m. indentation (cur + stp) @ m) ms)
                   @ [CHR 0x0A] @ indentation cur @ ''}'')
          (osequence (map (\<lambda>kv. obind (dump_escaped ascii (fst kv)) (\<lambda>k.
             omap (\<lambda>v. [quote] @ k @ [quote] @ '': '' @ v) (json_dump pretty ascii stp (cur + stp) (snd kv)))) kvs))
      else
        omap (\<lambda>ms. ''{'' @ join '','' ms @ ''}'')
          (osequence (map (\<lambda>kv. obind (dump_escaped ascii (fst kv)) (\<lambda>k.
             omap (\<lambda>v. [quote] @ k @ [quote] @ '':'' @ v) (json_dump pretty ascii stp cur (snd kv)))) kvs)))"
| "json_dump pretty ascii stp cur (JArray js) =
     (if js = [] then Ok ''[]''
      else if pretty then
        omap (\<lambda>ms. ''['' @ [CHR 0x0A] @ join ('','' @ [CHR 0x0A]) (map (\<lambda>m. indentation (cur + stp) @ m) ms)
                   @ [CHR 0x0A] @ indentation cur @ '']'')
          (osequence (map (json_dump pretty ascii stp (cur + stp)) js))
      else
        omap (\<lambda>ms. ''['' @ join '','' ms @ '']'')
          (osequence (map (json_dump pretty ascii stp cur) js)))"
| "json_dump pretty ascii stp cur (JString s) =
     omap (\<lambda>t. [quote] @ t @ [quote]) (dump_escaped ascii s)"
| "json_dump pretty ascii stp cur (JBoolean b) = Ok (if b then ''true'' else ''false'')"
| "json_dump pretty ascii stp cur (JInteger i) = Ok (dump_integer i)"
| "json_dump pretty ascii stp cur (JUnsigned i) = Ok (dump_integer i)"
| "json_dump pretty ascii stp cur (JFloat d) = dump_float d"
| "json_dump pretty ascii stp cur JNull = Ok ''null''"

text \<open>\<open>j.dump()\<close> and \<open>j.dump(4)\<close>.\<close>

definition dump :: "json \<Rightarrow> string outcome" where
  "dump j = json_dump False False 0 0 j"

definition dump_indent :: "nat \<Rightarrow> json \<Rightarrow> string outcome" where
  "dump_indent n j = json_dump True False n 0 j"

end
