(* ===== verification/Json_Lexer.thy ===== *)
theory Json_Lexer imports Json_Dump begin

text \<open>
  The lexical analysis of \<open>common/json.hpp\<close> (class \<open>lexer\<close>): the input with one character
  of push-back, the position and the token text kept for error messages, and the scanner of
  strings, numbers, literals and structural characters. Comments are in
  \<open>Json_Comments\<close>: the program never asks for them (\<open>ignore_comments\<close> is false at every call of \<open>parse\<close>).
\<close>

section \<open>State\<close>

datatype token_type =
    TUninitialized | LiteralTrue | LiteralFalse | LiteralNull
  | ValueString | ValueUnsigned | ValueInteger | ValueFloat
  | BeginArray | BeginObject | EndArray | EndObject
  | NameSeparator | ValueSeparator | ParseError | EndOfInput | LiteralOrValue

fun token_type_name :: "token_type \<Rightarrow> string" where
  "token_type_name TUninitialized = ''<uninitialized>''"
| "token_type_name LiteralTrue = ''true literal''"
| "token_type_name LiteralFalse = ''false literal''"
| "token_type_name LiteralNull = ''null literal''"
| "token_type_name ValueString = ''string literal''"
| "token_type_name ValueUnsigned = ''number literal''"
| "token_type_name ValueInteger = ''number literal''"
| "token_type_name ValueFloat = ''number literal''"
| "token_type_name BeginArray = [CHR 0x27] @ ''['' @ [CHR 0x27]"
| "token_type_name BeginObject = [CHR 0x27] @ ''{'' @ [CHR 0x27]"
| "token_type_name EndArray = [CHR 0x27] @ '']'' @ [CHR 0x27]"
| "token_type_name EndObject = [CHR 0x27] @ ''}'' @ [CHR 0x27]"
| "token_type_name NameSeparator = [CHR 0x27] @ '':'' @ [CHR 0x27]"
| "token_type_name ValueSeparator = [CHR 0x27] @ '','' @ [CHR 0x27]"
| "token_type_name ParseError = ''<parse error>''"
| "token_type_name EndOfInput = ''end of input''"
| "token_type_name LiteralOrValue =
     [CHR 0x27] @ ''['' @ [CHR 0x27] @ '', '' @ [CHR 0x27] @ ''{'' @ [CHR 0x27] @ '', or a literal''"

record lex_position =
  chars_read_total :: nat
  chars_read_current_line :: nat
  lines_read :: nat

text \<open>\<open>current\<close> is \<open>None\<close> for \<open>EOF\<close>; \<open>input\<close> is what the input adapter has not delivered yet.\<close>

record lexer =
  input :: string
  current :: "char option"
  next_unget :: bool
  position :: lex_position
  token_string :: string
  token_buffer :: string
  error_message :: string
  value_integer :: int
  value_unsigned :: int
  value_float :: double

definition lexer_new :: "string \<Rightarrow> lexer" where
  "lexer_new s =
     \<lparr>input = s, current = None, next_unget = False,
      position = \<lparr>chars_read_total = 0, chars_read_current_line = 0, lines_read = 0\<rparr>,
      token_string = [], token_buffer = [], error_message = [],
      value_integer = 0, value_unsigned = 0, value_float = double_zero False\<rparr>"

section \<open>Input\<close>

definition count_char :: "lex_position \<Rightarrow> char option \<Rightarrow> lex_position" where
  "count_char p c =
     (let p' = p\<lparr>chars_read_total := Suc (chars_read_total p),
                 chars_read_current_line := Suc (chars_read_current_line p)\<rparr>
      in if c = Some CHR 0x0A
         then p'\<lparr>lines_read := Suc (lines_read p'), chars_read_current_line := 0\<rparr> else p')"

definition uncount_char :: "lex_position \<Rightarrow> lex_position" where
  "uncount_char p =
     (let p' = p\<lparr>chars_read_total := chars_read_total p - 1\<rparr>
      in if chars_read_current_line p = 0
         then (if 0 < lines_read p then p'\<lparr>lines_read := lines_read p - 1\<rparr> else p')
         else p'\<lparr>chars_read_current_line := chars_read_current_line p - 1\<rparr>)"

definition lex_read :: "lexer \<Rightarrow> lexer" where
  "lex_read lx =
     (if next_unget lx then lx\<lparr>next_unget := False\<rparr>
      else case input lx of
             [] \<Rightarrow> lx\<lparr>current := None\<rparr>
           | c # cs \<Rightarrow> lx\<lparr>current := Some c, input := cs\<rparr>)"

definition lex_get :: "lexer \<Rightarrow> lexer" where
  "lex_get lx =
     (let lx' = lex_read lx
      in lx'\<lparr>token_string := (case current lx' of None \<Rightarrow> token_string lx' | Some c \<Rightarrow> token_string lx' @ [c]),
             position := count_char (position lx') (current lx')\<rparr>)"

definition lex_unget :: "lexer \<Rightarrow> lexer" where
  "lex_unget lx =
     lx\<lparr>next_unget := True, position := uncount_char (position lx),
        token_string := (case current lx of None \<Rightarrow> token_string lx | Some c \<Rightarrow> butlast (token_string lx))\<rparr>"

definition lex_add :: "char \<Rightarrow> lexer \<Rightarrow> lexer" where
  "lex_add c lx = lx\<lparr>token_buffer := token_buffer lx @ [c]\<rparr>"

definition lex_reset :: "lexer \<Rightarrow> lexer" where
  "lex_reset lx =
     lx\<lparr>token_buffer := [],
        token_string := (case current lx of None \<Rightarrow> [CHR 0xFF] | Some c \<Rightarrow> [c])\<rparr>"

definition lex_error :: "string \<Rightarrow> lexer \<Rightarrow> lexer" where
  "lex_error m lx = lx\<lparr>error_message := m\<rparr>"

text \<open>
  How much input is left: the characters not delivered, and the pushed-back one. Every
  \<open>lex_get\<close> that does not answer \<open>EOF\<close> lowers it, which is why the loops below end.
\<close>

definition lex_left :: "lexer \<Rightarrow> nat" where
  "lex_left lx = length (input lx) + (if next_unget lx \<and> current lx \<noteq> None then 1 else 0)"

lemma lex_left_get_le: "lex_left (lex_get lx) \<le> lex_left lx"
  by (auto simp: lex_left_def lex_get_def lex_read_def Let_def split: list.splits)

lemma lex_left_get_less: "current (lex_get lx) = Some c \<Longrightarrow> lex_left (lex_get lx) < lex_left lx"
  by (auto simp: lex_left_def lex_get_def lex_read_def Let_def split: list.splits if_splits)

lemma lex_left_simps [simp]:
  "lex_left (lex_add c lx) = lex_left lx"
  "lex_left (lex_reset lx) = lex_left lx"
  "lex_left (lex_error m lx) = lex_left lx"
  by (simp_all add: lex_left_def lex_add_def lex_reset_def lex_error_def)

lemma lex_current_simps [simp]:
  "current (lex_add c lx) = current lx"
  "current (lex_reset lx) = current lx"
  "current (lex_error m lx) = current lx"
  by (simp_all add: lex_add_def lex_reset_def lex_error_def)

section \<open>Strings\<close>

definition hex_value :: "char \<Rightarrow> int option" where
  "hex_value c =
     (let b = int (byte_of c)
      in if 48 \<le> b \<and> b \<le> 57 then Some (b - 48)
         else if 65 \<le> b \<and> b \<le> 70 then Some (b - 55)
         else if 97 \<le> b \<and> b \<le> 102 then Some (b - 87)
         else None)"

text \<open>\<open>get_codepoint\<close>: the loop over the factors 12, 8, 4, 0; \<open>None\<close> is its result \<open>-1\<close>.\<close>

fun codepoint_loop :: "nat list \<Rightarrow> int \<Rightarrow> lexer \<Rightarrow> int option \<times> lexer" where
  "codepoint_loop [] cp lx = (Some cp, lx)"
| "codepoint_loop (factor # fs) cp lx =
     (let lx' = lex_get lx
      in case current lx' of
           None \<Rightarrow> (None, lx')
         | Some c \<Rightarrow> (case hex_value c of
                       None \<Rightarrow> (None, lx')
                     | Some v \<Rightarrow> codepoint_loop fs (cp + push_bit factor v) lx'))"

definition get_codepoint :: "lexer \<Rightarrow> int option \<times> lexer" where
  "get_codepoint lx = codepoint_loop [12, 8, 4, 0] 0 lx"

text \<open>\<open>next_byte_in_range\<close>: adds the current byte, then one more byte for each range.\<close>

fun ranges_loop :: "(nat \<times> nat) list \<Rightarrow> lexer \<Rightarrow> bool \<times> lexer" where
  "ranges_loop [] lx = (True, lx)"
| "ranges_loop ((lo, hi) # rs) lx =
     (let lx' = lex_get lx
      in case current lx' of
           None \<Rightarrow> (False, lex_error ''invalid string: ill-formed UTF-8 byte'' lx')
         | Some c \<Rightarrow>
             if lo \<le> byte_of c \<and> byte_of c \<le> hi then ranges_loop rs (lex_add c lx')
             else (False, lex_error ''invalid string: ill-formed UTF-8 byte'' lx'))"

definition next_byte_in_range :: "(nat \<times> nat) list \<Rightarrow> char \<Rightarrow> lexer \<Rightarrow> bool \<times> lexer" where
  "next_byte_in_range rs c lx = ranges_loop rs (lex_add c lx)"

text \<open>The bytes of a code point in UTF-8; the bit operations of the code as arithmetic.\<close>

definition utf8_encode :: "int \<Rightarrow> string" where
  "utf8_encode cp =
     (if cp < 128 then [char_of (nat cp)]
      else if cp \<le> 2047 then [char_of (nat (192 + cp div 64)), char_of (nat (128 + cp mod 64))]
      else if cp \<le> 65535 then
        [char_of (nat (224 + cp div 4096)), char_of (nat (128 + cp div 64 mod 64)), char_of (nat (128 + cp mod 64))]
      else
        [char_of (nat (240 + cp div 262144)), char_of (nat (128 + cp div 4096 mod 64)),
         char_of (nat (128 + cp div 64 mod 64)), char_of (nat (128 + cp mod 64))])"

definition hex_digits_message :: string where
  "hex_digits_message =
     ''invalid string: '' @ [CHR 0x27, backslash, CHR ''u'', CHR 0x27] @ '' must be followed by 4 hex digits''"

definition low_surrogate_message :: string where
  "low_surrogate_message = ''invalid string: surrogate U+D800..U+DBFF must be followed by U+DC00..U+DFFF''"

definition high_surrogate_message :: string where
  "high_surrogate_message = ''invalid string: surrogate U+DC00..U+DFFF must follow U+D800..U+DBFF''"

definition lex_add_all :: "string \<Rightarrow> lexer \<Rightarrow> lexer" where
  "lex_add_all s lx = lx\<lparr>token_buffer := token_buffer lx @ s\<rparr>"

text \<open>
  A \<open>u\<close> escape, after the letter was read. A high surrogate needs a second escape with a
  low one; \<open>&&\<close> reads the second character only if the first is a backslash.
\<close>

definition scan_unicode_escape :: "lexer \<Rightarrow> bool \<times> lexer" where
  "scan_unicode_escape lx =
     (case get_codepoint lx of
        (None, lx1) \<Rightarrow> (False, lex_error hex_digits_message lx1)
      | (Some cp1, lx1) \<Rightarrow>
          if 55296 \<le> cp1 \<and> cp1 \<le> 56319 then
            (let lx2 = lex_get lx1
             in if current lx2 \<noteq> Some backslash then (False, lex_error low_surrogate_message lx2)
                else let lx3 = lex_get lx2
                     in if current lx3 \<noteq> Some CHR ''u'' then (False, lex_error low_surrogate_message lx3)
                        else case get_codepoint lx3 of
                               (None, lx4) \<Rightarrow> (False, lex_error hex_digits_message lx4)
                             | (Some cp2, lx4) \<Rightarrow>
                                 if 56320 \<le> cp2 \<and> cp2 \<le> 57343
                                 then (True, lex_add_all (utf8_encode (cp1 * 1024 + cp2 - 56613888)) lx4)
                                 else (False, lex_error low_surrogate_message lx4))
          else if 56320 \<le> cp1 \<and> cp1 \<le> 57343 then (False, lex_error high_surrogate_message lx1)
          else (True, lex_add_all (utf8_encode cp1) lx1))"

definition scan_escape :: "lexer \<Rightarrow> bool \<times> lexer" where
  "scan_escape lx =
     (let lx1 = lex_get lx; c = current lx1
      in if c = Some quote then (True, lex_add quote lx1)
         else if c = Some backslash then (True, lex_add backslash lx1)
         else if c = Some CHR ''/'' then (True, lex_add CHR ''/'' lx1)
         else if c = Some CHR ''b'' then (True, lex_add CHR 0x08 lx1)
         else if c = Some CHR ''f'' then (True, lex_add CHR 0x0C lx1)
         else if c = Some CHR ''n'' then (True, lex_add CHR 0x0A lx1)
         else if c = Some CHR ''r'' then (True, lex_add CHR 0x0D lx1)
         else if c = Some CHR ''t'' then (True, lex_add CHR 0x09 lx1)
         else if c = Some CHR ''u'' then scan_unicode_escape lx1
         else (False, lex_error ''invalid string: forbidden character after backslash'' lx1))"

text \<open>The messages for the control characters 00 to 1F, one \<open>case\<close> label each in the code.\<close>

definition control_names :: "string list" where
  "control_names =
     [''NUL'', ''SOH'', ''STX'', ''ETX'', ''EOT'', ''ENQ'', ''ACK'', ''BEL'',
      ''BS'', ''HT'', ''LF'', ''VT'', ''FF'', ''CR'', ''SO'', ''SI'',
      ''DLE'', ''DC1'', ''DC2'', ''DC3'', ''DC4'', ''NAK'', ''SYN'', ''ETB'',
      ''CAN'', ''EM'', ''SUB'', ''ESC'', ''FS'', ''GS'', ''RS'', ''US'']"

definition control_message :: "nat \<Rightarrow> string" where
  "control_message b =
     (let code = ''00'' @ hex_bytes b;
          short = (if b = 8 then '' or '' @ [backslash] @ ''b''
                   else if b = 9 then '' or '' @ [backslash] @ ''t''
                   else if b = 10 then '' or '' @ [backslash] @ ''n''
                   else if b = 12 then '' or '' @ [backslash] @ ''f''
                   else if b = 13 then '' or '' @ [backslash] @ ''r'' else [])
      in ''invalid string: control character U+'' @ code @ '' ('' @ control_names ! b @
         '') must be escaped to '' @ [backslash] @ ''u'' @ code @ short)"

text \<open>The multi-byte sequences of UTF-8, by their first byte.\<close>

definition scan_utf8 :: "char \<Rightarrow> lexer \<Rightarrow> bool \<times> lexer" where
  "scan_utf8 c lx =
     (let b = byte_of c
      in if 0xC2 \<le> b \<and> b \<le> 0xDF then next_byte_in_range [(0x80, 0xBF)] c lx
         else if b = 0xE0 then next_byte_in_range [(0xA0, 0xBF), (0x80, 0xBF)] c lx
         else if (0xE1 \<le> b \<and> b \<le> 0xEC) \<or> b = 0xEE \<or> b = 0xEF
              then next_byte_in_range [(0x80, 0xBF), (0x80, 0xBF)] c lx
         else if b = 0xED then next_byte_in_range [(0x80, 0x9F), (0x80, 0xBF)] c lx
         else if b = 0xF0 then next_byte_in_range [(0x90, 0xBF), (0x80, 0xBF), (0x80, 0xBF)] c lx
         else if 0xF1 \<le> b \<and> b \<le> 0xF3
              then next_byte_in_range [(0x80, 0xBF), (0x80, 0xBF), (0x80, 0xBF)] c lx
         else if b = 0xF4 then next_byte_in_range [(0x80, 0x8F), (0x80, 0xBF), (0x80, 0xBF)] c lx
         else (False, lex_error ''invalid string: ill-formed UTF-8 byte'' lx))"

lemma codepoint_loop_left: "lex_left (snd (codepoint_loop fs cp lx)) \<le> lex_left lx"
proof (induction fs cp lx rule: codepoint_loop.induct)
  case (2 factor fs cp lx)
  then show ?case
    using lex_left_get_le [of lx] by (fastforce simp: Let_def split: option.splits)
qed simp

lemma ranges_loop_left: "lex_left (snd (ranges_loop rs lx)) \<le> lex_left lx"
proof (induction rs lx rule: ranges_loop.induct)
  case (2 lo hi rs lx)
  then show ?case
    using lex_left_get_le [of lx] by (fastforce simp: Let_def split: option.splits)
qed simp

lemma next_byte_in_range_left: "lex_left (snd (next_byte_in_range rs c lx)) \<le> lex_left lx"
  using ranges_loop_left [of rs "lex_add c lx"] by (simp add: next_byte_in_range_def)

lemma scan_utf8_left: "lex_left (snd (scan_utf8 c lx)) \<le> lex_left lx"
  by (simp add: scan_utf8_def next_byte_in_range_left Let_def)

lemma lex_left_add_all [simp]: "lex_left (lex_add_all s lx) = lex_left lx"
  by (simp add: lex_left_def lex_add_all_def)

lemma get_codepoint_leftI: "get_codepoint lx = (r, lx') \<Longrightarrow> lex_left lx \<le> n \<Longrightarrow> lex_left lx' \<le> n"
  using codepoint_loop_left [of "[12, 8, 4, 0]" 0 lx] by (simp add: get_codepoint_def)

lemma lex_left_getI: "lex_left lx \<le> n \<Longrightarrow> lex_left (lex_get lx) \<le> n"
  by (rule order_trans [OF lex_left_get_le])

lemma scan_unicode_escape_left: "lex_left (snd (scan_unicode_escape lx)) \<le> lex_left lx"
  by (auto 4 6 simp: scan_unicode_escape_def Let_def split: prod.splits option.splits
      intro: get_codepoint_leftI lex_left_getI)

lemma scan_escape_left: "lex_left (snd (scan_escape lx)) \<le> lex_left lx"
  using order_trans [OF scan_unicode_escape_left lex_left_get_le]
  by (simp add: scan_escape_def Let_def lex_left_get_le)

text \<open>The loop of \<open>scan_string\<close>, entered after the opening quote.\<close>

function scan_string_loop :: "lexer \<Rightarrow> token_type \<times> lexer" where
  "scan_string_loop lx =
     (case current (lex_get lx) of
        None \<Rightarrow> (ParseError, lex_error ''invalid string: missing closing quote'' (lex_get lx))
      | Some c \<Rightarrow>
          if c = quote then (ValueString, lex_get lx)
          else if c = backslash then
            (if fst (scan_escape (lex_get lx)) then scan_string_loop (snd (scan_escape (lex_get lx)))
             else (ParseError, snd (scan_escape (lex_get lx))))
          else if byte_of c \<le> 0x1F then (ParseError, lex_error (control_message (byte_of c)) (lex_get lx))
          else if byte_of c \<le> 0x7F then scan_string_loop (lex_add c (lex_get lx))
          else if fst (scan_utf8 c (lex_get lx)) then scan_string_loop (snd (scan_utf8 c (lex_get lx)))
          else (ParseError, snd (scan_utf8 c (lex_get lx))))"
  by pat_completeness auto
termination
proof (relation "measure lex_left")
  fix lx c
  assume c: "current (lex_get lx) = Some c"
  then have less: "lex_left (lex_get lx) < lex_left lx" by (rule lex_left_get_less)
  show "(lex_add c (lex_get lx), lx) \<in> measure lex_left"
    using less by simp
  show "(snd (scan_escape (lex_get lx)), lx) \<in> measure lex_left"
    using less scan_escape_left [of "lex_get lx"] by simp
  show "(snd (scan_utf8 c (lex_get lx)), lx) \<in> measure lex_left"
    using less scan_utf8_left [of c "lex_get lx"] by simp
qed simp

declare scan_string_loop.simps [simp del]

definition scan_string :: "lexer \<Rightarrow> token_type \<times> lexer" where
  "scan_string lx = scan_string_loop (lex_reset lx)"

end
