(* ===== verification/Json_Scanner.thy ===== *)
theory Json_Scanner imports Json_Lexer begin

text \<open>
  The rest of the lexer of \<open>common/json.hpp\<close>: the number scanner (its state machine of
  \<open>goto\<close>s has one function per label here), literals, white space, and \<open>scan\<close>, which reads one
  token.
\<close>

section \<open>Converting the digits read\<close>

definition is_digit :: "char \<Rightarrow> bool" where
  "is_digit c \<longleftrightarrow> 48 \<le> byte_of c \<and> byte_of c \<le> 57"

definition digit_value :: "char \<Rightarrow> int" where
  "digit_value c = int (byte_of c) - 48"

fun digits_value :: "int \<Rightarrow> string \<Rightarrow> int" where
  "digits_value acc [] = acc"
| "digits_value acc (c # cs) = digits_value (10 * acc + digit_value c) cs"

text \<open>\<open>strtoull\<close> and \<open>strtoll\<close> on a checked number; \<open>None\<close> is \<open>errno == ERANGE\<close>.\<close>

definition strtoull :: "string \<Rightarrow> int option" where
  "strtoull s = (let v = digits_value 0 s in if v \<le> 18446744073709551615 then Some v else None)"

definition strtoll :: "string \<Rightarrow> int option" where
  "strtoll s = (let v = - digits_value 0 (tl s) in if - 9223372036854775808 \<le> v then Some v else None)"

text \<open>\<open>strtod\<close> on \<open>[-]digits[.digits][e[+-]digits]\<close>: the decimal value, rounded to a double.\<close>

definition strtod :: "string \<Rightarrow> double" where
  "strtod s =
     (let neg = (s \<noteq> [] \<and> hd s = CHR ''-'');
          t = (if neg then tl s else s);
          ip = takeWhile is_digit t; t1 = dropWhile is_digit t;
          dot = (t1 \<noteq> [] \<and> hd t1 = CHR ''.'');
          fp = (if dot then takeWhile is_digit (tl t1) else []);
          t2 = (if dot then dropWhile is_digit (tl t1) else t1);
          ex = (if t2 = [] then 0
                else let u = tl t2
                     in if u \<noteq> [] \<and> hd u = CHR ''-'' then - digits_value 0 (tl u)
                        else if u \<noteq> [] \<and> hd u = CHR ''+'' then digits_value 0 (tl u)
                        else digits_value 0 u)
      in double_of_decimal neg (digits_value 0 (ip @ fp)) (ex - len fp))"

section \<open>The number scanner\<close>

definition scan_number_done :: "token_type \<Rightarrow> lexer \<Rightarrow> token_type \<times> lexer" where
  "scan_number_done number_type lx0 =
     (let lx = lex_unget lx0; as_float = (ValueFloat, lx\<lparr>value_float := strtod (token_buffer lx)\<rparr>)
      in if number_type = ValueUnsigned then
           (case strtoull (token_buffer lx) of
              Some x \<Rightarrow> (ValueUnsigned, lx\<lparr>value_unsigned := x\<rparr>)
            | None \<Rightarrow> as_float)
         else if number_type = ValueInteger then
           (case strtoll (token_buffer lx) of
              Some x \<Rightarrow> (ValueInteger, lx\<lparr>value_integer := x\<rparr>)
            | None \<Rightarrow> as_float)
         else as_float)"

function scan_number_any2 :: "token_type \<Rightarrow> lexer \<Rightarrow> token_type \<times> lexer" where
  "scan_number_any2 number_type lx =
     (case current (lex_get lx) of
        Some c \<Rightarrow> if is_digit c then scan_number_any2 number_type (lex_add c (lex_get lx))
                  else scan_number_done number_type (lex_get lx)
      | None \<Rightarrow> scan_number_done number_type (lex_get lx))"
  by pat_completeness auto
termination
  by (relation "measure (\<lambda>(t, lx). lex_left lx)") (auto dest: lex_left_get_less)

definition scan_number_sign :: "lexer \<Rightarrow> token_type \<times> lexer" where
  "scan_number_sign lx0 =
     (let lx = lex_get lx0
      in case current lx of
           Some c \<Rightarrow> if is_digit c then scan_number_any2 ValueFloat (lex_add c lx)
                     else (ParseError, lex_error ''invalid number; expected digit after exponent sign'' lx)
         | None \<Rightarrow> (ParseError, lex_error ''invalid number; expected digit after exponent sign'' lx))"

definition exponent_message :: string where
  "exponent_message =
     ''invalid number; expected '' @ [CHR 0x27] @ ''+'' @ [CHR 0x27] @ '', '' @
     [CHR 0x27] @ ''-'' @ [CHR 0x27] @ '', or digit after exponent''"

definition scan_number_exponent :: "lexer \<Rightarrow> token_type \<times> lexer" where
  "scan_number_exponent lx0 =
     (let lx = lex_get lx0
      in case current lx of
           Some c \<Rightarrow> if c = CHR ''+'' \<or> c = CHR ''-'' then scan_number_sign (lex_add c lx)
                     else if is_digit c then scan_number_any2 ValueFloat (lex_add c lx)
                     else (ParseError, lex_error exponent_message lx)
         | None \<Rightarrow> (ParseError, lex_error exponent_message lx))"

function scan_number_decimal2 :: "lexer \<Rightarrow> token_type \<times> lexer" where
  "scan_number_decimal2 lx =
     (case current (lex_get lx) of
        Some c \<Rightarrow> if is_digit c then scan_number_decimal2 (lex_add c (lex_get lx))
                  else if c = CHR ''e'' \<or> c = CHR ''E'' then scan_number_exponent (lex_add c (lex_get lx))
                  else scan_number_done ValueFloat (lex_get lx)
      | None \<Rightarrow> scan_number_done ValueFloat (lex_get lx))"
  by pat_completeness auto
termination
  by (relation "measure lex_left") (auto dest: lex_left_get_less)

definition decimal_message :: string where
  "decimal_message = ''invalid number; expected digit after '' @ [CHR 0x27] @ ''.'' @ [CHR 0x27]"

definition scan_number_decimal1 :: "lexer \<Rightarrow> token_type \<times> lexer" where
  "scan_number_decimal1 lx0 =
     (let lx = lex_get lx0
      in case current lx of
           Some c \<Rightarrow> if is_digit c then scan_number_decimal2 (lex_add c lx)
                     else (ParseError, lex_error decimal_message lx)
         | None \<Rightarrow> (ParseError, lex_error decimal_message lx))"

function scan_number_any1 :: "token_type \<Rightarrow> lexer \<Rightarrow> token_type \<times> lexer" where
  "scan_number_any1 number_type lx =
     (case current (lex_get lx) of
        Some c \<Rightarrow> if is_digit c then scan_number_any1 number_type (lex_add c (lex_get lx))
                  else if c = CHR ''.'' then scan_number_decimal1 (lex_add CHR ''.'' (lex_get lx))
                  else if c = CHR ''e'' \<or> c = CHR ''E'' then scan_number_exponent (lex_add c (lex_get lx))
                  else scan_number_done number_type (lex_get lx)
      | None \<Rightarrow> scan_number_done number_type (lex_get lx))"
  by pat_completeness auto
termination
  by (relation "measure (\<lambda>(t, lx). lex_left lx)") (auto dest: lex_left_get_less)

declare scan_number_any1.simps [simp del] scan_number_any2.simps [simp del] scan_number_decimal2.simps [simp del]

definition scan_number_zero :: "token_type \<Rightarrow> lexer \<Rightarrow> token_type \<times> lexer" where
  "scan_number_zero number_type lx0 =
     (let lx = lex_get lx0
      in case current lx of
           Some c \<Rightarrow> if c = CHR ''.'' then scan_number_decimal1 (lex_add CHR ''.'' lx)
                     else if c = CHR ''e'' \<or> c = CHR ''E'' then scan_number_exponent (lex_add c lx)
                     else scan_number_done number_type lx
         | None \<Rightarrow> scan_number_done number_type lx)"

definition minus_message :: string where
  "minus_message = ''invalid number; expected digit after '' @ [CHR 0x27] @ ''-'' @ [CHR 0x27]"

definition scan_number_minus :: "lexer \<Rightarrow> token_type \<times> lexer" where
  "scan_number_minus lx0 =
     (let lx = lex_get lx0
      in case current lx of
           Some c \<Rightarrow> if c = CHR ''0'' then scan_number_zero ValueInteger (lex_add c lx)
                     else if is_digit c then scan_number_any1 ValueInteger (lex_add c lx)
                     else (ParseError, lex_error minus_message lx)
         | None \<Rightarrow> (ParseError, lex_error minus_message lx))"

text \<open>\<open>scan_number\<close>, called on a current character that is \<open>-\<close> or a digit.\<close>

definition scan_number :: "char \<Rightarrow> lexer \<Rightarrow> token_type \<times> lexer" where
  "scan_number c lx =
     (let lx1 = lex_add c (lex_reset lx)
      in if c = CHR ''-'' then scan_number_minus lx1
         else if c = CHR ''0'' then scan_number_zero ValueUnsigned lx1
         else scan_number_any1 ValueUnsigned lx1)"

section \<open>Tokens\<close>

text \<open>\<open>scan_literal\<close> compares the characters after the first.\<close>

fun scan_literal :: "string \<Rightarrow> token_type \<Rightarrow> lexer \<Rightarrow> token_type \<times> lexer" where
  "scan_literal [] return_type lx = (return_type, lx)"
| "scan_literal (c # cs) return_type lx =
     (let lx' = lex_get lx
      in if current lx' \<noteq> Some c then (ParseError, lex_error ''invalid literal'' lx')
         else scan_literal cs return_type lx')"

definition skip_bom :: "lexer \<Rightarrow> bool \<times> lexer" where
  "skip_bom lx =
     (let lx1 = lex_get lx
      in if current lx1 = Some CHR 0xEF then
           (let lx2 = lex_get lx1
            in if current lx2 = Some CHR 0xBB then
                 (let lx3 = lex_get lx2 in (current lx3 = Some CHR 0xBF, lx3))
               else (False, lx2))
         else (True, lex_unget lx1))"

definition is_space :: "char option \<Rightarrow> bool" where
  "is_space c \<longleftrightarrow> c \<in> {Some CHR '' '', Some CHR 0x09, Some CHR 0x0A, Some CHR 0x0D}"

function skip_whitespace :: "lexer \<Rightarrow> lexer" where
  "skip_whitespace lx = (if is_space (current (lex_get lx)) then skip_whitespace (lex_get lx) else lex_get lx)"
  by pat_completeness auto
termination
  by (relation "measure lex_left") (auto simp: is_space_def dest: lex_left_get_less)

declare skip_whitespace.simps [simp del]

definition scan_token :: "lexer \<Rightarrow> token_type \<times> lexer" where
  "scan_token lx =
     (case current lx of
        None \<Rightarrow> (EndOfInput, lx)
      | Some c \<Rightarrow>
          if c = CHR ''['' then (BeginArray, lx)
          else if c = CHR '']'' then (EndArray, lx)
          else if c = CHR ''{'' then (BeginObject, lx)
          else if c = CHR ''}'' then (EndObject, lx)
          else if c = CHR '':'' then (NameSeparator, lx)
          else if c = CHR '','' then (ValueSeparator, lx)
          else if c = CHR ''t'' then scan_literal ''rue'' LiteralTrue lx
          else if c = CHR ''f'' then scan_literal ''alse'' LiteralFalse lx
          else if c = CHR ''n'' then scan_literal ''ull'' LiteralNull lx
          else if c = quote then scan_string lx
          else if c = CHR ''-'' \<or> is_digit c then scan_number c lx
          else if byte_of c = 0 then (EndOfInput, lx)
          else (ParseError, lex_error ''invalid literal'' lx))"

definition bom_message :: string where
  "bom_message = ''invalid BOM; must be 0xEF 0xBB 0xBF if given''"

definition scan :: "lexer \<Rightarrow> token_type \<times> lexer" where
  "scan lx =
     (let (ok, lx1) = (if chars_read_total (position lx) = 0 then skip_bom lx else (True, lx))
      in if \<not> ok then (ParseError, lex_error bom_message lx1) else scan_token (skip_whitespace lx1))"

definition escape_control :: "char \<Rightarrow> string" where
  "escape_control c =
     (if byte_of c \<le> 0x1F then ''<U+00'' @ hex_bytes (byte_of c) @ ''>'' else [c])"

definition get_token_string :: "lexer \<Rightarrow> string" where
  "get_token_string lx = concat (map escape_control (token_string lx))"

end
