(* ===== verification/Json_Parser.thy ===== *)
theory Json_Parser imports Json_Scanner begin

text \<open>
  The parser of \<open>common/json.hpp\<close> (class \<open>parser\<close> with \<open>json_sax_dom_parser\<close>, which builds the
  value): one look-ahead token, an explicit stack instead of recursion, and the error
  messages. The code's \<open>states\<close> (a vector of booleans) and \<open>ref_stack\<close> (the containers that
  are open) grow and shrink together, so one list of frames stands for both; the value that
  \<open>object_element\<close> points to is the key of the frame.
\<close>

section \<open>State\<close>

record parser =
  last_token :: token_type
  m_lexer :: lexer

datatype frame = FArray "json list" | FObject entries string

definition get_token :: "parser \<Rightarrow> parser" where
  "get_token p = (let (t, lx) = scan (m_lexer p) in \<lparr>last_token = t, m_lexer = lx\<rparr>)"

definition parser_new :: "string \<Rightarrow> parser" where
  "parser_new s = get_token \<lparr>last_token = TUninitialized, m_lexer = lexer_new s\<rparr>"

section \<open>Error messages\<close>

definition position_string :: "lex_position \<Rightarrow> string" where
  "position_string pos =
     '' at line '' @ nat_digits (lines_read pos + 1) @ '', column '' @ nat_digits (chars_read_current_line pos)"

definition parse_error_create :: "nat \<Rightarrow> lex_position \<Rightarrow> string \<Rightarrow> exn" where
  "parse_error_create i pos what =
     JsonException i (exception_name ''parse_error'' i @ ''parse error'' @ position_string pos @ '': '' @ what)"

definition out_of_range_create :: "nat \<Rightarrow> string \<Rightarrow> exn" where
  "out_of_range_create i what = JsonException i (exception_name ''out_of_range'' i @ what)"

definition exception_message :: "parser \<Rightarrow> token_type \<Rightarrow> string \<Rightarrow> string" where
  "exception_message p expected ctxt =
     ''syntax error '' @ (if ctxt = [] then [] else ''while parsing '' @ ctxt @ '' '') @ ''- '' @
     (if last_token p = ParseError
      then error_message (m_lexer p) @ ''; last read: '' @ [CHR 0x27] @ get_token_string (m_lexer p) @ [CHR 0x27]
      else ''unexpected '' @ token_type_name (last_token p)) @
     (if expected = TUninitialized then [] else ''; expected '' @ token_type_name expected)"

definition syntax_error :: "parser \<Rightarrow> token_type \<Rightarrow> string \<Rightarrow> exn" where
  "syntax_error p expected ctxt =
     parse_error_create 101 (position (m_lexer p)) (exception_message p expected ctxt)"

definition empty_input_error :: "parser \<Rightarrow> exn" where
  "empty_input_error p =
     parse_error_create 101 (position (m_lexer p))
       ''attempting to parse an empty input; check that your input string or stream contains the expected JSON''"

definition overflow_error :: "parser \<Rightarrow> exn" where
  "overflow_error p =
     out_of_range_create 406 (''number overflow parsing '' @ [CHR 0x27] @ get_token_string (m_lexer p) @ [CHR 0x27])"

section \<open>The loop\<close>

text \<open>
  What one part of the loop leads to: a finished value (control goes to the state
  evaluation), another iteration with the frames changed, the end, or a thrown error.
\<close>

datatype progress =
    PValue json parser
  | PNext parser "frame list"
  | PDone json parser
  | PError exn parser

text \<open>The key and the separator of a member, and the first token of its value.\<close>

definition sax_member :: "entries \<Rightarrow> frame list \<Rightarrow> parser \<Rightarrow> progress" where
  "sax_member kvs fs p =
     (if last_token p \<noteq> ValueString then PError (syntax_error p ValueString ''object key'') p
      else let p1 = get_token p
           in if last_token p1 \<noteq> NameSeparator
              then PError (syntax_error p1 NameSeparator ''object separator'') p1
              else PNext (get_token p1) (FObject kvs (token_buffer (m_lexer p)) # fs))"

text \<open>The \<open>switch\<close> on the last token.\<close>

definition sax_value :: "parser \<Rightarrow> frame list \<Rightarrow> progress" where
  "sax_value p fs =
     (case last_token p of
        BeginObject \<Rightarrow>
          (let p1 = get_token p
           in if last_token p1 = EndObject then PValue (JObject []) p1 else sax_member [] fs p1)
      | BeginArray \<Rightarrow>
          (let p1 = get_token p
           in if last_token p1 = EndArray then PValue (JArray []) p1 else PNext p1 (FArray [] # fs))
      | ValueFloat \<Rightarrow>
          if double_isfinite (value_float (m_lexer p)) then PValue (JFloat (value_float (m_lexer p))) p
          else PError (overflow_error p) p
      | LiteralFalse \<Rightarrow> PValue (JBoolean False) p
      | LiteralNull \<Rightarrow> PValue JNull p
      | LiteralTrue \<Rightarrow> PValue (JBoolean True) p
      | ValueInteger \<Rightarrow> PValue (JInteger (value_integer (m_lexer p))) p
      | ValueString \<Rightarrow> PValue (JString (token_buffer (m_lexer p))) p
      | ValueUnsigned \<Rightarrow> PValue (JUnsigned (value_unsigned (m_lexer p))) p
      | ParseError \<Rightarrow> PError (syntax_error p TUninitialized ''value'') p
      | EndOfInput \<Rightarrow>
          if chars_read_total (position (m_lexer p)) = 1 then PError (empty_input_error p) p
          else PError (syntax_error p LiteralOrValue ''value'') p
      | _ \<Rightarrow> PError (syntax_error p LiteralOrValue ''value'') p)"

text \<open>The state evaluation, once a value is there; closing a container evaluates the next frame.\<close>

fun sax_up :: "json \<Rightarrow> parser \<Rightarrow> frame list \<Rightarrow> progress" where
  "sax_up j p [] = PDone j p"
| "sax_up j p (FArray js # fs) =
     (let p1 = get_token p
      in if last_token p1 = ValueSeparator then PNext (get_token p1) (FArray (js @ [j]) # fs)
         else if last_token p1 = EndArray then sax_up (JArray (js @ [j])) p1 fs
         else PError (syntax_error p1 EndArray ''array'') p1)"
| "sax_up j p (FObject kvs k # fs) =
     (let p1 = get_token p
      in if last_token p1 = ValueSeparator then sax_member (obj_assign k j kvs) fs (get_token p1)
         else if last_token p1 = EndObject then sax_up (JObject (obj_assign k j kvs)) p1 fs
         else PError (syntax_error p1 EndObject ''object'') p1)"

definition sax_step :: "parser \<Rightarrow> frame list \<Rightarrow> progress" where
  "sax_step p fs = (case sax_value p fs of PValue j p' \<Rightarrow> sax_up j p' fs | r \<Rightarrow> r)"

section \<open>Scanning consumes input\<close>

lemma lex_left_unget_get: "lex_left (lex_unget (lex_get lx)) \<le> lex_left lx"
  by (auto simp: lex_left_def lex_get_def lex_read_def lex_unget_def Let_def split: list.splits)

lemma lex_left_update [simp]:
  "lex_left (lx\<lparr>value_float := d\<rparr>) = lex_left lx"
  "lex_left (lx\<lparr>value_unsigned := i\<rparr>) = lex_left lx"
  "lex_left (lx\<lparr>value_integer := i\<rparr>) = lex_left lx"
  by (simp_all add: lex_left_def)

lemma scan_number_done_left: "lex_left (snd (scan_number_done t (lex_get lx))) \<le> lex_left lx"
  using lex_left_unget_get [of lx] by (simp add: scan_number_done_def Let_def split: option.splits)

lemma scan_number_any2_left: "lex_left (snd (scan_number_any2 t lx)) \<le> lex_left lx"
proof (induction t lx rule: scan_number_any2.induct)
  case (1 t lx)
  then show ?case
    using scan_number_done_left [of t lx] lex_left_get_le [of lx]
    by (subst scan_number_any2.simps) (fastforce split: option.splits)
qed

lemma scan_number_sign_left: "lex_left (snd (scan_number_sign lx)) \<le> lex_left lx"
  using scan_number_any2_left [of ValueFloat "lex_add c (lex_get lx)" for c] lex_left_get_le [of lx]
  by (auto simp: scan_number_sign_def Let_def intro: order_trans split: option.splits)

lemma scan_number_exponent_left: "lex_left (snd (scan_number_exponent lx)) \<le> lex_left lx"
  using scan_number_any2_left [of ValueFloat "lex_add c (lex_get lx)" for c] lex_left_get_le [of lx]
    scan_number_sign_left [of "lex_add c (lex_get lx)" for c]
  by (auto simp: scan_number_exponent_def Let_def intro: order_trans split: option.splits)

lemma scan_number_decimal2_left: "lex_left (snd (scan_number_decimal2 lx)) \<le> lex_left lx"
proof (induction lx rule: scan_number_decimal2.induct)
  case (1 lx)
  then show ?case
    using scan_number_done_left [of ValueFloat lx] lex_left_get_le [of lx]
      scan_number_exponent_left [of "lex_add c (lex_get lx)" for c]
    by (subst scan_number_decimal2.simps) (fastforce intro: order_trans split: option.splits)
qed

lemma scan_number_decimal1_left: "lex_left (snd (scan_number_decimal1 lx)) \<le> lex_left lx"
  using scan_number_decimal2_left [of "lex_add c (lex_get lx)" for c] lex_left_get_le [of lx]
  by (auto simp: scan_number_decimal1_def Let_def intro: order_trans split: option.splits)

lemma scan_number_any1_left: "lex_left (snd (scan_number_any1 t lx)) \<le> lex_left lx"
proof (induction t lx rule: scan_number_any1.induct)
  case (1 t lx)
  then show ?case
    using scan_number_done_left [of t lx] lex_left_get_le [of lx]
      scan_number_exponent_left [of "lex_add c (lex_get lx)" for c]
      scan_number_decimal1_left [of "lex_add c (lex_get lx)" for c]
    by (subst scan_number_any1.simps) (fastforce intro: order_trans split: option.splits)
qed

lemma scan_number_zero_left: "lex_left (snd (scan_number_zero t lx)) \<le> lex_left lx"
  using scan_number_done_left [of t lx] lex_left_get_le [of lx]
    scan_number_exponent_left [of "lex_add c (lex_get lx)" for c]
    scan_number_decimal1_left [of "lex_add c (lex_get lx)" for c]
  by (auto simp: scan_number_zero_def Let_def intro: order_trans split: option.splits)

lemma scan_number_minus_left: "lex_left (snd (scan_number_minus lx)) \<le> lex_left lx"
  using lex_left_get_le [of lx]
    scan_number_any1_left [of ValueInteger "lex_add c (lex_get lx)" for c]
    scan_number_zero_left [of ValueInteger "lex_add c (lex_get lx)" for c]
  by (auto simp: scan_number_minus_def Let_def intro: order_trans split: option.splits)

lemma scan_number_left: "lex_left (snd (scan_number c lx)) \<le> lex_left lx"
  using scan_number_any1_left [of ValueUnsigned "lex_add c (lex_reset lx)"]
    scan_number_zero_left [of ValueUnsigned "lex_add c (lex_reset lx)"]
    scan_number_minus_left [of "lex_add c (lex_reset lx)"]
  by (auto simp: scan_number_def Let_def)

lemma scan_literal_left: "lex_left (snd (scan_literal cs t lx)) \<le> lex_left lx"
proof (induction cs t lx rule: scan_literal.induct)
  case (2 c cs t lx)
  then show ?case
    using lex_left_get_le [of lx] by (auto simp: Let_def intro: order_trans)
qed simp

lemma scan_string_loop_left: "lex_left (snd (scan_string_loop lx)) \<le> lex_left lx"
proof (induction lx rule: scan_string_loop.induct)
  case (1 lx)
  then show ?case
    using lex_left_get_le [of lx] scan_escape_left [of "lex_get lx"] scan_utf8_left [of c "lex_get lx" for c]
    by (subst scan_string_loop.simps) (fastforce intro: order_trans split: option.splits)
qed

lemma scan_token_left: "lex_left (snd (scan_token lx)) \<le> lex_left lx"
  using scan_string_loop_left [of "lex_reset lx"]
  by (simp add: scan_token_def scan_string_def scan_literal_left scan_number_left
      del: scan_literal.simps split: option.split)

lemma scan_token_eof: "current lx = None \<Longrightarrow> scan_token lx = (EndOfInput, lx)"
  by (simp add: scan_token_def)

lemma skip_whitespace_left:
  "lex_left (skip_whitespace lx) \<le> lex_left lx \<and>
   (current (skip_whitespace lx) \<noteq> None \<longrightarrow> lex_left (skip_whitespace lx) < lex_left lx)"
proof (induction lx rule: skip_whitespace.induct)
  case (1 lx)
  show ?case
  proof (cases "is_space (current (lex_get lx))")
    case True
    with 1 show ?thesis
      using lex_left_get_le [of lx] by (subst (1 2 3) skip_whitespace.simps) auto
  next
    case False
    then show ?thesis
      using lex_left_get_le [of lx] lex_left_get_less [of lx] by (subst (1 2 3) skip_whitespace.simps) auto
  qed
qed

lemma skip_bom_left:
  assumes "skip_bom lx = (ok, lx')"
  shows "lex_left lx' \<le> lex_left lx" and "\<not> ok \<Longrightarrow> lex_left lx' < lex_left lx"
  using assms lex_left_get_le [of lx] lex_left_get_less [of lx] lex_left_get_le [of "lex_get lx"]
    lex_left_get_le [of "lex_get (lex_get lx)"] lex_left_unget_get [of lx]
  by (auto simp: skip_bom_def Let_def split: if_splits)

lemma scan_left:
  "lex_left (snd (scan lx)) \<le> lex_left lx \<and>
   (fst (scan lx) \<noteq> EndOfInput \<longrightarrow> lex_left (snd (scan lx)) < lex_left lx)"
proof -
  obtain ok lx1 where b: "(if chars_read_total (position lx) = 0 then skip_bom lx else (True, lx)) = (ok, lx1)"
    by force
  then have le: "lex_left lx1 \<le> lex_left lx" and less: "\<not> ok \<Longrightarrow> lex_left lx1 < lex_left lx"
    by (auto split: if_splits dest: skip_bom_left)
  show ?thesis
    using b le less skip_whitespace_left [of lx1] scan_token_left [of "skip_whitespace lx1"]
      scan_token_eof [of "skip_whitespace lx1"]
    by (cases "current (skip_whitespace lx1)") (auto simp: scan_def Let_def)
qed

text \<open>
  What is left to parse: the input left, and whether its end was already seen. Reading a
  token lowers it, except at the end of the input.
\<close>

definition parser_left :: "parser \<Rightarrow> nat" where
  "parser_left p = lex_left (m_lexer p) + (if last_token p = EndOfInput then 0 else 1)"

lemma get_token_left: "last_token p \<noteq> EndOfInput \<Longrightarrow> parser_left (get_token p) < parser_left p"
  using scan_left [of "m_lexer p"] by (auto simp: parser_left_def get_token_def split: prod.splits)

lemma sax_member_left:
  assumes "sax_member kvs fs p = PNext p' fs'"
  shows "parser_left p' < parser_left p"
proof -
  have "last_token p \<noteq> EndOfInput" "last_token (get_token p) \<noteq> EndOfInput" "p' = get_token (get_token p)"
    using assms by (auto simp: sax_member_def Let_def split: if_splits)
  then show ?thesis using get_token_left [of p] get_token_left [of "get_token p"] by simp
qed

lemma sax_up_left:
  "sax_up j p fs = PNext p' fs' \<Longrightarrow> last_token p \<noteq> EndOfInput \<Longrightarrow> parser_left p' < parser_left p"
proof (induction j p fs rule: sax_up.induct)
  case (2 j p js fs)
  then show ?case
    using get_token_left [of p] get_token_left [of "get_token p"]
    by (fastforce simp: Let_def split: if_splits)
next
  case (3 j p kvs k fs)
  then show ?case
    using get_token_left [of p] get_token_left [of "get_token p"]
      sax_member_left [of "obj_assign k j kvs" fs "get_token (get_token p)" p' fs']
    by (fastforce simp: Let_def split: if_splits)
qed simp

lemma sax_value_left:
  "sax_value p fs = PNext p' fs' \<Longrightarrow> parser_left p' < parser_left p"
  "sax_value p fs = PValue j p' \<Longrightarrow> parser_left p' \<le> parser_left p \<and> last_token p' \<noteq> EndOfInput"
proof -
  show "sax_value p fs = PNext p' fs' \<Longrightarrow> parser_left p' < parser_left p"
    using get_token_left [of p] sax_member_left [of "[]" fs "get_token p" p' fs']
    by (auto simp: sax_value_def Let_def split: token_type.splits if_splits)
  show "sax_value p fs = PValue j p' \<Longrightarrow> parser_left p' \<le> parser_left p \<and> last_token p' \<noteq> EndOfInput"
    using get_token_left [of p]
    by (cases "last_token p") (auto simp: sax_value_def sax_member_def Let_def split: if_splits)
qed

lemma sax_step_left: "sax_step p fs = PNext p' fs' \<Longrightarrow> parser_left p' < parser_left p"
  using sax_value_left [of p fs] sax_up_left
  by (fastforce simp: sax_step_def split: progress.splits)

section \<open>Parsing\<close>

text \<open>\<open>sax_parse_internal\<close>: its \<open>while (true)\<close> ends because every iteration reads a token.\<close>

function sax_parse :: "parser \<Rightarrow> frame list \<Rightarrow> json outcome \<times> parser" where
  "sax_parse p fs =
     (case sax_step p fs of
        PNext p' fs' \<Rightarrow> sax_parse p' fs'
      | PDone j p' \<Rightarrow> (Ok j, p')
      | PError e p' \<Rightarrow> (Throw e, p')
      | PValue j p' \<Rightarrow> (Abort, p'))"
  by pat_completeness auto
termination
  by (relation "measure (\<lambda>(p, fs). parser_left p)") (auto dest: sax_step_left)

declare sax_parse.simps [simp del]

text \<open>\<open>json::parse\<close>: strict, with exceptions, without a callback.\<close>

definition json_parse :: "string \<Rightarrow> json outcome" where
  "json_parse s =
     (case sax_parse (parser_new s) [] of
        (Ok j, p) \<Rightarrow>
          (let p1 = get_token p
           in if last_token p1 \<noteq> EndOfInput then Throw (syntax_error p1 EndOfInput ''value'') else Ok j)
      | (r, p) \<Rightarrow> r)"

end
