(* ===== verification/Json_View.thy ===== *)
theory Json_View imports Json_Parser begin

text \<open>
  The lexer seen from outside: the characters still to come. \<open>lex_get\<close> takes the first of
  them, \<open>lex_unget\<close> after it puts it back, and white space is dropped, whatever the push-back
  flag and the position counters do meanwhile.
\<close>

definition lex_rest :: "lexer \<Rightarrow> string" where
  "lex_rest lx = (if next_unget lx then (case current lx of Some c \<Rightarrow> c # input lx | None \<Rightarrow> []) else input lx)"

text \<open>Once the end of the input was read there is nothing behind it.\<close>

definition lex_ok :: "lexer \<Rightarrow> bool" where
  "lex_ok lx \<longleftrightarrow> (next_unget lx \<and> current lx = None \<longrightarrow> input lx = [])"

definition first :: "'a list \<Rightarrow> 'a option" where
  "first xs = (case xs of [] \<Rightarrow> None | x # _ \<Rightarrow> Some x)"

lemma first_simps [simp]: "first [] = None" "first (x # xs) = Some x"
  by (simp_all add: first_def)

lemma lex_view_new [simp]: "lex_rest (lexer_new s) = s" "lex_ok (lexer_new s)"
  by (simp_all add: lex_rest_def lex_ok_def lexer_new_def)

lemma lex_view_simps [simp]:
  "lex_rest (lex_add c lx) = lex_rest lx" "lex_ok (lex_add c lx) = lex_ok lx"
  "lex_rest (lex_add_all s lx) = lex_rest lx" "lex_ok (lex_add_all s lx) = lex_ok lx"
  "lex_rest (lex_reset lx) = lex_rest lx" "lex_ok (lex_reset lx) = lex_ok lx"
  "lex_rest (lex_error m lx) = lex_rest lx" "lex_ok (lex_error m lx) = lex_ok lx"
  "lex_rest (lx\<lparr>value_float := d\<rparr>) = lex_rest lx" "lex_ok (lx\<lparr>value_float := d\<rparr>) = lex_ok lx"
  "lex_rest (lx\<lparr>value_unsigned := i\<rparr>) = lex_rest lx" "lex_ok (lx\<lparr>value_unsigned := i\<rparr>) = lex_ok lx"
  "lex_rest (lx\<lparr>value_integer := i\<rparr>) = lex_rest lx" "lex_ok (lx\<lparr>value_integer := i\<rparr>) = lex_ok lx"
  by (simp_all add: lex_rest_def lex_ok_def lex_add_def lex_add_all_def lex_reset_def lex_error_def
      split: option.split)

lemma current_get: "lex_ok lx \<Longrightarrow> current (lex_get lx) = first (lex_rest lx)"
  by (auto simp: lex_ok_def lex_rest_def lex_get_def lex_read_def Let_def split: list.split option.splits)

lemma rest_get: "lex_ok lx \<Longrightarrow> lex_rest (lex_get lx) = tl (lex_rest lx)"
  by (auto simp: lex_ok_def lex_rest_def lex_get_def lex_read_def Let_def split: list.split option.splits)

lemma ok_get: "lex_ok (lex_get lx)"
  by (auto simp: lex_ok_def lex_get_def lex_read_def Let_def split: list.split)

lemma rest_unget: "lex_ok lx \<Longrightarrow> lex_rest (lex_unget (lex_get lx)) = lex_rest lx"
  by (auto simp: lex_ok_def lex_rest_def lex_get_def lex_read_def lex_unget_def Let_def
      split: list.split option.splits)

lemma ok_unget: "lex_ok lx \<Longrightarrow> lex_ok (lex_unget (lex_get lx))"
  by (auto simp: lex_ok_def lex_get_def lex_read_def lex_unget_def Let_def split: list.split)

lemma buffer_get [simp]: "token_buffer (lex_get lx) = token_buffer lx"
  by (auto simp: lex_get_def lex_read_def Let_def split: list.split)

lemma buffer_simps [simp]:
  "token_buffer (lex_add c lx) = token_buffer lx @ [c]"
  "token_buffer (lex_add_all s lx) = token_buffer lx @ s"
  "token_buffer (lex_reset lx) = []"
  "token_buffer (lex_unget lx) = token_buffer lx"
  by (simp_all add: lex_add_def lex_add_all_def lex_reset_def lex_unget_def)

lemmas lex_view = current_get rest_get ok_get rest_unget ok_unget

section \<open>White space and the first token\<close>

definition json_space :: "char \<Rightarrow> bool" where
  "json_space c \<longleftrightarrow> is_space (Some c)"

lemma skip_whitespace_view:
  assumes "lex_ok lx"
  shows "current (skip_whitespace lx) = first (dropWhile json_space (lex_rest lx)) \<and>
    lex_rest (skip_whitespace lx) = tl (dropWhile json_space (lex_rest lx)) \<and>
    lex_ok (skip_whitespace lx)"
  using assms
proof (induction lx rule: skip_whitespace.induct)
  case (1 lx)
  have rest: "lex_rest (lex_get lx) = tl (lex_rest lx)" and cur: "current (lex_get lx) = first (lex_rest lx)"
    using 1(2) by (simp_all add: lex_view)
  show ?case
  proof (cases "is_space (current (lex_get lx))")
    case True
    then obtain c cs where "lex_rest lx = c # cs" "json_space c"
      using cur by (cases "lex_rest lx") (auto simp: is_space_def json_space_def)
    moreover have "skip_whitespace lx = skip_whitespace (lex_get lx)"
      using True by (simp add: skip_whitespace.simps [of lx])
    ultimately show ?thesis using 1(1) [OF True ok_get] rest by simp
  next
    case False
    then have "dropWhile json_space (lex_rest lx) = lex_rest lx"
      using cur by (cases "lex_rest lx") (auto simp: json_space_def)
    moreover have "skip_whitespace lx = lex_get lx"
      using False by (simp add: skip_whitespace.simps [of lx])
    ultimately show ?thesis using rest cur ok_get by simp
  qed
qed

lemma skip_bom_view:
  assumes "lex_ok lx" "first (lex_rest lx) \<noteq> Some CHR 0xEF"
  shows "fst (skip_bom lx)" "lex_rest (snd (skip_bom lx)) = lex_rest lx" "lex_ok (snd (skip_bom lx))"
  using assms by (simp_all add: skip_bom_def Let_def lex_view)

text \<open>
  \<open>scan\<close> sees the first character that is not white space, with the rest behind it. A byte
  order mark can only be at the very start.
\<close>

lemma scan_view:
  assumes "lex_ok lx" "first (lex_rest lx) \<noteq> Some CHR 0xEF"
  obtains lx' where "scan lx = scan_token lx'"
    "current lx' = first (dropWhile json_space (lex_rest lx))"
    "lex_rest lx' = tl (dropWhile json_space (lex_rest lx))" "lex_ok lx'"
proof -
  obtain lx1 where "(if chars_read_total (position lx) = 0 then skip_bom lx else (True, lx)) = (True, lx1)"
    and 1: "lex_rest lx1 = lex_rest lx" "lex_ok lx1"
    using skip_bom_view [OF assms] assms(1) by (metis prod.collapse)
  then have "scan lx = scan_token (skip_whitespace lx1)"
    by (simp add: scan_def)
  then show ?thesis
    using that [of "skip_whitespace lx1"] skip_whitespace_view [OF 1(2)] 1(1) by simp
qed

text \<open>A text whose first visible character starts no JSON token is rejected.\<close>

definition starts_token :: "char \<Rightarrow> bool" where
  "starts_token c \<longleftrightarrow>
     c \<in> {CHR ''['', CHR '']'', CHR ''{'', CHR ''}'', CHR '':'', CHR '','', CHR ''t'', CHR ''f'', CHR ''n'',
           quote, CHR ''-'', CHR 0x00} \<or> is_digit c"

lemma byte_of_eq_0: "byte_of c = 0 \<longleftrightarrow> c = CHR 0x00"
proof -
  have "byte_of c = byte_of CHR 0x00 \<longleftrightarrow> c = CHR 0x00" unfolding byte_of_def by (rule of_char_eq_iff)
  then show ?thesis by (simp add: byte_of_def)
qed

lemma scan_token_error: "current lx = Some c \<Longrightarrow> \<not> starts_token c \<Longrightarrow> fst (scan_token lx) = ParseError"
  by (auto simp: scan_token_def starts_token_def byte_of_eq_0)

lemma sax_parse_error:
  "last_token p = ParseError \<Longrightarrow> fst (sax_parse p fs) = Throw (syntax_error p TUninitialized ''value'')"
  by (subst sax_parse.simps) (simp add: sax_step_def sax_value_def)

lemma json_parse_error:
  assumes "fst (scan (lexer_new s)) = ParseError"
  shows "\<exists>w. json_parse s = Throw (JsonException 101 w)"
proof -
  have "last_token (parser_new s) = ParseError"
    using assms by (auto simp: parser_new_def get_token_def split: prod.split)
  then have "fst (sax_parse (parser_new s) []) = Throw (syntax_error (parser_new s) TUninitialized ''value'')"
    by (rule sax_parse_error)
  then show ?thesis
    by (auto simp: json_parse_def syntax_error_def parse_error_create_def split: prod.split)
qed

lemma json_parse_no_token:
  assumes "s \<noteq> []" "hd s \<noteq> CHR 0xEF" "dropWhile json_space s = c # cs" "\<not> starts_token c"
  shows "\<exists>w. json_parse s = Throw (JsonException 101 w)"
proof -
  have "first (lex_rest (lexer_new s)) \<noteq> Some CHR 0xEF"
    using assms(1,2) by (cases s) auto
  then obtain lx' where "scan (lexer_new s) = scan_token lx'" "current lx' = Some c"
    using scan_view [of "lexer_new s"] assms(3) by (metis first_simps(2) lex_view_new)
  then show ?thesis using json_parse_error scan_token_error assms(4) by metis
qed

section \<open>What parsing can lead to\<close>

text \<open>The parser ends with a value or with an exception of the JSON library, never otherwise.\<close>

lemma sax_member_progress: "sax_member kvs fs p \<noteq> PValue j p'"
  by (simp add: sax_member_def Let_def)

lemma sax_up_progress: "sax_up j p fs \<noteq> PValue j' p'"
  by (induction j p fs rule: sax_up.induct) (simp_all add: Let_def sax_member_progress)

lemma sax_step_progress: "sax_step p fs \<noteq> PValue j p'"
  by (simp add: sax_step_def sax_up_progress split: progress.split)

definition json_exn :: "exn \<Rightarrow> bool" where
  "json_exn e \<longleftrightarrow> (case e of JsonException i w \<Rightarrow> True | StdException w \<Rightarrow> False)"

lemma json_exn_simps [simp]: "json_exn (JsonException i w)" "\<not> json_exn (StdException w)"
  by (simp_all add: json_exn_def)

lemma json_exn_errors [simp]:
  "json_exn (syntax_error p t s)" "json_exn (empty_input_error p)" "json_exn (overflow_error p)"
  "json_exn (type_error i w)" "json_exn (index_error j)" "json_exn (number_error j)"
  by (simp_all add: syntax_error_def empty_input_error_def overflow_error_def parse_error_create_def
      out_of_range_create_def type_error_def index_error_def number_error_def)

lemma sax_member_exn: "sax_member kvs fs p = PError e p' \<Longrightarrow> json_exn e"
  by (auto simp: sax_member_def Let_def split: if_splits)

lemma sax_up_exn: "sax_up j p fs = PError e p' \<Longrightarrow> json_exn e"
  by (induction j p fs rule: sax_up.induct) (auto simp: Let_def sax_member_exn split: if_splits)

lemma sax_value_exn: "sax_value p fs = PError e p' \<Longrightarrow> json_exn e"
  by (auto simp: sax_value_def Let_def sax_member_exn split: token_type.splits if_splits)

lemma sax_step_exn: "sax_step p fs = PError e p' \<Longrightarrow> json_exn e"
  by (auto simp: sax_step_def sax_up_exn dest: sax_value_exn split: progress.splits)

lemma sax_parse_result:
  "(\<exists>j p'. sax_parse p fs = (Ok j, p')) \<or> (\<exists>e p'. sax_parse p fs = (Throw e, p') \<and> json_exn e)"
proof (induction p fs rule: sax_parse.induct)
  case (1 p fs)
  then show ?case
    using sax_step_progress [of p fs] sax_step_exn [of p fs]
    by (subst (1 2) sax_parse.simps) (auto split: progress.split)
qed

lemma json_parse_result: "(\<exists>j. json_parse s = Ok j) \<or> (\<exists>e. json_parse s = Throw e \<and> json_exn e)"
  using sax_parse_result [of "parser_new s" "[]"]
  by (cases "sax_parse (parser_new s) []") (auto simp: json_parse_def Let_def split: if_splits)

end
