(* ===== verification/State_Machine.thy ===== *)
theory State_Machine imports Json_View begin

text \<open>
  The replicated state machine of \<open>server/state_machine.hpp\<close> and \<open>server/state_machine.cpp\<close>:
  the table of monitored nodes, the commands applied to it, and the queries. \<open>std::time\<close> is
  the argument \<open>now\<close>: no path through \<open>apply\<close> reads the clock twice. The mutex makes each
  operation atomic; what the logger writes is not modelled, but the value it is given is
  computed, because computing it can throw.
\<close>

section \<open>Node states\<close>

record node_state =
  last_seen :: int
  status :: string
  ip_address :: string
  cpu_usage :: int
  memory_usage :: int
  metadata :: string

type_synonym node_table = "(string \<times> node_state) list"

definition node_state_new :: node_state where
  "node_state_new =
     \<lparr>last_seen = 0, status = ''unknown'', ip_address = [], cpu_usage = 0, memory_usage = 0, metadata = []\<rparr>"

definition toJson :: "node_state \<Rightarrow> json" where
  "toJson st =
     json_object
       [(''last_seen'', JInteger (last_seen st)), (''status'', JString (status st)),
        (''ip_address'', JString (ip_address st)), (''cpu_usage'', JInteger (cpu_usage st)),
        (''memory_usage'', JInteger (memory_usage st)), (''metadata'', JString (metadata st))]"

text \<open>\<open>nodes[nodeId]\<close>: the entry, default-constructed when it is new.\<close>

definition node_ref :: "node_table \<Rightarrow> string \<Rightarrow> node_state" where
  "node_ref nodes nodeId = lookup_default node_state_new nodes nodeId"

section \<open>Commands\<close>

text \<open>
  One \<open>if (params.contains(key)) state.f = params[key];\<close> of \<open>handleUpdateNode\<close>. A conversion
  that throws leaves the fields assigned before it.
\<close>

definition update_field ::
    "json \<Rightarrow> string \<Rightarrow> (json \<Rightarrow> 'v outcome) \<Rightarrow> ('v \<Rightarrow> node_state \<Rightarrow> node_state) \<Rightarrow> (node_state, unit) action" where
  "update_field params key conv upd st =
     (if json_contains params key
      then abind (lift (obind (json_at params key) conv)) (\<lambda>v. modify (upd v)) st
      else (Ok (), st))"

fun metadata_text :: "json \<Rightarrow> string outcome" where
  "metadata_text (JString s) = Ok s"
| "metadata_text j = dump j"

definition update_last_seen :: "int \<Rightarrow> json \<Rightarrow> (node_state, unit) action" where
  "update_last_seen now params =
     (if json_contains params ''last_seen''
      then update_field params ''last_seen'' get_time (\<lambda>v st. st\<lparr>last_seen := v\<rparr>)
      else modify (\<lambda>st. st\<lparr>last_seen := now\<rparr>))"

definition update_fields :: "int \<Rightarrow> json \<Rightarrow> (node_state, unit) action" where
  "update_fields now params =
     abind (update_field params ''status'' get_string (\<lambda>v st. st\<lparr>status := v\<rparr>)) (\<lambda>_.
     abind (update_last_seen now params) (\<lambda>_.
     abind (update_field params ''ip_address'' get_string (\<lambda>v st. st\<lparr>ip_address := v\<rparr>)) (\<lambda>_.
     abind (update_field params ''cpu_usage'' get_int (\<lambda>v st. st\<lparr>cpu_usage := v\<rparr>)) (\<lambda>_.
     abind (update_field params ''memory_usage'' get_int (\<lambda>v st. st\<lparr>memory_usage := v\<rparr>)) (\<lambda>_.
     abind (update_field params ''metadata'' metadata_text (\<lambda>v st. st\<lparr>metadata := v\<rparr>)) (\<lambda>_.
     (\<lambda>st. (omap (\<lambda>_. ()) (dump (toJson st)), st))))))))"

definition handleUpdateNode :: "int \<Rightarrow> json \<Rightarrow> (node_table, unit) action" where
  "handleUpdateNode now params nodes =
     (if \<not> json_contains params ''node_id'' then (Ok (), nodes)
      else case string_at params ''node_id'' of
             Ok nodeId \<Rightarrow>
               (let (r, st) = update_fields now params (node_ref nodes nodeId)
                in (r, AList.update nodeId st nodes))
           | r \<Rightarrow> (omap (\<lambda>_. ()) r, nodes))"

definition handleRemoveNode :: "string \<Rightarrow> (node_table, unit) action" where
  "handleRemoveNode nodeId nodes =
     (case map_of nodes nodeId of
        Some st \<Rightarrow> (Ok (), AList.delete nodeId nodes)
      | None \<Rightarrow> (Ok (), nodes))"

definition handleSetStatus :: "int \<Rightarrow> string \<Rightarrow> string \<Rightarrow> (node_table, unit) action" where
  "handleSetStatus now nodeId st nodes =
     (let nodes1 = AList.update nodeId ((node_ref nodes nodeId)\<lparr>status := st\<rparr>) nodes
      in (Ok (), AList.update nodeId ((node_ref nodes1 nodeId)\<lparr>last_seen := now\<rparr>) nodes1))"

definition handleHeartbeat :: "int \<Rightarrow> string \<Rightarrow> (node_table, unit) action" where
  "handleHeartbeat now nodeId nodes =
     (let nodes1 = AList.update nodeId ((node_ref nodes nodeId)\<lparr>last_seen := now\<rparr>) nodes
      in (Ok (), AList.update nodeId ((node_ref nodes1 nodeId)\<lparr>status := ''active''\<rparr>) nodes1))"

text \<open>The body of the \<open>try\<close> block of \<open>apply\<close>, once the command was parsed.\<close>

definition apply_action :: "int \<Rightarrow> string \<Rightarrow> json \<Rightarrow> (node_table, unit) action" where
  "apply_action now act cmd =
     (if act = ''UPDATE_NODE'' then handleUpdateNode now cmd
      else if act = ''REMOVE_NODE'' then
        (if json_contains cmd ''node_id''
         then abind (lift (string_at cmd ''node_id'')) handleRemoveNode else ret ())
      else if act = ''SET_STATUS'' then
        (if json_contains cmd ''node_id'' \<and> json_contains cmd ''status''
         then abind (lift (string_at cmd ''node_id'')) (\<lambda>nodeId.
              abind (lift (string_at cmd ''status'')) (\<lambda>st. handleSetStatus now nodeId st)) else ret ())
      else if act = ''HEARTBEAT'' then
        (if json_contains cmd ''node_id''
         then abind (lift (string_at cmd ''node_id'')) (handleHeartbeat now) else ret ())
      else ret ())"

definition apply_json :: "int \<Rightarrow> json \<Rightarrow> (node_table, unit) action" where
  "apply_json now cmd =
     (if \<not> json_contains cmd ''action'' then ret ()
      else abind (lift (string_at cmd ''action'')) (\<lambda>act. apply_action now act cmd))"

text \<open>\<open>iss >> word\<close>: skips white space (as \<open>isspace\<close> in the C locale), reads up to the next.\<close>

definition c_space :: "char \<Rightarrow> bool" where
  "c_space c \<longleftrightarrow> c = CHR '' '' \<or> (9 \<le> byte_of c \<and> byte_of c \<le> 13)"

definition read_word :: "string \<Rightarrow> string \<times> string" where
  "read_word s =
     (let t = dropWhile c_space s in (takeWhile (\<lambda>c. \<not> c_space c) t, dropWhile (\<lambda>c. \<not> c_space c) t))"

text \<open>The legacy command \<open>SET key value\<close> of the \<open>catch\<close> block.\<close>

definition apply_legacy :: "int \<Rightarrow> string \<Rightarrow> node_table \<Rightarrow> node_table" where
  "apply_legacy now command nodes =
     (let (cmd, s1) = read_word command; (key, s2) = read_word s1; (val, s3) = read_word s2
      in if cmd = ''SET''
         then AList.update key (node_state_new\<lparr>last_seen := now, status := val\<rparr>) nodes else nodes)"

text \<open>\<open>StateMachine::apply\<close>; the \<open>catch\<close> clause takes the JSON library's exceptions only.\<close>

definition sm_apply :: "int \<Rightarrow> string \<Rightarrow> (node_table, unit) action" where
  "sm_apply now command nodes =
     (case abind (lift (json_parse command)) (apply_json now) nodes of
        (Throw (JsonException i w), nodes') \<Rightarrow> (Ok (), apply_legacy now command nodes')
      | r \<Rightarrow> r)"

section \<open>Queries\<close>

definition sm_get :: "node_table \<Rightarrow> string \<Rightarrow> string" where
  "sm_get nodes nodeId = (case map_of nodes nodeId of Some st \<Rightarrow> status st | None \<Rightarrow> [])"

definition getAll :: "node_table \<Rightarrow> json" where
  "getAll nodes = JObject (fold (\<lambda>p. obj_assign (fst p) (toJson (snd p))) nodes [])"

definition getNodeState :: "node_table \<Rightarrow> string \<Rightarrow> json" where
  "getNodeState nodes nodeId = (case map_of nodes nodeId of Some st \<Rightarrow> toJson st | None \<Rightarrow> JObject [])"

definition getActiveNodes :: "int \<Rightarrow> node_table \<Rightarrow> string list" where
  "getActiveNodes now nodes =
     map fst (filter (\<lambda>p. status (snd p) = ''active'' \<and> now - last_seen (snd p) < 30) nodes)"

definition getInactiveNodes :: "int \<Rightarrow> node_table \<Rightarrow> string list" where
  "getInactiveNodes now nodes =
     map fst (filter (\<lambda>p. status (snd p) \<noteq> ''active'' \<or> now - last_seen (snd p) \<ge> 30) nodes)"

definition hasNode :: "node_table \<Rightarrow> string \<Rightarrow> bool" where
  "hasNode nodes nodeId \<longleftrightarrow> map_of nodes nodeId \<noteq> None"

definition countByStatus :: "node_table \<Rightarrow> string \<Rightarrow> nat" where
  "countByStatus nodes st = length (filter (\<lambda>p. status (snd p) = st) nodes)"

section \<open>What every command keeps\<close>

lemma osequence_Throw: "osequence rs = Throw e \<Longrightarrow> Throw e \<in> set rs"
proof (induction rs)
  case (Cons r rs)
  then show ?case by (cases r; cases "osequence rs") auto
qed simp

lemma dump_escaped_exn: "dump_escaped_loop ascii cs i st cp l = Throw e \<Longrightarrow> json_exn e"
proof (induction ascii cs i st cp l arbitrary: e rule: dump_escaped_loop.induct)
  case (2 ascii c cs i st codep lst)
  let ?cp = "utf8_codepoint st codep (byte_of c)" and ?st = "utf8_next st (byte_of c)"
  show ?case
    using 2 by (cases "dump_escaped_loop ascii cs (Suc i) ?st ?cp (byte_of c)")
      (auto simp: Let_def split: if_splits)
qed (auto split: if_splits)

lemma omap_eq_Throw: "omap f r = Throw e \<longleftrightarrow> r = Throw e"
  by (cases r) auto

lemma obind_eq_Throw: "obind r f = Throw e \<longleftrightarrow> r = Throw e \<or> (\<exists>a. r = Ok a \<and> f a = Throw e)"
  by (cases r) auto

lemma Throw_eq: "Throw e = omap f r \<longleftrightarrow> r = Throw e"
    "Throw e = obind r g \<longleftrightarrow> r = Throw e \<or> (\<exists>a. r = Ok a \<and> g a = Throw e)"
  by (cases r; auto)+

lemmas outcome_Throw = omap_eq_Throw obind_eq_Throw Throw_eq

lemma json_dump_exn: "json_dump pretty ascii stp cur j = Throw e \<Longrightarrow> json_exn e"
proof (induction pretty ascii stp cur j arbitrary: e rule: json_dump.induct)
  case (7 pretty ascii stp cur d)
  then show ?case by (auto simp: dump_float_def split: if_splits option.splits)
qed (auto simp: outcome_Throw dump_escaped_def
      dest!: osequence_Throw dump_escaped_exn split: if_splits)

lemma json_at_exn: "json_at j k = Throw e \<Longrightarrow> json_exn e"
  by (cases j) (auto split: option.splits)

lemma get_exn:
  "get_string j = Throw e \<Longrightarrow> json_exn e" "get_int j = Throw e \<Longrightarrow> json_exn e" "get_time j = Throw e \<Longrightarrow> json_exn e"
  by (cases j; auto split: if_splits)+

lemma metadata_exn: "metadata_text j = Throw e \<Longrightarrow> json_exn e"
  by (cases j) (auto simp: dump_def simp del: json_dump.simps dest: json_dump_exn)

lemma string_at_exn: "string_at j k = Throw e \<Longrightarrow> json_exn e"
  by (auto simp: string_at_def obind_eq_Throw json_at_exn get_exn)

text \<open>An action that throws only the JSON library's exceptions.\<close>

definition throws_json :: "('s, 'a) action \<Rightarrow> bool" where
  "throws_json m \<longleftrightarrow> (\<forall>s e. fst (m s) = Throw e \<longrightarrow> json_exn e)"

lemma throws_json_abind: "throws_json m \<Longrightarrow> (\<And>a. throws_json (f a)) \<Longrightarrow> throws_json (abind m f)"
proof (unfold throws_json_def, intro allI impI)
  fix s e
  assume m: "\<forall>s e. fst (m s) = Throw e \<longrightarrow> json_exn e" and f: "\<And>a. \<forall>s e. fst (f a s) = Throw e \<longrightarrow> json_exn e"
    and "fst (abind m f s) = Throw e"
  then show "json_exn e"
    using spec [OF spec [OF m, of s], of e] by (cases "m s"; cases "fst (m s)") auto
qed

lemma throws_json_lift: "(\<And>e. r = Throw e \<Longrightarrow> json_exn e) \<Longrightarrow> throws_json (lift r)"
  by (simp add: throws_json_def lift_def)

lemma throws_json_simps [simp]: "throws_json (ret a)" "throws_json (modify g)"
  by (simp_all add: throws_json_def ret_def modify_def)

lemma throws_json_update_field:
  "(\<And>j e. conv j = Throw e \<Longrightarrow> json_exn e) \<Longrightarrow> throws_json (update_field params k conv upd)"
  by (cases "obind (json_at params k) conv")
     (auto simp: throws_json_def update_field_def lift_def modify_def obind_eq_Throw json_at_exn)

lemma dump_exn: "dump j = Throw e \<Longrightarrow> json_exn e"
  unfolding dump_def by (rule json_dump_exn)

lemma throws_json_log: "throws_json (\<lambda>st. (omap (\<lambda>_. ()) (dump (toJson st)), st))"
  by (simp add: throws_json_def omap_eq_Throw dump_exn)

lemma throws_json_update_fields: "throws_json (update_fields now params)"
  unfolding update_fields_def update_last_seen_def
  by (intro throws_json_abind throws_json_log) (auto intro!: throws_json_update_field dest: get_exn metadata_exn)

lemma throws_json_update: "throws_json (handleUpdateNode now params)"
  using throws_json_update_fields [of now params, unfolded throws_json_def, rule_format]
  by (auto simp: throws_json_def handleUpdateNode_def omap_eq_Throw string_at_exn split: outcome.splits prod.splits)
    (metis fst_conv)

lemma throws_json_handlers:
  "throws_json (handleRemoveNode n)" "throws_json (handleSetStatus now n v)" "throws_json (handleHeartbeat now n)"
  by (auto simp: throws_json_def handleRemoveNode_def handleSetStatus_def handleHeartbeat_def Let_def
      split: option.splits)

lemma throws_json_if:
  "(c \<Longrightarrow> throws_json a) \<Longrightarrow> (\<not> c \<Longrightarrow> throws_json b) \<Longrightarrow> throws_json (if c then a else b)"
  by simp

lemma throws_json_apply: "throws_json (apply_json now cmd)"
  unfolding apply_json_def apply_action_def
  by (intro throws_json_if throws_json_abind throws_json_lift throws_json_update throws_json_handlers
      throws_json_simps string_at_exn; assumption)

text \<open>Swallowing an exception, as the \<open>catch\<close> clause does.\<close>

fun absorb :: "unit outcome \<Rightarrow> unit outcome" where
  "absorb (Throw e) = Ok ()"
| "absorb r = r"

lemma absorb_not_Throw [simp]: "absorb r \<noteq> Throw e"
  by (cases r) auto

text \<open>A command that begins with the word \<open>SET\<close> is not JSON, so the two formats never overlap.\<close>

lemma dropWhile_weaker:
  assumes "\<forall>x. Q x \<longrightarrow> P x"
  shows "dropWhile P s = c # cs \<Longrightarrow> \<exists>d ds. dropWhile Q s = d # ds \<and> (d = c \<or> (P d \<and> \<not> Q d))"
  using assms by (induction s) (auto split: if_splits)

lemma dropWhile_hd: "dropWhile P s = c # cs \<Longrightarrow> s \<noteq> [] \<and> (hd s = c \<or> P (hd s))"
  by (cases s) (auto split: if_splits)

lemma legacy_not_json:
  assumes "fst (read_word command) = ''SET''"
  shows "\<exists>w. json_parse command = Throw (JsonException 101 w)"
proof -
  obtain cs where "dropWhile c_space command = CHR ''S'' # cs"
    using assms by (cases "dropWhile c_space command") (auto simp: read_word_def Let_def split: if_splits)
  moreover have "\<forall>x. json_space x \<longrightarrow> c_space x"
    by (simp add: json_space_def is_space_def c_space_def byte_of_def)
  ultimately obtain d ds where d: "dropWhile json_space command = d # ds"
      "d = CHR ''S'' \<or> (c_space d \<and> \<not> json_space d)"
      and hd: "hd command = CHR ''S'' \<or> c_space (hd command)" "command \<noteq> []"
    using dropWhile_weaker [of json_space c_space command] dropWhile_hd by metis
  have "hd command \<noteq> CHR 0xEF"
    using hd by (auto simp: c_space_def byte_of_def)
  moreover have "\<not> starts_token d"
    using d(2) by (auto simp: starts_token_def c_space_def byte_of_def is_digit_def quote_def)
  ultimately show ?thesis using json_parse_no_token hd(2) d(1) by blast
qed

lemma apply_legacy_json: "json_parse command = Ok j \<Longrightarrow> apply_legacy now command nodes = nodes"
  using legacy_not_json [of command] by (auto simp: apply_legacy_def Let_def split: prod.split)

lemma sm_apply_json:
  assumes "json_parse command = Ok j"
  shows "sm_apply now command nodes = (absorb (fst (apply_json now j nodes)), snd (apply_json now j nodes))"
proof (cases "fst (apply_json now j nodes)")
  case (Throw e)
  then have "json_exn e"
    using throws_json_apply [of now j] by (simp add: throws_json_def)
  then show ?thesis
    using Throw apply_legacy_json [OF assms]
    by (cases "apply_json now j nodes"; cases e) (auto simp: sm_apply_def lift_def assms)
qed (cases "apply_json now j nodes"; simp add: sm_apply_def lift_def assms)+

lemma sm_apply_legacy:
  assumes "json_parse command = Throw e"
  shows "sm_apply now command nodes = (Ok (), apply_legacy now command nodes)"
  using assms json_parse_result [of command] by (cases e) (auto simp: sm_apply_def lift_def)

lemma sm_apply_cases:
  obtains j where "json_parse command = Ok j"
    "sm_apply now command nodes = (absorb (fst (apply_json now j nodes)), snd (apply_json now j nodes))"
  | "sm_apply now command nodes = (Ok (), apply_legacy now command nodes)"
  using json_parse_result [of command] sm_apply_json sm_apply_legacy by metis

section \<open>The commands as operations on a map\<close>

text \<open>
  The contract of \<open>apply\<close>: a well-typed command is one of five operations on the map from
  node ids to node states.
\<close>

record node_patch =
  patch_status :: "string option"
  patch_last_seen :: "int option"
  patch_ip :: "string option"
  patch_cpu :: "int option"
  patch_memory :: "int option"
  patch_metadata :: "string option"

datatype sm_command =
    CmdUpdate string node_patch
  | CmdRemove string
  | CmdSetStatus string string
  | CmdHeartbeat string
  | CmdNone

definition opt_member :: "json \<Rightarrow> string \<Rightarrow> (json \<Rightarrow> 'v outcome) \<Rightarrow> 'v option outcome" where
  "opt_member j k conv = (if json_contains j k then omap Some (obind (json_at j k) conv) else Ok None)"

definition decode_patch :: "json \<Rightarrow> node_patch outcome" where
  "decode_patch j =
     obind (opt_member j ''status'' get_string) (\<lambda>s.
     obind (opt_member j ''last_seen'' get_time) (\<lambda>l.
     obind (opt_member j ''ip_address'' get_string) (\<lambda>i.
     obind (opt_member j ''cpu_usage'' get_int) (\<lambda>c.
     obind (opt_member j ''memory_usage'' get_int) (\<lambda>m.
     obind (opt_member j ''metadata'' metadata_text) (\<lambda>d.
     Ok \<lparr>patch_status = s, patch_last_seen = l, patch_ip = i, patch_cpu = c, patch_memory = m,
         patch_metadata = d\<rparr>))))))"

definition decode_command :: "json \<Rightarrow> sm_command outcome" where
  "decode_command j =
     (if \<not> json_contains j ''action'' then Ok CmdNone
      else obind (string_at j ''action'') (\<lambda>act.
        if act \<in> {''UPDATE_NODE'', ''REMOVE_NODE'', ''SET_STATUS'', ''HEARTBEAT''} \<and> json_contains j ''node_id'' then
          (if act = ''UPDATE_NODE'' then
             obind (string_at j ''node_id'') (\<lambda>n. omap (CmdUpdate n) (decode_patch j))
           else if act = ''REMOVE_NODE'' then omap CmdRemove (string_at j ''node_id'')
           else if act = ''HEARTBEAT'' then omap CmdHeartbeat (string_at j ''node_id'')
           else if json_contains j ''status'' then
             obind (string_at j ''node_id'') (\<lambda>n. omap (CmdSetStatus n) (string_at j ''status''))
           else Ok CmdNone)
        else Ok CmdNone))"

definition apply_patch :: "int \<Rightarrow> node_patch \<Rightarrow> node_state \<Rightarrow> node_state" where
  "apply_patch now p st =
     \<lparr>last_seen = (case patch_last_seen p of Some v \<Rightarrow> v | None \<Rightarrow> now),
      status = (case patch_status p of Some v \<Rightarrow> v | None \<Rightarrow> status st),
      ip_address = (case patch_ip p of Some v \<Rightarrow> v | None \<Rightarrow> ip_address st),
      cpu_usage = (case patch_cpu p of Some v \<Rightarrow> v | None \<Rightarrow> cpu_usage st),
      memory_usage = (case patch_memory p of Some v \<Rightarrow> v | None \<Rightarrow> memory_usage st),
      metadata = (case patch_metadata p of Some v \<Rightarrow> v | None \<Rightarrow> metadata st)\<rparr>"

fun spec_apply :: "int \<Rightarrow> sm_command \<Rightarrow> (string \<Rightarrow> node_state option) \<Rightarrow> string \<Rightarrow> node_state option" where
  "spec_apply now (CmdUpdate n p) t = t(n \<mapsto> apply_patch now p (case t n of Some st \<Rightarrow> st | None \<Rightarrow> node_state_new))"
| "spec_apply now (CmdRemove n) t = t(n := None)"
| "spec_apply now (CmdSetStatus n s) t =
     t(n \<mapsto> (case t n of Some st \<Rightarrow> st | None \<Rightarrow> node_state_new)\<lparr>status := s, last_seen := now\<rparr>)"
| "spec_apply now (CmdHeartbeat n) t =
     t(n \<mapsto> (case t n of Some st \<Rightarrow> st | None \<Rightarrow> node_state_new)\<lparr>last_seen := now, status := ''active''\<rparr>)"
| "spec_apply now CmdNone t = t"

lemma update_field_opt:
  "opt_member params k conv = Ok v \<Longrightarrow>
   update_field params k conv upd st = (Ok (), case v of None \<Rightarrow> st | Some x \<Rightarrow> upd x st)"
  by (auto simp: opt_member_def update_field_def lift_def modify_def omap_eq_Ok split: if_splits)

lemma update_last_seen_opt:
  "opt_member params ''last_seen'' get_time = Ok v \<Longrightarrow>
   update_last_seen now params st = (Ok (), st\<lparr>last_seen := (case v of None \<Rightarrow> now | Some x \<Rightarrow> x)\<rparr>)"
  using update_field_opt [of params "''last_seen''" get_time v "\<lambda>v st. st\<lparr>last_seen := v\<rparr>" st]
  by (auto simp: update_last_seen_def modify_def opt_member_def omap_eq_Ok split: if_splits option.splits)

lemma patch_fields:
  fixes s :: "string option" and i :: "int option"
  shows "(case s of None \<Rightarrow> st | Some x \<Rightarrow> st\<lparr>status := x\<rparr>) =
      st\<lparr>status := (case s of Some x \<Rightarrow> x | None \<Rightarrow> status st)\<rparr>"
    and "(case s of None \<Rightarrow> st | Some x \<Rightarrow> st\<lparr>ip_address := x\<rparr>) =
      st\<lparr>ip_address := (case s of Some x \<Rightarrow> x | None \<Rightarrow> ip_address st)\<rparr>"
    and "(case i of None \<Rightarrow> st | Some y \<Rightarrow> st\<lparr>cpu_usage := y\<rparr>) =
      st\<lparr>cpu_usage := (case i of Some y \<Rightarrow> y | None \<Rightarrow> cpu_usage st)\<rparr>"
    and "(case i of None \<Rightarrow> st | Some y \<Rightarrow> st\<lparr>memory_usage := y\<rparr>) =
      st\<lparr>memory_usage := (case i of Some y \<Rightarrow> y | None \<Rightarrow> memory_usage st)\<rparr>"
    and "(case s of None \<Rightarrow> st | Some x \<Rightarrow> st\<lparr>metadata := x\<rparr>) =
      st\<lparr>metadata := (case s of Some x \<Rightarrow> x | None \<Rightarrow> metadata st)\<rparr>"
  by (cases s; cases i; simp)+

lemma update_fields_patch:
  assumes "decode_patch params = Ok p"
  shows "update_fields now params st =
    (omap (\<lambda>_. ()) (dump (toJson (apply_patch now p st))), apply_patch now p st)"
proof -
  obtain s l i c m d where opts:
      "opt_member params ''status'' get_string = Ok s" "opt_member params ''last_seen'' get_time = Ok l"
      "opt_member params ''ip_address'' get_string = Ok i" "opt_member params ''cpu_usage'' get_int = Ok c"
      "opt_member params ''memory_usage'' get_int = Ok m" "opt_member params ''metadata'' metadata_text = Ok d"
    and p: "p = \<lparr>patch_status = s, patch_last_seen = l, patch_ip = i, patch_cpu = c, patch_memory = m,
      patch_metadata = d\<rparr>"
    using assms by (auto simp: decode_patch_def obind_eq_Ok)
  show ?thesis
    by (simp add: update_fields_def update_field_opt [OF opts(1)] update_last_seen_opt [OF opts(2)]
        update_field_opt [OF opts(3)] update_field_opt [OF opts(4)] update_field_opt [OF opts(5)]
        update_field_opt [OF opts(6)] patch_fields)
      (cases st; simp add: p apply_patch_def cong: option.case_cong)
qed

lemma node_ref_map_of: "node_ref nodes n = (case map_of nodes n of Some st \<Rightarrow> st | None \<Rightarrow> node_state_new)"
  by (simp add: node_ref_def lookup_default_def split: option.split)

lemma node_ref_update: "node_ref (AList.update n st nodes) n' = (if n' = n then st else node_ref nodes n')"
  by (simp add: node_ref_def lookup_default_update)

lemma refines_update:
  "json_contains j ''node_id'' \<Longrightarrow> string_at j ''node_id'' = Ok n \<Longrightarrow> decode_patch j = Ok p \<Longrightarrow>
   map_of (snd (handleUpdateNode now j nodes)) = spec_apply now (CmdUpdate n p) (map_of nodes)"
  by (simp add: handleUpdateNode_def update_fields_patch update_conv' node_ref_map_of)

lemma refines_remove: "map_of (snd (handleRemoveNode n nodes)) = spec_apply now (CmdRemove n) (map_of nodes)"
  by (auto simp: handleRemoveNode_def delete_conv' fun_eq_iff split: option.split)

lemma refines_set_status:
  "map_of (snd (handleSetStatus now n s nodes)) = spec_apply now (CmdSetStatus n s) (map_of nodes)"
  by (simp add: handleSetStatus_def Let_def update_conv' node_ref_update node_ref_map_of fun_upd_upd)

lemma refines_heartbeat:
  "map_of (snd (handleHeartbeat now n nodes)) = spec_apply now (CmdHeartbeat n) (map_of nodes)"
  by (simp add: handleHeartbeat_def Let_def update_conv' node_ref_update node_ref_map_of fun_upd_upd)

lemma apply_json_refines:
  assumes "decode_command j = Ok c"
  shows "map_of (snd (apply_json now j nodes)) = spec_apply now c (map_of nodes)"
proof (cases "json_contains j ''action''")
  case False
  with assms show ?thesis by (simp add: decode_command_def apply_json_def ret_def)
next
  case True
  then obtain act where act: "string_at j ''action'' = Ok act"
    using assms by (auto simp: decode_command_def obind_eq_Ok)
  have step: "apply_json now j nodes = apply_action now act j nodes"
    using True act by (simp add: apply_json_def lift_def)
  consider "act = ''UPDATE_NODE''" | "act = ''REMOVE_NODE''" | "act = ''SET_STATUS''" | "act = ''HEARTBEAT''"
    | "act \<notin> {''UPDATE_NODE'', ''REMOVE_NODE'', ''SET_STATUS'', ''HEARTBEAT''}" by fast
  then show ?thesis
  proof cases
    case 1
    show ?thesis
    proof (cases "json_contains j ''node_id''")
      case True
      then obtain n p where "string_at j ''node_id'' = Ok n" "decode_patch j = Ok p" "c = CmdUpdate n p"
        using assms act 1 \<open>json_contains j ''action''\<close> by (auto simp: decode_command_def obind_eq_Ok omap_eq_Ok)
      then show ?thesis
        using True 1 refines_update unfolding step by (simp add: apply_action_def)
    next
      case False
      then show ?thesis
        using assms act 1 \<open>json_contains j ''action''\<close> unfolding step
        by (simp add: decode_command_def apply_action_def handleUpdateNode_def)
    qed
  next
    case 2
    with assms True act show ?thesis unfolding step
      by (cases "json_contains j ''node_id''")
        (auto simp: decode_command_def apply_action_def omap_eq_Ok lift_def ret_def refines_remove [of _ nodes now])
  next
    case 3
    with assms True act show ?thesis unfolding step
      by (cases "json_contains j ''node_id'' \<and> json_contains j ''status''")
        (auto simp: decode_command_def apply_action_def obind_eq_Ok omap_eq_Ok lift_def ret_def
          refines_set_status split: if_splits)
  next
    case 4
    with assms True act show ?thesis unfolding step
      by (cases "json_contains j ''node_id''")
        (auto simp: decode_command_def apply_action_def omap_eq_Ok lift_def ret_def refines_heartbeat)
  next
    case 5
    with assms True act show ?thesis unfolding step
      by (auto simp: decode_command_def apply_action_def ret_def)
  qed
qed

text \<open>Only a table with distinct ids comes out.\<close>

definition keeps_wf :: "(node_table, 'a) action \<Rightarrow> bool" where
  "keeps_wf m \<longleftrightarrow> (\<forall>nodes. wf_alist nodes \<longrightarrow> wf_alist (snd (m nodes)))"

lemma keeps_wf_abind:
  assumes "keeps_wf m" "\<And>a. keeps_wf (f a)"
  shows "keeps_wf (abind m f)"
  unfolding keeps_wf_def
proof (intro allI impI)
  fix nodes :: node_table
  assume "wf_alist nodes"
  then show "wf_alist (snd (abind m f nodes))"
    using assms by (cases "m nodes"; cases "fst (m nodes)") (auto simp: keeps_wf_def)
qed

lemma keeps_wf_if: "(c \<Longrightarrow> keeps_wf a) \<Longrightarrow> (\<not> c \<Longrightarrow> keeps_wf b) \<Longrightarrow> keeps_wf (if c then a else b)"
  by simp

lemma keeps_wf_simps: "keeps_wf (lift r)" "keeps_wf (ret a)"
  by (simp_all add: keeps_wf_def lift_def ret_def)

lemma keeps_wf_handlers:
  "keeps_wf (handleUpdateNode now j)" "keeps_wf (handleRemoveNode n)"
  "keeps_wf (handleSetStatus now n s)" "keeps_wf (handleHeartbeat now n)"
  by (simp_all add: keeps_wf_def handleUpdateNode_def handleRemoveNode_def handleSetStatus_def
      handleHeartbeat_def Let_def split: option.split outcome.split prod.split)

lemma wf_apply_json: "wf_alist nodes \<Longrightarrow> wf_alist (snd (apply_json now j nodes))"
proof -
  have "keeps_wf (apply_json now j)"
    unfolding apply_json_def apply_action_def
    by (intro keeps_wf_if keeps_wf_abind keeps_wf_simps keeps_wf_handlers)
  then show "wf_alist nodes \<Longrightarrow> wf_alist (snd (apply_json now j nodes))" by (simp add: keeps_wf_def)
qed

lemma wf_apply_legacy: "wf_alist nodes \<Longrightarrow> wf_alist (apply_legacy now command nodes)"
  by (simp add: apply_legacy_def Let_def split: prod.split)

section \<open>Determinism up to the clock\<close>

text \<open>
  Replicas apply the same commands at different times. What differs is only \<open>last_seen\<close>.
\<close>

definition without_clock :: "node_table \<Rightarrow> node_table" where
  "without_clock nodes = map (\<lambda>p. (fst p, (snd p)\<lparr>last_seen := 0\<rparr>)) nodes"

lemma without_clock_update:
  "without_clock (AList.update n st nodes) = AList.update n (st\<lparr>last_seen := 0\<rparr>) (without_clock nodes)"
  by (induction nodes) (auto simp: without_clock_def)

lemma without_clock_delete: "without_clock (AList.delete n nodes) = AList.delete n (without_clock nodes)"
  by (induction nodes) (auto simp: without_clock_def)

lemma map_of_without_clock: "map_of (without_clock nodes) n = map_option (last_seen_update (\<lambda>_. 0)) (map_of nodes n)"
  by (induction nodes) (auto simp: without_clock_def)

text \<open>Actions that, started on states that agree, end alike and leave states that agree.\<close>

definition same_action ::
    "('s \<Rightarrow> 't) \<Rightarrow> ('s, 'a) action \<Rightarrow> ('s, 'a) action \<Rightarrow> bool" where
  "same_action v m m' \<longleftrightarrow>
     (\<forall>s s'. v s = v s' \<longrightarrow> fst (m s) = fst (m' s') \<and> v (snd (m s)) = v (snd (m' s')))"

lemma same_action_abind:
  assumes "same_action v m m'" "\<And>a. same_action v (f a) (f' a)"
  shows "same_action v (abind m f) (abind m' f')"
  unfolding same_action_def
proof (intro allI impI)
  fix s s'
  assume "v s = v s'"
  then have "fst (m s) = fst (m' s')" "v (snd (m s)) = v (snd (m' s'))"
    using assms(1) by (auto simp: same_action_def)
  then show "fst (abind m f s) = fst (abind m' f' s') \<and> v (snd (abind m f s)) = v (snd (abind m' f' s'))"
    using assms(2) by (cases "m s"; cases "m' s'"; cases "fst (m s)") (auto simp: same_action_def)
qed

lemma same_action_lift [simp]: "same_action v (lift r) (lift r)" "same_action v (ret a) (ret a)"
  by (simp_all add: same_action_def lift_def ret_def)

definition no_clock :: "node_state \<Rightarrow> node_state" where
  "no_clock st = st\<lparr>last_seen := 0\<rparr>"

lemma no_clock_eq:
  "no_clock s = no_clock s' \<longleftrightarrow> status s = status s' \<and> ip_address s = ip_address s' \<and>
     cpu_usage s = cpu_usage s' \<and> memory_usage s = memory_usage s' \<and> metadata s = metadata s'"
  by (cases s; cases s') (auto simp: no_clock_def)

lemma omap_omap: "omap f (omap g r) = omap (\<lambda>x. f (g x)) r"
  by (cases r) auto

lemma omap_obind: "omap f (obind r g) = obind r (\<lambda>a. omap f (g a))"
  by (cases r) auto

lemma obind_omap: "obind (omap g r) f = obind r (\<lambda>a. f (g a))"
  by (cases r) auto

lemma log_no_clock: "omap (\<lambda>_. ()) (dump (toJson st)) = omap (\<lambda>_. ()) (dump (toJson (no_clock st)))"
  by (simp add: toJson_def json_object_def dump_def omap_omap omap_obind obind_omap obind_assoc no_clock_def)

lemma same_log:
  "same_action no_clock (\<lambda>st. (omap (\<lambda>_. ()) (dump (toJson st)), st)) (\<lambda>st. (omap (\<lambda>_. ()) (dump (toJson st)), st))"
  unfolding same_action_def by (metis fst_conv snd_conv log_no_clock)

lemma same_modify:
  assumes "\<And>s s'. no_clock s = no_clock s' \<Longrightarrow> no_clock (f s) = no_clock (g s')"
  shows "same_action no_clock (modify f) (modify g)"
  by (simp add: same_action_def modify_def assms)

lemma same_ret: "same_action v (\<lambda>s. (r, s)) (\<lambda>s. (r, s))"
  by (simp add: same_action_def)

lemma same_update_field:
  assumes "\<And>x s s'. no_clock s = no_clock s' \<Longrightarrow> no_clock (upd x s) = no_clock (upd x s')"
  shows "same_action no_clock (update_field params k conv upd) (update_field params k conv upd)"
proof (cases "json_contains params k")
  case True
  then have "update_field params k conv upd = abind (lift (obind (json_at params k) conv)) (\<lambda>v. modify (upd v))"
    by (simp add: update_field_def fun_eq_iff)
  then show ?thesis by (simp only:) (intro same_action_abind same_action_lift same_modify assms)
next
  case False
  then have "update_field params k conv upd = (\<lambda>s. (Ok (), s))"
    by (simp add: update_field_def fun_eq_iff)
  then show ?thesis by (simp only: same_ret)
qed

lemma same_last_seen: "same_action no_clock (update_last_seen now params) (update_last_seen now' params)"
  by (auto simp: update_last_seen_def no_clock_eq intro!: same_update_field same_modify)

lemma same_update_fields: "same_action no_clock (update_fields now params) (update_fields now' params)"
  unfolding update_fields_def
  by (intro same_action_abind same_last_seen same_update_field same_log) (simp_all add: no_clock_eq)

lemma without_clock_no_clock: "without_clock nodes = map (\<lambda>p. (fst p, no_clock (snd p))) nodes"
  by (simp add: without_clock_def no_clock_def)

lemma node_ref_no_clock:
  "without_clock nodes = without_clock nodes' \<Longrightarrow> no_clock (node_ref nodes n) = no_clock (node_ref nodes' n)"
  using map_of_without_clock [of nodes n] map_of_without_clock [of nodes' n]
  by (cases "map_of nodes n"; cases "map_of nodes' n") (auto simp: node_ref_map_of no_clock_def)

lemma same_put:
  "without_clock nodes = without_clock nodes' \<Longrightarrow> no_clock st = no_clock st' \<Longrightarrow>
   without_clock (AList.update n st nodes) = without_clock (AList.update n st' nodes')"
  by (simp add: without_clock_update no_clock_def)

lemma node_ref_status:
  assumes "without_clock nodes = without_clock nodes'"
  shows "no_clock ((node_ref nodes n)\<lparr>status := s\<rparr>) = no_clock ((node_ref nodes' n)\<lparr>status := s\<rparr>)"
    and "no_clock ((node_ref nodes n)\<lparr>last_seen := t\<rparr>) = no_clock ((node_ref nodes' n)\<lparr>last_seen := t'\<rparr>)"
    and "no_clock ((node_ref nodes n)\<lparr>status := s, last_seen := t\<rparr>) =
         no_clock ((node_ref nodes' n)\<lparr>status := s, last_seen := t'\<rparr>)"
    and "no_clock ((node_ref nodes n)\<lparr>last_seen := t, status := s\<rparr>) =
         no_clock ((node_ref nodes' n)\<lparr>last_seen := t', status := s\<rparr>)"
  using node_ref_no_clock [OF assms, of n] by (simp_all add: no_clock_eq)

lemma same_handleUpdateNode: "same_action without_clock (handleUpdateNode now params) (handleUpdateNode now' params)"
proof (unfold same_action_def, intro allI impI)
  fix nodes nodes'
  assume w: "without_clock nodes = without_clock nodes'"
  show "fst (handleUpdateNode now params nodes) = fst (handleUpdateNode now' params nodes') \<and>
    without_clock (snd (handleUpdateNode now params nodes)) = without_clock (snd (handleUpdateNode now' params nodes'))"
  proof (cases "json_contains params ''node_id'' \<and> (\<exists>n. string_at params ''node_id'' = Ok n)")
    case True
    then obtain n where n: "string_at params ''node_id'' = Ok n" by blast
    have "fst (update_fields now params (node_ref nodes n)) = fst (update_fields now' params (node_ref nodes' n))"
        "no_clock (snd (update_fields now params (node_ref nodes n))) =
         no_clock (snd (update_fields now' params (node_ref nodes' n)))"
      using same_update_fields node_ref_no_clock [OF w] by (auto simp: same_action_def)
    then show ?thesis
      using True n by (auto simp: handleUpdateNode_def split: prod.split intro!: same_put [OF w])
  next
    case False
    then show ?thesis using w by (auto simp: handleUpdateNode_def split: outcome.split)
  qed
qed

lemma remove_node_eq: "handleRemoveNode n nodes = (Ok (), AList.delete n nodes)"
  by (simp add: handleRemoveNode_def delete_id map_of_eq_None_iff split: option.split)

lemma same_handlers:
  "same_action without_clock (handleRemoveNode n) (handleRemoveNode n)"
  "same_action without_clock (handleSetStatus now n s) (handleSetStatus now' n s)"
  "same_action without_clock (handleHeartbeat now n) (handleHeartbeat now' n)"
proof -
  show "same_action without_clock (handleRemoveNode n) (handleRemoveNode n)"
    using map_of_without_clock
    by (simp add: same_action_def remove_node_eq without_clock_delete)
  show "same_action without_clock (handleSetStatus now n s) (handleSetStatus now' n s)"
    by (auto simp: same_action_def handleSetStatus_def Let_def node_ref_update
        intro!: same_put node_ref_status)
  show "same_action without_clock (handleHeartbeat now n) (handleHeartbeat now' n)"
    by (auto simp: same_action_def handleHeartbeat_def Let_def node_ref_update
        intro!: same_put node_ref_status)
qed

lemma same_action_if:
  "(c \<Longrightarrow> same_action v a a') \<Longrightarrow> (\<not> c \<Longrightarrow> same_action v b b') \<Longrightarrow>
   same_action v (if c then a else b) (if c then a' else b')"
  by simp

lemma same_apply_json: "same_action without_clock (apply_json now j) (apply_json now' j)"
  unfolding apply_json_def apply_action_def
  by (intro same_action_if same_action_abind same_action_lift same_handlers same_handleUpdateNode)

lemma same_apply_legacy:
  "without_clock nodes = without_clock nodes' \<Longrightarrow>
   without_clock (apply_legacy now command nodes) = without_clock (apply_legacy now' command nodes')"
  by (auto simp: apply_legacy_def Let_def no_clock_eq intro!: same_put split: prod.split)

lemma same_sm_apply: "same_action without_clock (sm_apply now command) (sm_apply now' command)"
proof (cases "json_parse command")
  case (Ok j)
  then show ?thesis
    using same_apply_json [of now j now'] by (simp add: same_action_def sm_apply_json)
next
  case (Throw e)
  then show ?thesis
    by (auto simp: same_action_def sm_apply_legacy intro!: same_apply_legacy)
qed (use json_parse_result [of command] in auto)

text \<open>The state after a sequence of applied commands, each with the time it was applied at.\<close>

definition replay :: "(int \<times> string) list \<Rightarrow> node_table \<Rightarrow> node_table" where
  "replay cmds nodes = fold (\<lambda>p nodes. snd (sm_apply (fst p) (snd p) nodes)) cmds nodes"

lemma replay_same:
  "map snd xs = map snd ys \<Longrightarrow> without_clock nodes = without_clock nodes' \<Longrightarrow>
   without_clock (replay xs nodes) = without_clock (replay ys nodes')"
proof (induction xs arbitrary: ys nodes nodes')
  case Nil
  then show ?case by (simp add: replay_def)
next
  case (Cons x xs)
  then obtain y ys' where ys: "ys = y # ys'" "snd x = snd y" "map snd xs = map snd ys'"
    by (cases ys) auto
  then have "without_clock (snd (sm_apply (fst x) (snd x) nodes)) =
      without_clock (snd (sm_apply (fst y) (snd y) nodes'))"
    using same_sm_apply [of "fst x" "snd x" "fst y"] Cons.prems(2) by (simp add: same_action_def)
  then show ?case using Cons.IH ys by (simp add: replay_def)
qed

section \<open>Queries\<close>

lemma getActiveNodes_iff:
  assumes "wf_alist nodes"
  shows "n \<in> set (getActiveNodes now nodes) \<longleftrightarrow>
    (\<exists>st. map_of nodes n = Some st \<and> status st = ''active'' \<and> now - last_seen st < 30)"
  using wf_alist_map_of [OF assms] by (auto simp: getActiveNodes_def image_iff)

lemma getInactiveNodes_iff:
  assumes "wf_alist nodes"
  shows "n \<in> set (getInactiveNodes now nodes) \<longleftrightarrow>
    (\<exists>st. map_of nodes n = Some st \<and> (status st \<noteq> ''active'' \<or> now - last_seen st \<ge> 30))"
  using wf_alist_map_of [OF assms] by (auto simp: getInactiveNodes_def image_iff)

lemma read_word_append:
  "w \<noteq> [] \<Longrightarrow> \<forall>c \<in> set w. \<not> c_space c \<Longrightarrow> s = [] \<or> c_space (hd s) \<Longrightarrow> read_word (w @ s) = (w, s)"
  by (cases w; cases s) (auto simp: read_word_def Let_def takeWhile_append dropWhile_append)

lemma read_word_space: "read_word (CHR '' '' # s) = read_word s"
  by (simp add: read_word_def c_space_def)

lemma sm_apply_outcome:
  "fst (sm_apply now command nodes) \<noteq> Throw e"
  "wf_alist nodes \<Longrightarrow> wf_alist (snd (sm_apply now command nodes))"
  using wf_apply_json [of nodes] wf_apply_legacy [of nodes]
  by (rule_tac [!] sm_apply_cases [of command now nodes]) simp_all

lemma wf_replay: "wf_alist nodes \<Longrightarrow> wf_alist (replay cmds nodes)"
  unfolding replay_def by (induction cmds arbitrary: nodes) (simp_all add: sm_apply_outcome)

text \<open>A heartbeat as it stands in the log, and a table with one node, last seen 20 seconds before time 70.\<close>

definition example_heartbeat :: json where
  "example_heartbeat = json_object [(''action'', JString ''HEARTBEAT''), (''node_id'', JString ''w1'')]"

definition example_heartbeat_text :: string where
  "example_heartbeat_text = (case dump example_heartbeat of Ok s \<Rightarrow> s | _ \<Rightarrow> [])"

definition example_nodes :: node_table where
  "example_nodes = [(''w1'', node_state_new\<lparr>last_seen := 50, status := ''active'', ip_address := ''10.0.0.1''\<rparr>)]"

lemma example_heartbeat_parsed:
  "json_parse example_heartbeat_text = Ok example_heartbeat"
  "decode_command example_heartbeat = Ok (CmdHeartbeat ''w1'')"
  by code_simp+

lemma example_nodes_wf: "wf_alist example_nodes"
  by (simp add: example_nodes_def wf_alist_def)

section \<open>Properties\<close>

text \<open>C20: every well-typed JSON command that the replicated log delivers changes the table of
  nodes as its abstract operation does: an update sets the given fields (and the time, if the
  command has none), a removal removes, a status or heartbeat command sets status and time,
  and no other entry changes.\<close>

theorem sm_apply_refines:
  assumes "json_parse command = Ok j" and "decode_command j = Ok c"
  shows "map_of (snd (sm_apply now command nodes)) = spec_apply now c (map_of nodes)"
  using assms by (simp add: sm_apply_json apply_json_refines)

theorem sm_apply_refines_witness:
  "map_of (snd (sm_apply 70 example_heartbeat_text example_nodes)) ''w1'' =
   Some (node_state_new\<lparr>last_seen := 70, status := ''active'', ip_address := ''10.0.0.1''\<rparr>)"
  using sm_apply_refines [OF example_heartbeat_parsed, of 70 example_nodes]
  by (simp add: example_nodes_def)

text \<open>C21: whatever text is applied, no exception leaves \<open>apply\<close>, and the table keeps one entry
  per node id.\<close>

theorem sm_apply_safe:
  assumes "wf_alist nodes"
  shows "fst (sm_apply now command nodes) \<noteq> Throw e \<and> wf_alist (snd (sm_apply now command nodes))"
  using assms sm_apply_outcome by simp

theorem sm_apply_safe_witness: "wf_alist (snd (sm_apply 70 (''SET'' @ [CHR 0xFF]) example_nodes))"
  using sm_apply_safe [OF example_nodes_wf] by blast

text \<open>Replicas that apply the same commands, each at its own times, have the same nodes with
  the same status, address, usage and metadata; only \<open>last_seen\<close> can differ.\<close>

theorem replicas_agree:
  assumes "map snd xs = map snd ys"
  shows "without_clock (replay xs []) = without_clock (replay ys [])"
  using replay_same [OF assms refl] .

theorem replicas_agree_witness:
  "without_clock (replay [(70, example_heartbeat_text), (71, ''SET w2 idle'')] []) =
   without_clock (replay [(90, example_heartbeat_text), (95, ''SET w2 idle'')] [])"
  by (rule replicas_agree) simp

text \<open>The legacy text \<open>SET id status\<close> is still understood: it is not JSON, and it replaces the
  whole entry of the node by a fresh one with that status, seen now.\<close>

lemma sm_apply_set:
  assumes "i \<noteq> []" "\<forall>c \<in> set i. \<not> c_space c" "st \<noteq> []" "\<forall>c \<in> set st. \<not> c_space c"
  shows "sm_apply now (''SET '' @ i @ '' '' @ st) nodes =
    (Ok (), AList.update i (node_state_new\<lparr>last_seen := now, status := st\<rparr>) nodes)"
proof -
  have w1: "read_word (''SET '' @ i @ '' '' @ st) = (''SET'', CHR '' '' # i @ '' '' @ st)"
    using read_word_append [of "''SET''" "CHR '' '' # i @ '' '' @ st"] by (simp add: c_space_def byte_of_def)
  have w2: "read_word (CHR '' '' # i @ '' '' @ st) = (i, CHR '' '' # st)"
    using read_word_append [OF assms(1,2), of "CHR '' '' # st"] by (simp add: read_word_space c_space_def)
  have w3: "read_word (CHR '' '' # st) = (st, [])"
    using read_word_append [OF assms(3,4), of "[]"] by (simp add: read_word_space)
  obtain w where "json_parse (''SET '' @ i @ '' '' @ st) = Throw (JsonException 101 w)"
    using legacy_not_json [of "''SET '' @ i @ '' '' @ st"] w1 by auto
  then show ?thesis
    using sm_apply_legacy [of "''SET '' @ i @ '' '' @ st"]
    by (simp add: apply_legacy_def w1 [simplified] w2 [simplified] w3)
qed



text \<open>The answer to a query for all nodes has, under each id, what the query for that node
  answers, and nothing else.\<close>

lemma getAll_members:
  assumes "wf_alist nodes"
  shows "\<exists>kvs. getAll nodes = JObject kvs \<and> obj_sorted kvs \<and>
    (\<forall>n. map_of kvs n = (if hasNode nodes n then Some (getNodeState nodes n) else None))"
proof -
  have "map_of (fold (\<lambda>p. obj_assign (fst p) (toJson (snd p))) nodes []) n =
      (case map_of nodes n of Some st \<Rightarrow> Some (toJson st) | None \<Rightarrow> None)" for n
    using json_members.lookup_assign_all [of "[]" nodes toJson n] assms
    by (simp add: wf_alist_def split: option.splits)
  then show ?thesis
    using json_members.inv_assign_all [of "[]" fst "toJson \<circ> snd" nodes]
    by (auto simp: getAll_def hasNode_def getNodeState_def split: option.split)
qed

end
