(* ===== verification/Timers.thy ===== *)
theory Timers imports Prelude "HOL-Library.Multiset" begin

text \<open>
  The one-shot timer of \<open>common/timer.hpp\<close>. \<open>start\<close> makes a fresh shared flag and a detached
  thread that sleeps, reads its flag once, and runs the callback if the flag is still set;
  \<open>cancel\<close> clears the flag of the newest start. A thread that has read its flag can no longer
  be stopped: its callback waits for the node's mutex. The two stages of a thread are the
  lists \<open>sleeping\<close> and \<open>due\<close>.
\<close>

section \<open>Model\<close>

text \<open>\<open>flags\<close> is the heap of the \<open>std::atomic<bool>\<close> objects, \<open>running\<close> the index of the timer's own one.\<close>

record timer =
  running :: nat
  flags :: "bool list"
  sleeping :: "(nat \<times> nat) list"
  due :: "nat list"

definition timer_new :: timer where
  "timer_new = \<lparr>running = 0, flags = [False], sleeping = [], due = []\<rparr>"

definition timer_cancel :: "timer \<Rightarrow> timer" where
  "timer_cancel tm = tm\<lparr>flags := (flags tm)[running tm := False]\<rparr>"

definition timer_start :: "nat \<Rightarrow> timer \<Rightarrow> timer" where
  "timer_start ms tm =
     (let tm1 = timer_cancel tm; flag = length (flags tm1)
      in tm1\<lparr>flags := flags tm1 @ [True], running := flag, sleeping := sleeping tm1 @ [(flag, ms)]\<rparr>)"

text \<open>The \<open>i\<close>-th sleeping thread wakes up: it reads its flag and ends, or is about to call back.\<close>

definition timer_wake :: "nat \<Rightarrow> timer \<Rightarrow> timer" where
  "timer_wake i tm =
     (let (flag, ms) = sleeping tm ! i; tm1 = tm\<lparr>sleeping := take i (sleeping tm) @ drop (Suc i) (sleeping tm)\<rparr>
      in if flags tm ! flag then tm1\<lparr>due := due tm @ [flag]\<rparr> else tm1)"

text \<open>The \<open>i\<close>-th thread past its check gets to run its callback and ends.\<close>

definition timer_fire :: "nat \<Rightarrow> timer \<Rightarrow> timer" where
  "timer_fire i tm = tm\<lparr>due := take i (due tm) @ drop (Suc i) (due tm)\<rparr>"

text \<open>The destructor only cancels.\<close>

definition timer_destroy :: "timer \<Rightarrow> timer" where
  "timer_destroy tm = timer_cancel tm"

section \<open>The invariant\<close>

text \<open>Threads point to flags that exist, no two to the same one, and only the newest flag can be set.\<close>

definition timer_threads :: "timer \<Rightarrow> nat list" where
  "timer_threads tm = map fst (sleeping tm) @ due tm"

definition timer_wf :: "timer \<Rightarrow> bool" where
  "timer_wf tm \<longleftrightarrow>
     running tm < length (flags tm) \<and> distinct (timer_threads tm) \<and>
     (\<forall>f \<in> set (timer_threads tm). f < length (flags tm)) \<and>
     (\<forall>f < length (flags tm). flags tm ! f \<longrightarrow> f = running tm)"

text \<open>
  Sleeping threads whose callback would run if they woke now; and: a callback is on its way,
  from a sleeping thread or from one past its check.
\<close>

definition armed :: "timer \<Rightarrow> (nat \<times> nat) list" where
  "armed tm = filter (\<lambda>p. flags tm ! fst p) (sleeping tm)"

definition pending :: "timer \<Rightarrow> bool" where
  "pending tm \<longleftrightarrow> armed tm \<noteq> [] \<or> due tm \<noteq> []"

lemma timer_wf_new [simp]: "timer_wf timer_new"
  by (simp add: timer_wf_def timer_new_def timer_threads_def)

lemma cancel_simps [simp]:
  "running (timer_cancel tm) = running tm" "sleeping (timer_cancel tm) = sleeping tm"
  "due (timer_cancel tm) = due tm" "length (flags (timer_cancel tm)) = length (flags tm)"
  "timer_threads (timer_cancel tm) = timer_threads tm"
  by (simp_all add: timer_cancel_def timer_threads_def)

lemma start_simps [simp]:
  "running (timer_start ms tm) = length (flags tm)" "due (timer_start ms tm) = due tm"
  "sleeping (timer_start ms tm) = sleeping tm @ [(length (flags tm), ms)]"
  "flags (timer_start ms tm) = flags (timer_cancel tm) @ [True]"
  by (simp_all add: timer_start_def Let_def)

lemma cancel_flag: "timer_wf tm \<Longrightarrow> f < length (flags tm) \<Longrightarrow> \<not> flags (timer_cancel tm) ! f"
  by (auto simp: timer_wf_def timer_cancel_def nth_list_update)

lemma thread_flag: "timer_wf tm \<Longrightarrow> f \<in> set (timer_threads tm) \<Longrightarrow> f < length (flags tm)"
  by (simp add: timer_wf_def)

lemma sleeping_thread: "p \<in> set (sleeping tm) \<Longrightarrow> fst p \<in> set (timer_threads tm)"
  by (simp add: timer_threads_def)

lemma timer_wf_cancel [simp]:
  assumes "timer_wf tm"
  shows "timer_wf (timer_cancel tm)"
  using assms cancel_flag [OF assms] by (simp add: timer_wf_def)

lemma armed_cancel [simp]: "timer_wf tm \<Longrightarrow> armed (timer_cancel tm) = []"
  using cancel_flag thread_flag sleeping_thread by (fastforce simp: armed_def filter_empty_conv)

lemma timer_wf_start [simp]:
  assumes "timer_wf tm"
  shows "timer_wf (timer_start ms tm)"
proof -
  have t: "f \<in> set (timer_threads tm) \<Longrightarrow> f < length (flags tm)" for f
    using thread_flag [OF assms] .
  have threads: "set (timer_threads (timer_start ms tm)) = insert (length (flags tm)) (set (timer_threads tm))"
    by (auto simp: timer_threads_def)
  have "distinct (timer_threads (timer_start ms tm))"
    using assms t [of "length (flags tm)"] by (auto simp: timer_wf_def timer_threads_def)
  moreover have "\<forall>f \<in> set (timer_threads (timer_start ms tm)). f < length (flags (timer_start ms tm))"
    using t threads by (auto simp: less_Suc_eq)
  moreover have "flags (timer_start ms tm) ! f \<Longrightarrow> f < Suc (length (flags tm)) \<Longrightarrow> f = length (flags tm)" for f
    using cancel_flag [OF assms, of f] by (auto simp: nth_append less_Suc_eq)
  ultimately show ?thesis by (auto simp: timer_wf_def)
qed

lemma armed_start [simp]:
  assumes "timer_wf tm"
  shows "armed (timer_start ms tm) = [(length (flags tm), ms)]"
proof -
  have "\<not> flags (timer_start ms tm) ! fst p" if "p \<in> set (sleeping tm)" for p
    using thread_flag [OF assms sleeping_thread [OF that]] cancel_flag [OF assms] by (simp add: nth_append)
  then have "filter (\<lambda>p. flags (timer_start ms tm) ! fst p) (sleeping tm) = []"
    by (simp add: filter_empty_conv)
  then show ?thesis
    by (simp add: armed_def nth_append)
qed

lemma pending_start [simp]: "timer_wf tm \<Longrightarrow> pending (timer_start ms tm)"
  by (simp add: pending_def)

text \<open>Removing one thread from a list of threads.\<close>

definition drop_nth :: "nat \<Rightarrow> 'a list \<Rightarrow> 'a list" where
  "drop_nth i xs = take i xs @ drop (Suc i) xs"

lemma mset_drop_nth: "i < length xs \<Longrightarrow> mset xs = add_mset (xs ! i) (mset (drop_nth i xs))"
  unfolding drop_nth_def
  by (metis id_take_nth_drop mset.simps(2) mset_append union_mset_add_mset_right)

lemma set_drop_nth: "i < length xs \<Longrightarrow> set xs = insert (xs ! i) (set (drop_nth i xs))"
  using mset_eq_setD [of xs "xs ! i # drop_nth i xs"] mset_drop_nth by fastforce

lemma timer_wf_wake:
  assumes wf: "timer_wf tm" and i: "i < length (sleeping tm)"
  shows "timer_wf (timer_wake i tm)"
proof -
  obtain f ms where f: "sleeping tm ! i = (f, ms)" by force
  let ?rest = "drop_nth i (sleeping tm)"
  have "mset (map fst (sleeping tm)) = add_mset f (mset (map fst ?rest))"
    using mset_drop_nth [OF i] f by simp
  then have threads: "mset (timer_threads tm) = mset (f # map fst ?rest @ due tm)"
    by (simp add: timer_threads_def)
  have set: "set (timer_threads tm) = insert f (set (map fst ?rest @ due tm))"
    using mset_eq_setD [OF threads] by simp
  have dist: "distinct (f # map fst ?rest @ due tm)"
    using wf mset_eq_imp_distinct_iff [OF threads] by (simp add: timer_wf_def)
  show ?thesis
    using wf set dist f
    by (auto simp: timer_wf_def timer_wake_def timer_threads_def drop_nth_def [symmetric] Let_def split: prod.split)
qed

lemma timer_wf_fire:
  assumes wf: "timer_wf tm" and i: "i < length (due tm)"
  shows "timer_wf (timer_fire i tm)"
proof -
  have threads: "mset (timer_threads tm) = mset (due tm ! i # map fst (sleeping tm) @ drop_nth i (due tm))"
    using mset_drop_nth [OF i] by (simp add: timer_threads_def)
  have set: "set (timer_threads tm) = insert (due tm ! i) (set (map fst (sleeping tm) @ drop_nth i (due tm)))"
    using mset_eq_setD [OF threads] by simp
  have dist: "distinct (due tm ! i # map fst (sleeping tm) @ drop_nth i (due tm))"
    using wf mset_eq_imp_distinct_iff [OF threads] by (simp add: timer_wf_def)
  show ?thesis
    using wf set dist
    by (auto simp: timer_wf_def timer_fire_def timer_threads_def drop_nth_def [symmetric])
qed

lemma timer_at_most_one:
  assumes "timer_wf tm"
  shows "length (armed tm) \<le> 1"
proof -
  have "fst p = running tm" if "p \<in> set (armed tm)" for p
    using that assms by (auto simp: armed_def timer_wf_def timer_threads_def)
  moreover have dist: "distinct (map fst (armed tm))"
    using assms by (auto simp: armed_def timer_wf_def timer_threads_def distinct_map inj_on_def)
  ultimately have "set (map fst (armed tm)) \<subseteq> {running tm}" by auto
  then have "card (set (map fst (armed tm))) \<le> 1"
    using card_mono [of "{running tm}" "set (map fst (armed tm))"] by simp
  moreover have "card (set (map fst (armed tm))) = length (armed tm)"
    using distinct_card [OF dist] by simp
  ultimately show ?thesis by simp
qed

text \<open>Waking up moves an armed thread on, and ends any other.\<close>

lemma pending_wake:
  assumes "timer_wf tm" "i < length (sleeping tm)" "pending tm"
  shows "pending (timer_wake i tm)"
proof (cases "flags tm ! fst (sleeping tm ! i)")
  case True
  then show ?thesis by (cases "sleeping tm ! i") (simp add: pending_def timer_wake_def Let_def)
next
  case False
  have "armed (timer_wake i tm) = filter (\<lambda>p. flags tm ! fst p) (drop_nth i (sleeping tm))"
    using False by (cases "sleeping tm ! i") (simp add: armed_def timer_wake_def Let_def drop_nth_def)
  moreover have "set (armed tm) \<subseteq> set (filter (\<lambda>p. flags tm ! fst p) (drop_nth i (sleeping tm)))"
    using set_drop_nth [OF assms(2)] False by (auto simp: armed_def)
  moreover have "due (timer_wake i tm) = due tm"
    using False by (cases "sleeping tm ! i") (simp add: timer_wake_def Let_def)
  ultimately show ?thesis using assms(3) by (auto simp: pending_def simp del: set_filter)
qed

section \<open>The contract\<close>

text \<open>
  What the node relies on: it cancels and restarts, and afterwards a callback will come; the
  threads of cancelled starts end without one.
\<close>

locale one_shot =
  fixes wf :: "'t \<Rightarrow> bool" and start :: "nat \<Rightarrow> 't \<Rightarrow> 't" and cancel :: "'t \<Rightarrow> 't" and coming :: "'t \<Rightarrow> bool"
    and wake :: "nat \<Rightarrow> 't \<Rightarrow> 't" and asleep :: "'t \<Rightarrow> nat"
  assumes wf_start: "wf t \<Longrightarrow> wf (start ms t)"
    and wf_cancel: "wf t \<Longrightarrow> wf (cancel t)"
    and wf_wake: "wf t \<Longrightarrow> i < asleep t \<Longrightarrow> wf (wake i t)"
    and coming_start: "wf t \<Longrightarrow> coming (start ms t)"
    and coming_wake: "wf t \<Longrightarrow> i < asleep t \<Longrightarrow> coming t \<Longrightarrow> coming (wake i t)"
begin

lemma restart: "wf t \<Longrightarrow> wf (start ms (cancel t)) \<and> coming (start ms (cancel t))"
  by (simp add: wf_start wf_cancel coming_start)

text \<open>A callback that is coming stays so while other threads wake up.\<close>

lemma coming_wakes:
  "wf t \<Longrightarrow> coming t \<Longrightarrow> (\<And>t i. asleep (wake i t) + 1 \<ge> asleep t) \<Longrightarrow> n \<le> asleep t \<Longrightarrow>
   wf ((wake 0 ^^ n) t) \<and> coming ((wake 0 ^^ n) t) \<and> asleep ((wake 0 ^^ n) t) + n \<ge> asleep t"
proof (induction n)
  case (Suc n)
  then have IH: "wf ((wake 0 ^^ n) t)" "coming ((wake 0 ^^ n) t)" "asleep ((wake 0 ^^ n) t) + n \<ge> asleep t"
    by auto
  then have "0 < asleep ((wake 0 ^^ n) t)" using Suc.prems(4) by simp
  then show ?case
    using IH wf_wake coming_wake Suc.prems(3) [of "(wake 0 ^^ n) t" 0] by auto
qed simp

end

interpretation one_shot_timer: one_shot timer_wf timer_start timer_cancel pending timer_wake "\<lambda>tm. length (sleeping tm)"
  by unfold_locales (simp_all add: timer_wf_wake pending_wake)

section \<open>Runs\<close>

text \<open>What can happen to a timer: its owner's calls, and its threads, in any order.\<close>

inductive timer_run :: "timer \<Rightarrow> bool" where
  new: "timer_run timer_new"
| started: "timer_run tm \<Longrightarrow> timer_run (timer_start ms tm)"
| cancelled: "timer_run tm \<Longrightarrow> timer_run (timer_cancel tm)"
| woken: "timer_run tm \<Longrightarrow> i < length (sleeping tm) \<Longrightarrow> timer_run (timer_wake i tm)"
| fired: "timer_run tm \<Longrightarrow> i < length (due tm) \<Longrightarrow> timer_run (timer_fire i tm)"

lemma timer_run_wf: "timer_run tm \<Longrightarrow> timer_wf tm"
  by (induction rule: timer_run.induct) (simp_all add: timer_wf_wake timer_wf_fire)

text \<open>C36: at most one of the timer's sleeping threads will call back, however often it was started and
  cancelled; after \<open>cancel\<close> none will, and after \<open>start\<close> exactly the new one.\<close>

theorem timer_one_armed:
  assumes "timer_run tm"
  shows "length (armed tm) \<le> 1 \<and> armed (timer_cancel tm) = [] \<and>
    armed (timer_start ms tm) = [(running (timer_start ms tm), ms)]"
  using timer_at_most_one timer_run_wf [OF assms] by simp

theorem timer_one_armed_witness:
  "length (armed (timer_start 300 (timer_start 150 timer_new))) \<le> 1 \<and>
   length (sleeping (timer_start 300 (timer_start 150 timer_new))) = 2"
proof -
  have "timer_run (timer_start 300 (timer_start 150 timer_new))" by (intro timer_run.intros)
  from timer_one_armed [OF this] have "length (armed (timer_start 300 (timer_start 150 timer_new))) \<le> 1" by blast
  then show ?thesis by (simp add: timer_new_def)
qed

text \<open>\<open>cancel\<close> comes too late for a thread that has read its flag: its callback still runs, beside
  the one of a later start.\<close>

theorem cancel_too_late:
  "let tm = timer_start 300 (timer_cancel (timer_wake 0 (timer_start 150 timer_new)))
   in timer_run tm \<and> due tm = [1] \<and> armed tm = [(2, 300)]"
proof -
  have "timer_run (timer_start 150 timer_new)" by (intro timer_run.intros)
  moreover have "0 < length (sleeping (timer_start 150 timer_new))" by (simp add: timer_new_def)
  ultimately have "timer_run (timer_start 300 (timer_cancel (timer_wake 0 (timer_start 150 timer_new))))"
    by (intro timer_run.intros)
  moreover have "due (timer_start 300 (timer_cancel (timer_wake 0 (timer_start 150 timer_new)))) = [1]"
      "armed (timer_start 300 (timer_cancel (timer_wake 0 (timer_start 150 timer_new)))) = [(2, 300)]"
    by code_simp+
  ultimately show ?thesis by (simp add: Let_def)
qed

end
