(* ===== verification/Raft_Data.thy ===== *)
theory Raft_Data imports State_Machine Timers begin

text \<open>
  The data of a Raft node (\<open>server/raft_node.hpp\<close>): roles, log entries, the fields of
  \<open>RaftNode\<close>, the tasks it hands to its thread pool, and what its operations take from outside
  (random numbers, the clock, the socket calls, the other threads). Also the small pieces of
  text handling its operations share: the \<open>name:port\<close> form of a peer and \<open>std::stoi\<close>.
\<close>

section \<open>Peers\<close>

text \<open>\<open>peerSpec.find(':')\<close> and the two \<open>substr\<close> around it; \<open>None\<close> where there is no colon.\<close>

definition split_peer :: "string \<Rightarrow> (string \<times> string) option" where
  "split_peer spec =
     (if CHR '':'' \<in> set spec
      then Some (takeWhile (\<lambda>c. c \<noteq> CHR '':'') spec, tl (dropWhile (\<lambda>c. c \<noteq> CHR '':'') spec))
      else None)"

text \<open>
  \<open>std::stoi\<close>: white space, a sign, digits, and anything behind them. Without a digit it
  throws \<open>invalid_argument\<close>, outside \<open>int\<close> it throws \<open>out_of_range\<close>; both say \<open>stoi\<close>.
\<close>

definition stoi :: "string \<Rightarrow> int outcome" where
  "stoi s =
     (let t = dropWhile c_space s;
          neg = (t \<noteq> [] \<and> hd t = CHR ''-'');
          u = (if t \<noteq> [] \<and> (hd t = CHR ''-'' \<or> hd t = CHR ''+'') then tl t else t);
          ds = takeWhile is_digit u;
          v = (if neg then - digits_value 0 ds else digits_value 0 ds)
      in if ds = [] \<or> \<not> is_int32 v then Throw (StdException ''stoi'') else Ok v)"

text \<open>A peer that \<open>stoi\<close> takes, or that the loops skip.\<close>

definition peer_ok :: "string \<Rightarrow> bool" where
  "peer_ok spec \<longleftrightarrow> (case split_peer spec of None \<Rightarrow> True | Some (i, p) \<Rightarrow> (case stoi p of Ok v \<Rightarrow> True | _ \<Rightarrow> False))"

section \<open>The node\<close>

datatype role = FOLLOWER | CANDIDATE | LEADER

record log_entry =
  eterm :: int
  command :: string

text \<open>
  The closures given to \<open>rpcPool.enqueue\<close>, with what they capture. The two shared pointers of
  an election are an index into \<open>elections\<close>.
\<close>

datatype task =
    VoteTask string int json int int nat           \<comment> \<open>peerId, peerPort, params, term, needed, election\<close>
  | HeartbeatTask string int json int int int      \<comment> \<open>peerId, peerPort, params, term, nextIdx, entriesCount\<close>
  | ReplicateTask string int json int int int
  | ReplicateInternalTask string int json int int int

record raft_node =
  nodeId :: string
  rpcPort :: int
  peerAddrs :: "string list"
  currentTerm :: int
  votedFor :: string
  log :: "log_entry list"
  commitIndex :: int
  lastApplied :: int
  nextIndex :: "(string \<times> int) list"
  matchIndex :: "(string \<times> int) list"
  role :: role
  stateMachine :: node_table
  electionTimer :: timer
  heartbeatTimer :: timer
  discoverySocket :: int
  runningDiscoveryService :: bool
  discoveryThread :: bool
  rpcPool :: "task list"
  elections :: "(int \<times> bool) list"
  draws :: nat

text \<open>
  What an operation meets: the numbers the generator yields, the time at which the entry of an
  index is applied, the descriptor of the discovery socket if \<open>socket\<close>, \<open>bind\<close> and \<open>listen\<close>
  succeed, and what other threads do to the node in the two gaps (before and after the call of
  the discovery service) where an operation gives up the mutex.
\<close>

record env =
  draw :: "nat \<Rightarrow> nat"
  clock :: "nat \<Rightarrow> int"
  server_socket :: "int option"
  others :: "nat \<Rightarrow> raft_node \<Rightarrow> raft_node"

text \<open>The constructor.\<close>

definition raft_node_new :: "string \<Rightarrow> int \<Rightarrow> string list \<Rightarrow> raft_node" where
  "raft_node_new i port peers =
     \<lparr>nodeId = i, rpcPort = port, peerAddrs = peers, currentTerm = 0, votedFor = [], log = [],
      commitIndex = -1, lastApplied = -1, nextIndex = [], matchIndex = [], role = FOLLOWER,
      stateMachine = [], electionTimer = timer_new, heartbeatTimer = timer_new,
      discoverySocket = -1, runningDiscoveryService = False, discoveryThread = False,
      rpcPool = [], elections = [], draws = 0\<rparr>"

definition isLeader :: "raft_node \<Rightarrow> bool" where
  "isLeader n \<longleftrightarrow> role n = LEADER"

definition query :: "raft_node \<Rightarrow> string \<Rightarrow> string" where
  "query n key = sm_get (stateMachine n) key"

definition queryAll :: "raft_node \<Rightarrow> json" where
  "queryAll n = getAll (stateMachine n)"

definition queryNode :: "raft_node \<Rightarrow> string \<Rightarrow> json" where
  "queryNode n i = getNodeState (stateMachine n) i"

definition enqueue :: "task \<Rightarrow> raft_node \<Rightarrow> raft_node" where
  "enqueue t n = n\<lparr>rpcPool := rpcPool n @ [t]\<rparr>"

text \<open>Term and index of the last entry, as a candidate sends them and a voter compares them.\<close>

definition lastLogIndex :: "raft_node \<Rightarrow> int" where
  "lastLogIndex n = len (log n) - 1"

definition lastLogTerm :: "raft_node \<Rightarrow> int" where
  "lastLogTerm n = (if log n = [] then 0 else eterm (last (log n)))"

text \<open>\<open>m[peerId]\<close> on an index map: the value, and the map with the entry it may have added.\<close>

definition index_ref :: "string \<Rightarrow> (string \<times> int) list \<Rightarrow> int \<times> (string \<times> int) list" where
  "index_ref k m = (case map_of m k of Some v \<Rightarrow> (v, m) | None \<Rightarrow> (0, AList.update k 0 m))"

text \<open>The size of a majority of the cluster: this node and its peers.\<close>

definition majority :: "raft_node \<Rightarrow> int" where
  "majority n = (len (peerAddrs n) + 1) div 2 + 1"

text \<open>Every exception that leaves a closure of the thread pool is caught there.\<close>

definition swallow :: "(raft_node, unit) action \<Rightarrow> (raft_node, unit) action" where
  "swallow m n = (case m n of (Throw e, n') \<Rightarrow> (Ok (), n') | r \<Rightarrow> r)"

section \<open>Log positions\<close>

text \<open>
  The last entry of a log as a position: positions are ordered by term first and index second.
  This is the order in which Raft calls one log at least as up to date as another.
\<close>

datatype log_position = LogPosition (pos_term: int) (pos_index: int)

instantiation log_position :: linorder
begin

definition less_eq_log_position :: "log_position \<Rightarrow> log_position \<Rightarrow> bool" where
  "less_eq_log_position p q \<longleftrightarrow>
     pos_term p < pos_term q \<or> (pos_term p = pos_term q \<and> pos_index p \<le> pos_index q)"

definition less_log_position :: "log_position \<Rightarrow> log_position \<Rightarrow> bool" where
  "less_log_position p q \<longleftrightarrow>
     pos_term p < pos_term q \<or> (pos_term p = pos_term q \<and> pos_index p < pos_index q)"

instance
proof
  fix p q r :: log_position
  show "p < q \<longleftrightarrow> p \<le> q \<and> \<not> q \<le> p"
    by (auto simp: less_log_position_def less_eq_log_position_def)
  show "p \<le> p" by (simp add: less_eq_log_position_def)
  show "p \<le> q \<Longrightarrow> q \<le> r \<Longrightarrow> p \<le> r" by (auto simp: less_eq_log_position_def)
  show "p \<le> q \<Longrightarrow> q \<le> p \<Longrightarrow> p = q" by (cases p; cases q) (auto simp: less_eq_log_position_def)
  show "p \<le> q \<or> q \<le> p" by (auto simp: less_eq_log_position_def)
qed

end

definition log_position :: "raft_node \<Rightarrow> log_position" where
  "log_position n = LogPosition (lastLogTerm n) (lastLogIndex n)"

section \<open>Quorums\<close>

text \<open>
  Any two majorities of a finite set of nodes share a member. The contract is interpreted on
  the majority the code computes, \<open>(size + 1) / 2 + 1\<close> for \<open>size\<close> peers.
\<close>

locale quorum =
  fixes members :: "'n set" and needed :: nat
  assumes finite_members: "finite members"
    and needed_half: "card members < 2 * needed"
begin

lemma intersect:
  assumes "A \<subseteq> members" "B \<subseteq> members" "needed \<le> card A" "needed \<le> card B"
  shows "A \<inter> B \<noteq> {}"
proof
  assume "A \<inter> B = {}"
  moreover have "finite A" "finite B" using assms finite_members finite_subset by blast+
  ultimately have "card (A \<union> B) = card A + card B" by (simp add: card_Un_disjoint)
  moreover have "card (A \<union> B) \<le> card members" using assms finite_members by (simp add: card_mono)
  ultimately show False using assms needed_half by simp
qed

lemma one_winner:
  assumes "A \<subseteq> members" "B \<subseteq> members" "needed \<le> card A" "needed \<le> card B"
    and "\<forall>n \<in> A. f n = x" "\<forall>n \<in> B. f n = y"
  shows "x = y"
proof -
  obtain n where "n \<in> A" "n \<in> B" using intersect [OF assms(1-4)] by blast
  then show ?thesis using assms(5,6) by metis
qed

end

text \<open>The members of a cluster are numbered from 0; a node has all the others as peers.\<close>

interpretation cluster_majority: quorum "{..<Suc (length peers)}" "nat ((len peers + 1) div 2 + 1)" for peers :: "string list"
  by unfold_locales auto

end
