(* ===== verification/Raft_Node.thy ===== *)
theory Raft_Node imports Raft_Data begin

text \<open>
  The operations of \<open>server/raft_node.cpp\<close>, one definition per member function, and one per
  closure (timer callbacks, and what a task does with the response of its remote call). Each
  runs with the node's mutex held, so it is a function on the node; the two gaps in which the
  code gives up the mutex are the calls of \<open>others\<close>. Writing to the log file is left out.
\<close>

section \<open>Timers\<close>

text \<open>\<open>uniform_int_distribution(300, 500)\<close> applied to the next number of the generator.\<close>

definition randomTimeout :: "env \<Rightarrow> nat \<Rightarrow> nat" where
  "randomTimeout env k = 300 + draw env k mod 201"

definition resetElectionTimer :: "env \<Rightarrow> raft_node \<Rightarrow> raft_node" where
  "resetElectionTimer env n =
     (let t = randomTimeout env (draws n)
      in n\<lparr>draws := Suc (draws n), electionTimer := timer_start t (timer_cancel (electionTimer n))\<rparr>)"

definition restart_heartbeat :: "raft_node \<Rightarrow> raft_node" where
  "restart_heartbeat n = n\<lparr>heartbeatTimer := timer_start 50 (timer_cancel (heartbeatTimer n))\<rparr>"

section \<open>The discovery service\<close>

definition startDiscoveryService :: "env \<Rightarrow> raft_node \<Rightarrow> raft_node" where
  "startDiscoveryService env n =
     (if runningDiscoveryService n then n
      else case server_socket env of
             None \<Rightarrow> n
           | Some fd \<Rightarrow> n\<lparr>discoverySocket := fd, runningDiscoveryService := True, discoveryThread := True\<rparr>)"

definition stopDiscoveryService :: "raft_node \<Rightarrow> raft_node" where
  "stopDiscoveryService n =
     (if \<not> runningDiscoveryService n then n
      else n\<lparr>runningDiscoveryService := False, discoverySocket := -1\<rparr>)"

section \<open>Committing and applying\<close>

definition replication_count :: "raft_node \<Rightarrow> int \<Rightarrow> int" where
  "replication_count n k = 1 + len (filter (\<lambda>p. snd p \<ge> k) (matchIndex n))"

text \<open>The \<open>for\<close> loop of \<open>applyStateMachine\<close>: the new commit index.\<close>

function commit_scan :: "raft_node \<Rightarrow> int \<Rightarrow> int outcome" where
  "commit_scan n k =
     (if k \<le> commitIndex n then Ok (commitIndex n)
      else if k < 0 then UB
      else if eterm (log n ! nat k) = currentTerm n \<and> replication_count n k \<ge> majority n then Ok k
      else commit_scan n (k - 1))"
  by pat_completeness auto
termination
  by (relation "measure (\<lambda>(n, k). nat (k - commitIndex n))") auto

text \<open>The \<open>while\<close> loop of \<open>applyStateMachine\<close>.\<close>

function apply_loop :: "env \<Rightarrow> (raft_node, unit) action" where
  "apply_loop env n =
     (if lastApplied n < commitIndex n then
        (let i = lastApplied n + 1; n1 = n\<lparr>lastApplied := i\<rparr>
         in if i < 0 \<or> len (log n) \<le> i then (UB, n1)
            else case sm_apply (clock env (nat i)) (command (log n ! nat i)) (stateMachine n) of
                   (Ok u, sm) \<Rightarrow> apply_loop env (n1\<lparr>stateMachine := sm\<rparr>)
                 | (r, sm) \<Rightarrow> (r, n1\<lparr>stateMachine := sm\<rparr>))
      else (Ok (), n))"
  by pat_completeness auto
termination
  by (relation "measure (\<lambda>(env, n). nat (commitIndex n - lastApplied n))") auto

declare commit_scan.simps [simp del] apply_loop.simps [simp del]

definition applyStateMachine :: "env \<Rightarrow> (raft_node, unit) action" where
  "applyStateMachine env n =
     (case commit_scan n (len (log n) - 1) of
        Ok k \<Rightarrow> apply_loop env (n\<lparr>commitIndex := k\<rparr>)
      | r \<Rightarrow> (omap (\<lambda>_. ()) r, n))"

section \<open>Sending the log\<close>

definition MAX_ENTRIES_PER_RPC :: nat where
  "MAX_ENTRIES_PER_RPC = 5"

definition entry_json :: "log_entry \<Rightarrow> json" where
  "entry_json e = json_object [(''term'', JInteger (eterm e)), (''command'', JString (command e))]"

text \<open>The loop that collects at most so many entries from an index on.\<close>

fun collect_entries :: "log_entry list \<Rightarrow> int \<Rightarrow> nat \<Rightarrow> json list outcome" where
  "collect_entries lg i 0 = Ok []"
| "collect_entries lg i (Suc room) =
     (if len lg \<le> i then Ok []
      else if i < 0 then UB
      else omap (\<lambda>es. entry_json (lg ! nat i) # es) (collect_entries lg (i + 1) room))"

definition append_params :: "raft_node \<Rightarrow> int \<Rightarrow> json list \<Rightarrow> json" where
  "append_params n nextIdx es =
     (let prevLogIndex = nextIdx - 1;
          prevLogTerm = (if 0 \<le> prevLogIndex \<and> prevLogIndex < len (log n)
                         then eterm (log n ! nat prevLogIndex) else 0)
      in json_object
           [(''term'', JInteger (currentTerm n)), (''leaderId'', JString (nodeId n)),
            (''prevLogIndex'', JInteger prevLogIndex), (''prevLogTerm'', JInteger prevLogTerm),
            (''entries'', JArray es), (''leaderCommit'', JInteger (commitIndex n))])"

text \<open>
  The loop over the peers that enqueues one \<open>AppendEntries\<close> task for each; the three functions
  that send the log differ only in the closure \<open>mk\<close> they enqueue.
\<close>

type_synonym make_task = "string \<Rightarrow> int \<Rightarrow> json \<Rightarrow> int \<Rightarrow> int \<Rightarrow> int \<Rightarrow> task"

fun append_loop :: "make_task \<Rightarrow> string list \<Rightarrow> (raft_node, unit) action" where
  "append_loop mk [] n = (Ok (), n)"
| "append_loop mk (peerSpec # specs) n =
     (case split_peer peerSpec of
        None \<Rightarrow> append_loop mk specs n
      | Some (peerId, portText) \<Rightarrow>
          (case stoi portText of
             Ok peerPort \<Rightarrow>
               (let (nextIdx, m) = index_ref peerId (nextIndex n); n1 = n\<lparr>nextIndex := m\<rparr>
                in case collect_entries (log n) nextIdx MAX_ENTRIES_PER_RPC of
                     Ok es \<Rightarrow>
                       append_loop mk specs
                         (enqueue (mk peerId peerPort (append_params n1 nextIdx es) (currentTerm n) nextIdx (len es)) n1)
                   | r \<Rightarrow> (omap (\<lambda>_. ()) r, n1))
           | r \<Rightarrow> (omap (\<lambda>_. ()) r, n)))"

definition sendHeartbeatsInternal :: "env \<Rightarrow> (raft_node, unit) action" where
  "sendHeartbeatsInternal env n =
     (if role n \<noteq> LEADER then (Ok (), n)
      else abind (if peerAddrs n = [] then applyStateMachine env else append_loop HeartbeatTask (peerAddrs n))
             (\<lambda>_. modify restart_heartbeat) n)"

definition sendHeartbeats :: "env \<Rightarrow> (raft_node, unit) action" where
  "sendHeartbeats env n = sendHeartbeatsInternal env n"

definition replicateLog :: "env \<Rightarrow> (raft_node, unit) action" where
  "replicateLog env n =
     (if role n \<noteq> LEADER then (Ok (), n)
      else if peerAddrs n = [] then applyStateMachine env n
      else append_loop ReplicateTask (peerAddrs n) n)"

definition replicateLogInternal :: "env \<Rightarrow> (raft_node, unit) action" where
  "replicateLogInternal env n =
     (if role n \<noteq> LEADER then (Ok (), n)
      else if peerAddrs n = [] then applyStateMachine env n
      else append_loop ReplicateInternalTask (peerAddrs n) n)"

section \<open>Role changes\<close>

text \<open>A leader that steps down gives up the mutex while it stops the discovery service.\<close>

definition becomeFollower :: "env \<Rightarrow> int \<Rightarrow> raft_node \<Rightarrow> raft_node" where
  "becomeFollower env t n =
     (let n1 = n\<lparr>role := FOLLOWER, currentTerm := t, votedFor := [],
                 heartbeatTimer := timer_cancel (heartbeatTimer n)\<rparr>;
          n2 = resetElectionTimer env n1
      in if role n = LEADER then others env 1 (stopDiscoveryService (others env 0 n2)) else n2)"

definition init_leader_state :: "raft_node \<Rightarrow> raft_node" where
  "init_leader_state n =
     (let peerIds = map fst (List.map_filter split_peer (peerAddrs n))
      in n\<lparr>nextIndex := fold (\<lambda>p. AList.update p (len (log n))) peerIds (nextIndex n),
           matchIndex := fold (\<lambda>p. AList.update p (-1)) peerIds (matchIndex n)\<rparr>)"

definition becomeLeaderInternal :: "env \<Rightarrow> (raft_node, unit) action" where
  "becomeLeaderInternal env n =
     (if role n = LEADER then (Ok (), n)
      else abind (sendHeartbeatsInternal env)
             (\<lambda>_. modify (\<lambda>n. others env 1 (startDiscoveryService env (others env 0 n))))
             (init_leader_state (n\<lparr>electionTimer := timer_cancel (electionTimer n), role := LEADER\<rparr>)))"

text \<open>The loop of \<open>startElection\<close> that enqueues one \<open>RequestVote\<close> task for each peer.\<close>

definition vote_params :: "raft_node \<Rightarrow> json" where
  "vote_params n =
     json_object
       [(''term'', JInteger (currentTerm n)), (''candidateId'', JString (nodeId n)),
        (''lastLogIndex'', JInteger (lastLogIndex n)), (''lastLogTerm'', JInteger (lastLogTerm n))]"

fun vote_loop :: "nat \<Rightarrow> string list \<Rightarrow> (raft_node, unit) action" where
  "vote_loop election [] n = (Ok (), n)"
| "vote_loop election (peerSpec # specs) n =
     (case split_peer peerSpec of
        None \<Rightarrow> vote_loop election specs n
      | Some (peerId, portText) \<Rightarrow>
          (case stoi portText of
             Ok peerPort \<Rightarrow>
               vote_loop election specs
                 (enqueue (VoteTask peerId peerPort (vote_params n) (currentTerm n) (majority n) election) n)
           | r \<Rightarrow> (omap (\<lambda>_. ()) r, n)))"

definition startElection :: "env \<Rightarrow> (raft_node, unit) action" where
  "startElection env n =
     (if currentTerm n = INT_MAX then (UB, n)
      else let n1 = n\<lparr>role := CANDIDATE, currentTerm := currentTerm n + 1, votedFor := nodeId n\<rparr>;
               n2 = resetElectionTimer env n1;
               election = length (elections n2);
               n3 = n2\<lparr>elections := elections n2 @ [(1, False)]\<rparr>
           in if 1 \<ge> majority n3 then becomeLeaderInternal env n3
              else vote_loop election (peerAddrs n3) n3)"

definition becomeCandidate :: "env \<Rightarrow> (raft_node, unit) action" where
  "becomeCandidate env n = startElection env n"

definition becomeLeader :: "env \<Rightarrow> (raft_node, unit) action" where
  "becomeLeader env n = becomeLeaderInternal env n"

section \<open>Timer callbacks\<close>

definition election_callback :: "env \<Rightarrow> (raft_node, unit) action" where
  "election_callback env n =
     (if role n = FOLLOWER \<or> role n = CANDIDATE then startElection env n else (Ok (), n))"

definition heartbeat_callback :: "env \<Rightarrow> (raft_node, unit) action" where
  "heartbeat_callback env n = sendHeartbeatsInternal env n"

end
