(* ===== verification/Raft_Handlers.thy ===== *)
theory Raft_Handlers imports Raft_Node begin

text \<open>
  What a node does with messages (\<open>server/raft_node.cpp\<close>): the handlers of the two remote calls,
  the treatment of the responses to its own calls, and \<open>submitCommand\<close>. Requests and responses
  are the JSON values they are in the code, so every missing or ill-typed member is a branch.
\<close>

section \<open>RequestVote\<close>

definition vote_reply :: "int \<Rightarrow> bool \<Rightarrow> json" where
  "vote_reply t granted = json_object [(''term'', JInteger t), (''voteGranted'', JBoolean granted)]"

definition handle_vote :: "env \<Rightarrow> int \<Rightarrow> string \<Rightarrow> int \<Rightarrow> int \<Rightarrow> (raft_node, json) action" where
  "handle_vote env t candidate candIndex candTerm n =
     (if t < currentTerm n then (Ok (vote_reply (currentTerm n) False), n)
      else let n1 = (if t > currentTerm n then becomeFollower env t n else n);
               logUpToDate = (candTerm > lastLogTerm n1 \<or>
                              (candTerm = lastLogTerm n1 \<and> candIndex \<ge> lastLogIndex n1))
           in if (votedFor n1 = [] \<or> votedFor n1 = candidate) \<and> logUpToDate
              then (Ok (vote_reply (if t > currentTerm n then currentTerm n1 else currentTerm n) True),
                    resetElectionTimer env (n1\<lparr>votedFor := candidate\<rparr>))
              else (Ok (vote_reply (if t > currentTerm n then currentTerm n1 else currentTerm n) False), n1))"

definition onRequestVote :: "env \<Rightarrow> json \<Rightarrow> (raft_node, json) action" where
  "onRequestVote env req =
     abind (lift (int_at req ''term'')) (\<lambda>t.
     abind (lift (string_at req ''candidateId'')) (\<lambda>candidate.
     abind (lift (int_at req ''lastLogIndex'')) (\<lambda>candIndex.
     abind (lift (int_at req ''lastLogTerm'')) (\<lambda>candTerm.
     handle_vote env t candidate candIndex candTerm))))"

section \<open>AppendEntries\<close>

definition append_reply :: "int \<Rightarrow> bool \<Rightarrow> json" where
  "append_reply t success = json_object [(''term'', JInteger t), (''success'', JBoolean success)]"

definition conflict_reply :: "int \<Rightarrow> int \<Rightarrow> json" where
  "conflict_reply t i =
     json_object [(''term'', JInteger t), (''success'', JBoolean False), (''conflictIndex'', JInteger i)]"

text \<open>\<open>log.push_back({entry["term"], entry["command"]})\<close>.\<close>

definition entry_of_json :: "json \<Rightarrow> log_entry outcome" where
  "entry_of_json e =
     obind (int_at e ''term'') (\<lambda>t. omap (\<lambda>c. \<lparr>eterm = t, command = c\<rparr>) (string_at e ''command''))"

definition push_entry :: "json \<Rightarrow> (log_entry list, unit) action" where
  "push_entry e = abind (lift (entry_of_json e)) (\<lambda>x. modify (\<lambda>lg. lg @ [x]))"

text \<open>The loop over the entries; a negative index that reads the log is undefined behaviour.\<close>

fun append_entries_loop :: "int \<Rightarrow> json list \<Rightarrow> (log_entry list, unit) action" where
  "append_entries_loop index [] lg = (Ok (), lg)"
| "append_entries_loop index (entry # entries) lg =
     (if index < len lg then
        (if index < 0 then (UB, lg)
         else abind (lift (json_at entry ''term'')) (\<lambda>jt.
                if int_neq_json (eterm (lg ! nat index)) jt
                then abind (modify (take (nat index))) (\<lambda>_.
                     abind (push_entry entry) (\<lambda>_. append_entries_loop (index + 1) entries))
                else append_entries_loop (index + 1) entries) lg)
      else abind (push_entry entry) (\<lambda>_. append_entries_loop (index + 1) entries) lg)"

text \<open>The part of the handler for a request whose term is accepted, up to the reply.\<close>

definition update_commit :: "env \<Rightarrow> json \<Rightarrow> (raft_node, unit) action" where
  "update_commit env req n =
     (if json_contains req ''leaderCommit'' then
        abind (lift (int_at req ''leaderCommit'')) (\<lambda>leaderCommit n.
          if leaderCommit > commitIndex n
          then applyStateMachine env (n\<lparr>commitIndex := min leaderCommit (len (log n) - 1)\<rparr>)
          else (Ok (), n)) n
      else (Ok (), n))"

definition log_conflict :: "raft_node \<Rightarrow> int \<Rightarrow> int \<Rightarrow> bool" where
  "log_conflict n prevLogIndex prevLogTerm \<longleftrightarrow>
     0 \<le> prevLogIndex \<and>
     (len (log n) \<le> prevLogIndex \<or> eterm (log n ! nat prevLogIndex) \<noteq> prevLogTerm)"

text \<open>A call on the member \<open>log\<close> of the node.\<close>

definition on_log :: "(log_entry list, 'a) action \<Rightarrow> (raft_node, 'a) action" where
  "on_log m n = (case m (log n) of (r, lg) \<Rightarrow> (r, n\<lparr>log := lg\<rparr>))"

definition store_entries :: "env \<Rightarrow> json \<Rightarrow> int \<Rightarrow> int \<Rightarrow> json \<Rightarrow> int \<Rightarrow> (raft_node, json) action" where
  "store_entries env req prevLogIndex prevLogTerm entries t0 n =
     (if log_conflict n prevLogIndex prevLogTerm
      then (Ok (conflict_reply t0 (min prevLogIndex (len (log n)))), resetElectionTimer env n)
      else abind (on_log (append_entries_loop (prevLogIndex + 1) (json_items entries))) (\<lambda>_.
           abind (update_commit env req) (\<lambda>_ n. (Ok (append_reply (currentTerm n) True), n))) n)"

definition handle_append :: "env \<Rightarrow> json \<Rightarrow> int \<Rightarrow> (raft_node, json) action" where
  "handle_append env req t0 =
     (if json_contains req ''prevLogIndex'' \<and> json_contains req ''prevLogTerm'' \<and> json_contains req ''entries''
      then abind (lift (int_at req ''prevLogIndex'')) (\<lambda>prevLogIndex.
           abind (lift (int_at req ''prevLogTerm'')) (\<lambda>prevLogTerm.
           abind (lift (json_at req ''entries'')) (\<lambda>entries.
           store_entries env req prevLogIndex prevLogTerm entries t0)))
      else (\<lambda>n. (Ok (append_reply (currentTerm n) True), n)))"

text \<open>
  The role part: the node that goes on with the request, or \<open>None\<close> for a leader that rejects a
  second leader of its term. \<open>operator<\<close> on strings compares the ids.
\<close>

definition accept_leader :: "env \<Rightarrow> int \<Rightarrow> string \<Rightarrow> raft_node \<Rightarrow> raft_node option" where
  "accept_leader env t leaderId n =
     (if t > currentTerm n then Some (becomeFollower env t n)
      else if role n = CANDIDATE then Some (becomeFollower env t n)
      else if role n = LEADER then
        (if leaderId < nodeId n then Some (becomeFollower env t n) else None)
      else Some (resetElectionTimer env n))"

definition onAppendEntries :: "env \<Rightarrow> json \<Rightarrow> (raft_node, json) action" where
  "onAppendEntries env req =
     abind (lift (int_at req ''term'')) (\<lambda>t.
     abind (lift (string_at req ''leaderId'')) (\<lambda>leaderId n.
       if t < currentTerm n then (Ok (append_reply (currentTerm n) False), n)
       else case accept_leader env t leaderId n of
              None \<Rightarrow> (Ok (append_reply (currentTerm n) False), n)
            | Some n1 \<Rightarrow> handle_append env req (currentTerm n) n1))"

section \<open>Responses\<close>

text \<open>The closure of a \<open>RequestVote\<close> task, after its call returned \<open>resp\<close>.\<close>

definition count_vote :: "env \<Rightarrow> int \<Rightarrow> nat \<Rightarrow> (raft_node, unit) action" where
  "count_vote env needed election n =
     (let (votes0, won) = elections n ! election; votes = votes0 + 1
      in if votes \<ge> needed \<and> \<not> won
         then becomeLeaderInternal env (n\<lparr>elections := (elections n)[election := (votes, True)]\<rparr>)
         else (Ok (), n\<lparr>elections := (elections n)[election := (votes, won)]\<rparr>))"

definition vote_outcome :: "env \<Rightarrow> int \<Rightarrow> int \<Rightarrow> nat \<Rightarrow> int \<Rightarrow> bool \<Rightarrow> (raft_node, unit) action" where
  "vote_outcome env t needed election respTerm granted n =
     (if respTerm > currentTerm n then (Ok (), becomeFollower env respTerm n)
      else if role n \<noteq> CANDIDATE \<or> currentTerm n \<noteq> t then (Ok (), n)
      else if granted then count_vote env needed election n else (Ok (), n))"

definition vote_response :: "env \<Rightarrow> int \<Rightarrow> int \<Rightarrow> nat \<Rightarrow> json outcome \<Rightarrow> (raft_node, unit) action" where
  "vote_response env t needed election response = swallow
     (abind (lift response) (\<lambda>resp.
      abind (lift (dump_indent 4 resp)) (\<lambda>_.
      if \<not> json_contains resp ''term'' \<or> \<not> json_contains resp ''voteGranted'' then ret ()
      else abind (lift (int_at resp ''term'')) (\<lambda>respTerm.
           abind (lift (obind (json_at resp ''voteGranted'') get_bool)) (\<lambda>granted.
           vote_outcome env t needed election respTerm granted)))))"

text \<open>What the leader does with the indices of a peer once a batch arrived, or was refused.\<close>

definition replicated :: "env \<Rightarrow> string \<Rightarrow> int \<Rightarrow> int \<Rightarrow> (raft_node, unit) action" where
  "replicated env peerId nextIdx entriesCount n =
     (let m = nextIdx + entriesCount - 1
      in applyStateMachine env
           (n\<lparr>matchIndex := AList.update peerId m (matchIndex n),
              nextIndex := AList.update peerId (m + 1) (nextIndex n)\<rparr>))"

definition backtrack :: "string \<Rightarrow> json \<Rightarrow> (raft_node, unit) action" where
  "backtrack peerId resp n =
     (let (next, m) = index_ref peerId (nextIndex n); n1 = n\<lparr>nextIndex := m\<rparr>
      in if next > 0 then
           (if json_contains resp ''conflictIndex''
            then abind (lift (int_at resp ''conflictIndex'')) (\<lambda>conflictIdx.
                   modify (\<lambda>n. n\<lparr>nextIndex := AList.update peerId (max 0 conflictIdx) (nextIndex n)\<rparr>)) n1
            else (Ok (), n1\<lparr>nextIndex := AList.update peerId (next - 1) m\<rparr>))
         else (Ok (), n1))"

text \<open>The closure of a heartbeat task.\<close>

definition heartbeat_outcome ::
    "env \<Rightarrow> string \<Rightarrow> int \<Rightarrow> int \<Rightarrow> int \<Rightarrow> json \<Rightarrow> int \<Rightarrow> bool \<Rightarrow> (raft_node, unit) action" where
  "heartbeat_outcome env peerId t nextIdx entriesCount resp respTerm success n =
     (if respTerm > currentTerm n then (Ok (), becomeFollower env respTerm n)
      else if role n \<noteq> LEADER \<or> currentTerm n \<noteq> t then (Ok (), n)
      else if success \<and> entriesCount > 0 then replicated env peerId nextIdx entriesCount n
      else if \<not> success then backtrack peerId resp n
      else (Ok (), n))"

definition heartbeat_response ::
    "env \<Rightarrow> string \<Rightarrow> int \<Rightarrow> int \<Rightarrow> int \<Rightarrow> json outcome \<Rightarrow> (raft_node, unit) action" where
  "heartbeat_response env peerId t nextIdx entriesCount response = swallow
     (abind (lift response) (\<lambda>resp.
      if json_contains resp ''term'' then
        abind (lift (int_at resp ''term'')) (\<lambda>respTerm.
        abind (lift (value_bool resp ''success'' False)) (\<lambda>success.
        heartbeat_outcome env peerId t nextIdx entriesCount resp respTerm success))
      else ret ()))"

text \<open>
  The closures of the tasks of \<open>replicateLog\<close> and \<open>replicateLogInternal\<close>: the same text twice
  in the code.
\<close>

definition replicate_outcome ::
    "env \<Rightarrow> string \<Rightarrow> int \<Rightarrow> int \<Rightarrow> int \<Rightarrow> json \<Rightarrow> int \<Rightarrow> bool \<Rightarrow> (raft_node, unit) action" where
  "replicate_outcome env peerId t nextIdx entriesCount resp respTerm success n =
     (if respTerm > currentTerm n then (Ok (), becomeFollower env respTerm n)
      else if role n \<noteq> LEADER \<or> currentTerm n \<noteq> t then (Ok (), n)
      else if success then
        (if entriesCount > 0 then replicated env peerId nextIdx entriesCount n else (Ok (), n))
      else backtrack peerId resp n)"

definition replicate_response ::
    "env \<Rightarrow> string \<Rightarrow> int \<Rightarrow> int \<Rightarrow> int \<Rightarrow> json outcome \<Rightarrow> (raft_node, unit) action" where
  "replicate_response env peerId t nextIdx entriesCount response = swallow
     (abind (lift response) (\<lambda>resp.
      if \<not> json_contains resp ''term'' \<or> \<not> json_contains resp ''success'' then ret ()
      else abind (lift (int_at resp ''term'')) (\<lambda>respTerm.
           abind (lift (obind (json_at resp ''success'') get_bool)) (\<lambda>success.
           replicate_outcome env peerId t nextIdx entriesCount resp respTerm success))))"

definition replicate_internal_response ::
    "env \<Rightarrow> string \<Rightarrow> int \<Rightarrow> int \<Rightarrow> int \<Rightarrow> json outcome \<Rightarrow> (raft_node, unit) action" where
  "replicate_internal_response env peerId t nextIdx entriesCount response = swallow
     (abind (lift response) (\<lambda>resp.
      if \<not> json_contains resp ''term'' \<or> \<not> json_contains resp ''success'' then ret ()
      else abind (lift (int_at resp ''term'')) (\<lambda>respTerm.
           abind (lift (obind (json_at resp ''success'') get_bool)) (\<lambda>success.
           replicate_outcome env peerId t nextIdx entriesCount resp respTerm success))))"

text \<open>A task of the thread pool, given the outcome of its remote call.\<close>

fun run_task :: "env \<Rightarrow> task \<Rightarrow> json outcome \<Rightarrow> (raft_node, unit) action" where
  "run_task env (VoteTask peerId peerPort params t needed election) response =
     vote_response env t needed election response"
| "run_task env (HeartbeatTask peerId peerPort params t nextIdx entriesCount) response =
     heartbeat_response env peerId t nextIdx entriesCount response"
| "run_task env (ReplicateTask peerId peerPort params t nextIdx entriesCount) response =
     replicate_response env peerId t nextIdx entriesCount response"
| "run_task env (ReplicateInternalTask peerId peerPort params t nextIdx entriesCount) response =
     replicate_internal_response env peerId t nextIdx entriesCount response"

section \<open>Commands, start and end\<close>

definition submitCommand :: "env \<Rightarrow> string \<Rightarrow> (raft_node, bool) action" where
  "submitCommand env c n =
     (if role n \<noteq> LEADER then (Ok False, n)
      else abind (modify (\<lambda>n. n\<lparr>log := log n @ [\<lparr>eterm = currentTerm n, command = c\<rparr>]\<rparr>)) (\<lambda>_.
           abind (replicateLogInternal env) (\<lambda>_.
           abind (\<lambda>n. if peerAddrs n = [] then applyStateMachine env n else (Ok (), n)) (\<lambda>_.
           ret True))) n)"

definition raft_start :: "env \<Rightarrow> raft_node \<Rightarrow> raft_node" where
  "raft_start env n = resetElectionTimer env (n\<lparr>role := FOLLOWER\<rparr>)"

text \<open>The destructor joins the discovery thread.\<close>

definition raft_destroy :: "raft_node \<Rightarrow> raft_node" where
  "raft_destroy n =
     (let n1 = stopDiscoveryService n
      in if discoveryThread n1 then n1\<lparr>discoveryThread := False\<rparr> else n1)"

section \<open>Example nodes\<close>

text \<open>Surroundings in which nothing else happens, and a cluster of three nodes with short logs.\<close>

definition calm_env :: env where
  "calm_env = \<lparr>draw = (\<lambda>k. k), clock = (\<lambda>i. 100 + int i), server_socket = Some 3, others = (\<lambda>i n. n)\<rparr>"

definition example_node :: raft_node where
  "example_node = raft_start calm_env (raft_node_new ''n1'' 5001 [''n2:5002'', ''n3:5003''])"

definition example_log :: "log_entry list" where
  "example_log = [\<lparr>eterm = 1, command = ''SET w1 active''\<rparr>, \<lparr>eterm = 1, command = ''SET w2 active''\<rparr>]"

definition example_candidate :: raft_node where
  "example_candidate =
     (raft_node_new ''n2'' 5002 [''n1:5001'', ''n3:5003''])
       \<lparr>currentTerm := 2, role := CANDIDATE, votedFor := ''n2'', log := example_log\<rparr>"

definition example_leader :: raft_node where
  "example_leader =
     (raft_node_new ''n2'' 5002 [''n1:5001'', ''n3:5003''])
       \<lparr>currentTerm := 2, role := LEADER, votedFor := ''n2'', log := example_log,
        nextIndex := [(''n1'', 0), (''n3'', 2)], matchIndex := [(''n1'', -1), (''n3'', 1)]\<rparr>"

text \<open>A leader whose entries are of its own term, and a follower that has none of them.\<close>

definition committing_leader :: raft_node where
  "committing_leader = example_leader\<lparr>currentTerm := 1\<rparr>"

lemma calm_env_simps [simp]:
  "others calm_env i n = n" "draw calm_env k = k" "clock calm_env j = 100 + int j"
  "server_socket calm_env = Some 3"
  by (simp_all add: calm_env_def)

end
