(* ===== verification/Raft_Ballot.thy ===== *)
theory Raft_Ballot imports Raft_Handlers begin

text \<open>
  Elections seen abstractly. A node's ballot is its term, its vote, its role and its own id;
  four moves change it. The operations of \<open>Raft_Node\<close> and \<open>Raft_Handlers\<close> are shown to make only
  such moves, whatever the request or response, and the facts about votes and terms follow by
  rule induction on the moves. What other threads do while an operation gives up the mutex is
  assumed to be such moves as well, as it consists of the same operations.
\<close>

section \<open>The automaton\<close>

record ballot =
  bterm :: int
  bvote :: string
  brole :: role
  bself :: string

inductive ballot_step :: "ballot \<Rightarrow> ballot \<Rightarrow> bool" where
  step_down: "bterm b \<le> t \<Longrightarrow> (t = bterm b \<Longrightarrow> brole b \<noteq> FOLLOWER) \<Longrightarrow>
    ballot_step b (b\<lparr>bterm := t, bvote := [], brole := FOLLOWER\<rparr>)"
| grant: "bvote b = [] \<or> bvote b = c \<Longrightarrow> ballot_step b (b\<lparr>bvote := c\<rparr>)"
| stand: "brole b \<noteq> LEADER \<Longrightarrow>
    ballot_step b (b\<lparr>bterm := bterm b + 1, bvote := bself b, brole := CANDIDATE\<rparr>)"
| win: "brole b = CANDIDATE \<Longrightarrow> ballot_step b (b\<lparr>brole := LEADER\<rparr>)"

abbreviation ballot_steps :: "ballot \<Rightarrow> ballot \<Rightarrow> bool" where
  "ballot_steps \<equiv> ballot_step\<^sup>*\<^sup>*"

definition ballot_of :: "raft_node \<Rightarrow> ballot" where
  "ballot_of n = \<lparr>bterm = currentTerm n, bvote = votedFor n, brole = role n, bself = nodeId n\<rparr>"

lemma ballot_of_simps [simp]:
  "bterm (ballot_of n) = currentTerm n" "bvote (ballot_of n) = votedFor n"
  "brole (ballot_of n) = role n" "bself (ballot_of n) = nodeId n"
  by (simp_all add: ballot_of_def)

text \<open>A node that stands or leads has voted for itself, once its term is not the initial one.\<close>

definition self_vote :: "ballot \<Rightarrow> bool" where
  "self_vote b \<longleftrightarrow> (brole b \<noteq> FOLLOWER \<longrightarrow> bvote b = bself b)"

lemma ballot_steps_term: "ballot_steps b b' \<Longrightarrow> bterm b \<le> bterm b' \<and> bself b' = bself b"
proof (induction rule: rtranclp_induct)
  case (step b' b'')
  from step.hyps(2) show ?case using step.IH by (cases rule: ballot_step.cases) auto
qed simp

lemma ballot_steps_self_vote:
  "ballot_steps b b' \<Longrightarrow> bself b \<noteq> [] \<Longrightarrow> self_vote b \<Longrightarrow> self_vote b'"
proof (induction rule: rtranclp_induct)
  case (step b' b'')
  then have "bself b' \<noteq> []" using ballot_steps_term by simp
  with step.hyps(2) step.IH step.prems show ?case
    by (cases rule: ballot_step.cases) (auto simp: self_vote_def)
qed simp

text \<open>The vote of a follower, and the role of a follower, last as long as the term.\<close>

lemma ballot_steps_follower:
  "ballot_steps b b' \<Longrightarrow> brole b = FOLLOWER \<Longrightarrow> bterm b' = bterm b \<Longrightarrow>
   brole b' = FOLLOWER \<and> (bvote b \<noteq> [] \<longrightarrow> bvote b' = bvote b)"
proof (induction rule: rtranclp_induct)
  case (step b' b'')
  have "bterm b \<le> bterm b'" "bterm b' \<le> bterm b''"
    using ballot_steps_term step.hyps r_into_rtranclp [of ballot_step] by metis+
  then have "bterm b' = bterm b" using step.prems(2) by simp
  with step have IH: "brole b' = FOLLOWER \<and> (bvote b \<noteq> [] \<longrightarrow> bvote b' = bvote b)" by simp
  from step.hyps(2) show ?case
    using IH step.prems(2) \<open>bterm b' = bterm b\<close> by (cases rule: ballot_step.cases) auto
qed simp

section \<open>The operations make only these moves\<close>

definition ballot_env :: "env \<Rightarrow> bool" where
  "ballot_env env \<longleftrightarrow> (\<forall>i n. ballot_steps (ballot_of n) (ballot_of (others env i n)))"

text \<open>\<open>still m\<close>: the operation leaves the ballot as it is. \<open>moves m\<close>: it makes moves.\<close>

definition still :: "(raft_node, 'a) action \<Rightarrow> bool" where
  "still m \<longleftrightarrow> (\<forall>n. ballot_of (snd (m n)) = ballot_of n)"

definition moves :: "(raft_node, 'a) action \<Rightarrow> bool" where
  "moves m \<longleftrightarrow> (\<forall>n. ballot_steps (ballot_of n) (ballot_of (snd (m n))))"

lemma still_moves: "still m \<Longrightarrow> moves m"
  by (simp add: still_def moves_def)

lemma movesD: "moves m \<Longrightarrow> m n = (r, n') \<Longrightarrow> ballot_steps (ballot_of n) (ballot_of n')"
  by (metis moves_def snd_conv)

lemma stillD: "still m \<Longrightarrow> m n = (r, n') \<Longrightarrow> ballot_of n' = ballot_of n"
  by (metis still_def snd_conv)

lemma abind_snd:
  obtains "snd (abind m f s) = snd (m s)" | a where "fst (m s) = Ok a" "abind m f s = f a (snd (m s))"
  by (cases "m s"; cases "fst (m s)") auto

declare abind.simps [simp del]

lemma moves_abind [intro]: "moves m \<Longrightarrow> (\<And>a. moves (f a)) \<Longrightarrow> moves (abind m f)"
  unfolding moves_def by (metis abind_snd rtranclp_trans)

lemma still_abind [intro]: "still m \<Longrightarrow> (\<And>a. still (f a)) \<Longrightarrow> still (abind m f)"
  unfolding still_def by (metis abind_snd)

lemma still_simps [simp, intro]: "still (lift r)" "still (ret a)" "still (\<lambda>n. (r, n))"
  by (simp_all add: still_def lift_def ret_def)

lemma moves_simps [simp, intro]: "moves (lift r)" "moves (ret a)" "moves (\<lambda>n. (r, n))"
  by (simp_all add: still_moves)

lemma still_swallow: "still m \<Longrightarrow> still (swallow m)"
  by (auto simp: still_def swallow_def split: prod.split outcome.split) (metis snd_conv)+

lemma moves_swallow: "moves m \<Longrightarrow> moves (swallow m)"
  by (auto simp: moves_def swallow_def split: prod.split outcome.split) (metis snd_conv)+

lemma ballot_of_updates [simp]:
  "ballot_of (n\<lparr>log := lg\<rparr>) = ballot_of n" "ballot_of (n\<lparr>commitIndex := i\<rparr>) = ballot_of n"
  "ballot_of (n\<lparr>lastApplied := i\<rparr>) = ballot_of n" "ballot_of (n\<lparr>nextIndex := m\<rparr>) = ballot_of n"
  "ballot_of (n\<lparr>matchIndex := m\<rparr>) = ballot_of n" "ballot_of (n\<lparr>stateMachine := sm\<rparr>) = ballot_of n"
  "ballot_of (n\<lparr>electionTimer := tm\<rparr>) = ballot_of n" "ballot_of (n\<lparr>heartbeatTimer := tm\<rparr>) = ballot_of n"
  "ballot_of (n\<lparr>discoverySocket := i\<rparr>) = ballot_of n" "ballot_of (n\<lparr>runningDiscoveryService := b\<rparr>) = ballot_of n"
  "ballot_of (n\<lparr>discoveryThread := b\<rparr>) = ballot_of n" "ballot_of (n\<lparr>rpcPool := ts\<rparr>) = ballot_of n"
  "ballot_of (n\<lparr>elections := es\<rparr>) = ballot_of n" "ballot_of (n\<lparr>draws := k\<rparr>) = ballot_of n"
  by (simp_all add: ballot_of_def)

lemma ballot_reset [simp]: "ballot_of (resetElectionTimer env n) = ballot_of n"
  by (simp add: resetElectionTimer_def Let_def)

lemma ballot_discovery [simp]:
  "ballot_of (startDiscoveryService env n) = ballot_of n" "ballot_of (stopDiscoveryService n) = ballot_of n"
  by (simp_all add: startDiscoveryService_def stopDiscoveryService_def split: option.split)

lemma still_apply_loop: "still (apply_loop env)"
proof -
  have "ballot_of (snd (apply_loop env n)) = ballot_of n" for n
  proof (induction env n rule: apply_loop.induct)
    case (1 env n)
    then show ?case
      by (subst apply_loop.simps) (auto simp: Let_def split: prod.split outcome.split)
  qed
  then show ?thesis by (simp add: still_def)
qed

lemma still_apply: "still (applyStateMachine env)"
  using still_apply_loop [of env] by (auto simp: still_def applyStateMachine_def split: outcome.split)

lemma still_append_loop: "still (append_loop mk specs)"
proof -
  have "ballot_of (snd (append_loop mk specs n)) = ballot_of n" for n
  proof (induction mk specs n rule: append_loop.induct)
    case (2 mk spec specs n)
    then show ?case
      by (auto simp: Let_def enqueue_def split: option.split prod.split outcome.split)
  qed simp
  then show ?thesis by (simp add: still_def)
qed

lemma still_vote_loop: "still (vote_loop e specs)"
proof -
  have "ballot_of (snd (vote_loop e specs n)) = ballot_of n" for n
  proof (induction e specs n rule: vote_loop.induct)
    case (2 e spec specs n)
    then show ?case
      by (auto simp: enqueue_def split: option.split prod.split outcome.split)
  qed simp
  then show ?thesis by (simp add: still_def)
qed

lemma still_heartbeats: "still (sendHeartbeatsInternal env)"
proof -
  have *: "still (abind (if peerAddrs n = [] then applyStateMachine env else append_loop HeartbeatTask (peerAddrs n))
      (\<lambda>_. modify restart_heartbeat))" for n
  proof (intro still_abind)
    show "still (if peerAddrs n = [] then applyStateMachine env else append_loop HeartbeatTask (peerAddrs n))"
      by (simp add: still_apply still_append_loop)
    show "still (modify restart_heartbeat)"
      by (simp add: still_def modify_def restart_heartbeat_def)
  qed
  have "ballot_of (snd (sendHeartbeatsInternal env n)) = ballot_of n" for n
    using * [of n] by (cases "peerAddrs n = []") (simp_all add: still_def sendHeartbeatsInternal_def)
  then show ?thesis by (simp add: still_def)
qed

lemma still_replicate: "still (replicateLog env)" "still (replicateLogInternal env)"
  using still_apply [of env] still_append_loop [of ReplicateTask] still_append_loop [of ReplicateInternalTask]
  by (auto simp: still_def replicateLog_def replicateLogInternal_def)

lemma moves_becomeFollower:
  assumes "ballot_env env" "currentTerm n \<le> t" "t = currentTerm n \<Longrightarrow> role n \<noteq> FOLLOWER"
  shows "ballot_steps (ballot_of n) (ballot_of (becomeFollower env t n))"
proof -
  define n2 where "n2 = resetElectionTimer env (n\<lparr>role := FOLLOWER, currentTerm := t, votedFor := [],
      heartbeatTimer := timer_cancel (heartbeatTimer n)\<rparr>)"
  have "ballot_step (ballot_of n) (ballot_of n2)"
    using ballot_step.step_down [of "ballot_of n" t] assms(2,3) by (simp add: n2_def) (simp add: ballot_of_def)
  moreover have "ballot_steps (ballot_of n2) (ballot_of (others env 1 (stopDiscoveryService (others env 0 n2))))"
    using assms(1) ballot_discovery(2) by (metis ballot_env_def rtranclp_trans)
  ultimately show ?thesis
    by (auto simp: becomeFollower_def Let_def n2_def [symmetric])
qed

lemma moves_becomeLeader:
  assumes "ballot_env env" "role n = CANDIDATE"
  shows "ballot_steps (ballot_of n) (ballot_of (snd (becomeLeaderInternal env n)))"
proof -
  let ?n1 = "init_leader_state (n\<lparr>electionTimer := timer_cancel (electionTimer n), role := LEADER\<rparr>)"
  let ?gap = "modify (\<lambda>n. others env 1 (startDiscoveryService env (others env 0 n)))"
  have win: "ballot_step (ballot_of n) (ballot_of ?n1)"
    using ballot_step.win [of "ballot_of n"] assms(2)
    by (simp add: init_leader_state_def Let_def) (simp add: ballot_of_def)
  have o: "ballot_steps (ballot_of k) (ballot_of (others env i k))" for i k
    using assms(1) by (simp add: ballot_env_def)
  have "ballot_steps (ballot_of k) (ballot_of (others env 1 (startDiscoveryService env (others env 0 k))))" for k
    using rtranclp_trans [OF o [of k 0] o [of "startDiscoveryService env (others env 0 k)" 1, unfolded ballot_discovery]] .
  then have "moves ?gap" by (simp add: moves_def modify_def)
  then have "moves (abind (sendHeartbeatsInternal env) (\<lambda>_. ?gap))"
    using still_moves [OF still_heartbeats] by blast
  moreover have "becomeLeaderInternal env n = abind (sendHeartbeatsInternal env) (\<lambda>_. ?gap) ?n1"
    using assms(2) by (simp only: becomeLeaderInternal_def role.distinct if_False)
  ultimately have "ballot_steps (ballot_of ?n1) (ballot_of (snd (becomeLeaderInternal env n)))"
    by (simp add: moves_def)
  with win show ?thesis by (rule converse_rtranclp_into_rtranclp)
qed

lemma moves_startElection:
  assumes env: "ballot_env env" and "role n \<noteq> LEADER"
  shows "ballot_steps (ballot_of n) (ballot_of (snd (startElection env n)))"
proof (cases "currentTerm n = INT_MAX")
  case False
  define n2 where "n2 = resetElectionTimer env (n\<lparr>role := CANDIDATE, currentTerm := currentTerm n + 1, votedFor := nodeId n\<rparr>)"
  define n3 where "n3 = n2\<lparr>elections := elections n2 @ [(1, False)]\<rparr>"
  have eq: "startElection env n = (if 1 \<ge> majority n3 then becomeLeaderInternal env n3
      else vote_loop (length (elections n2)) (peerAddrs n3) n3)"
    using False by (simp add: startElection_def Let_def n3_def n2_def)
  have "ballot_step (ballot_of n) (ballot_of n3)"
    using ballot_step.stand [of "ballot_of n"] assms(2) by (simp add: n3_def n2_def) (simp add: ballot_of_def)
  moreover have "role n3 = CANDIDATE"
    by (simp add: n3_def n2_def resetElectionTimer_def Let_def)
  then have "ballot_steps (ballot_of n3) (ballot_of (snd (startElection env n)))"
    using moves_becomeLeader [OF env, of n3] still_moves [OF still_vote_loop]
    by (simp add: eq moves_def)
  ultimately show ?thesis by (rule converse_rtranclp_into_rtranclp)
qed (simp add: startElection_def)

lemma moves_callbacks:
  assumes "ballot_env env"
  shows "moves (election_callback env)" "moves (heartbeat_callback env)"
proof -
  show "moves (election_callback env)"
    using moves_startElection [OF assms] by (auto simp: moves_def election_callback_def)
  show "moves (heartbeat_callback env)"
    using still_moves [OF still_heartbeats] by (simp add: moves_def heartbeat_callback_def)
qed

lemma moves_handle_vote:
  assumes "ballot_env env"
  shows "moves (handle_vote env t candidate i lt)"
proof -
  have "ballot_steps (ballot_of n) (ballot_of (snd (handle_vote env t candidate i lt n)))" for n
  proof -
    define n1 where "n1 = (if t > currentTerm n then becomeFollower env t n else n)"
    have 1: "ballot_steps (ballot_of n) (ballot_of n1)"
      using moves_becomeFollower [OF assms, of n t] by (simp add: n1_def)
    have "ballot_step (ballot_of n1) (ballot_of (resetElectionTimer env (n1\<lparr>votedFor := candidate\<rparr>)))"
        if "votedFor n1 = [] \<or> votedFor n1 = candidate"
      using ballot_step.grant [of "ballot_of n1" candidate] that by simp (simp add: ballot_of_def)
    with 1 show ?thesis
      by (auto simp: handle_vote_def Let_def n1_def [symmetric] intro: rtranclp.rtrancl_into_rtrancl)
  qed
  then show ?thesis by (simp add: moves_def)
qed

lemma moves_onRequestVote: "ballot_env env \<Longrightarrow> moves (onRequestVote env req)"
  unfolding onRequestVote_def by (intro moves_abind moves_simps moves_handle_vote)

lemma still_on_log: "still (on_log m)"
  by (auto simp: still_def on_log_def split: prod.split)

lemma still_update_commit: "still (update_commit env req)"
proof -
  have "still (\<lambda>n. if i > commitIndex n then applyStateMachine env (n\<lparr>commitIndex := min i (len (log n) - 1)\<rparr>)
      else (Ok (), n))" for i
    using still_apply [of env] by (simp add: still_def)
  then have "still (abind (lift (int_at req ''leaderCommit'')) (\<lambda>leaderCommit n.
      if leaderCommit > commitIndex n
      then applyStateMachine env (n\<lparr>commitIndex := min leaderCommit (len (log n) - 1)\<rparr>) else (Ok (), n)))"
    by blast
  then show ?thesis by (simp add: still_def update_commit_def)
qed

lemma still_store_entries: "still (store_entries env req p pt entries t0)"
proof -
  have "still (\<lambda>n. (Ok (append_reply (currentTerm n) True), n))" by (simp add: still_def)
  then have "still (abind (on_log (append_entries_loop (p + 1) (json_items entries))) (\<lambda>_.
      abind (update_commit env req) (\<lambda>_ n. (Ok (append_reply (currentTerm n) True), n))))"
    by (intro still_abind still_on_log still_update_commit)
  then show ?thesis by (simp add: still_def store_entries_def)
qed

lemma still_handle_append: "still (handle_append env req t0)"
  unfolding handle_append_def
  by (auto intro!: still_abind still_store_entries simp: still_def [of "\<lambda>n. (Ok (append_reply (currentTerm n) True), n)"])

lemma moves_onAppendEntries:
  assumes "ballot_env env"
  shows "moves (onAppendEntries env req)"
  unfolding onAppendEntries_def
proof (intro moves_abind moves_simps)
  fix t leaderId
  have "ballot_steps (ballot_of n) (ballot_of n1)"
    if "\<not> t < currentTerm n" "accept_leader env t leaderId n = Some n1" for n n1
    using that moves_becomeFollower [OF assms, of n t] by (auto simp: accept_leader_def split: if_splits)
  then show "moves (\<lambda>n. if t < currentTerm n then (Ok (append_reply (currentTerm n) False), n)
      else case accept_leader env t leaderId n of None \<Rightarrow> (Ok (append_reply (currentTerm n) False), n)
        | Some n1 \<Rightarrow> handle_append env req (currentTerm n) n1)"
    using still_handle_append by (auto simp: moves_def still_def split: option.split)
qed

lemma moves_count_vote:
  assumes "ballot_env env" "role n = CANDIDATE"
  shows "ballot_steps (ballot_of n) (ballot_of (snd (count_vote env needed e n)))"
proof -
  have "ballot_steps (ballot_of n) (ballot_of (snd (becomeLeaderInternal env (n\<lparr>elections := es\<rparr>))))" for es
    using moves_becomeLeader [OF assms(1), of "n\<lparr>elections := es\<rparr>"] assms(2) by simp
  then show ?thesis by (auto simp: count_vote_def Let_def split: prod.split)
qed

lemma moves_vote_outcome:
  assumes "ballot_env env"
  shows "moves (vote_outcome env t needed e rt granted)"
  using moves_becomeFollower [OF assms] moves_count_vote [OF assms]
  by (auto simp: moves_def vote_outcome_def)

lemma still_replicated: "still (replicated env p i c)"
  using still_apply [of env] by (simp add: still_def replicated_def Let_def)

lemma still_backtrack: "still (backtrack p resp)"
proof -
  have "still (abind (lift (int_at resp ''conflictIndex'')) (\<lambda>ci. modify (\<lambda>n. n\<lparr>nextIndex := f ci n\<rparr>)))" for f
    by (intro still_abind still_simps) (simp add: still_def modify_def)
  then show ?thesis by (auto simp: still_def backtrack_def Let_def split: prod.split)
qed

lemma moves_append_outcomes:
  assumes "ballot_env env"
  shows "moves (heartbeat_outcome env p t i c resp rt s)" "moves (replicate_outcome env p t i c resp rt s)"
  using moves_becomeFollower [OF assms] still_replicated [of env p i c] still_backtrack [of p resp]
  by (auto simp: moves_def still_def heartbeat_outcome_def replicate_outcome_def)

lemma moves_if: "moves a \<Longrightarrow> moves b \<Longrightarrow> moves (if c then a else b)"
  by simp

lemma moves_run_task:
  assumes "ballot_env env"
  shows "moves (run_task env task response)"
  by (cases task)
     (auto simp: vote_response_def heartbeat_response_def replicate_response_def replicate_internal_response_def
        intro!: moves_swallow moves_abind moves_if moves_vote_outcome moves_append_outcomes assms)

lemma still_submit: "still (submitCommand env c)"
proof -
  have "still (\<lambda>n. if peerAddrs n = [] then applyStateMachine env n else (Ok (), n))"
    using still_apply [of env] by (simp add: still_def)
  moreover have "still (modify (\<lambda>n. n\<lparr>log := log n @ [\<lparr>eterm = currentTerm n, command = c\<rparr>]\<rparr>))"
    by (simp add: still_def modify_def)
  ultimately have "still (abind (modify (\<lambda>n. n\<lparr>log := log n @ [\<lparr>eterm = currentTerm n, command = c\<rparr>]\<rparr>)) (\<lambda>_.
      abind (replicateLogInternal env) (\<lambda>_.
      abind (\<lambda>n. if peerAddrs n = [] then applyStateMachine env n else (Ok (), n)) (\<lambda>_. ret True))))"
    by (intro still_abind still_replicate still_simps)
  then show ?thesis by (simp add: still_def submitCommand_def)
qed

end
