(* ===== verification/Raft_Log.thy ===== *)
theory Raft_Log imports Raft_Ballot begin

text \<open>
  The replicated log: which index a leader commits, what \<open>applyStateMachine\<close> applies, what the
  batch of an \<open>AppendEntries\<close> request holds, and what a follower's log is after storing one.
  The loops of the code are related to closed forms on lists.
\<close>

lemma pair_ok: "fst p = r \<Longrightarrow> p = (r, snd p)"
  by auto

section \<open>Committing\<close>

definition committable :: "raft_node \<Rightarrow> int \<Rightarrow> bool" where
  "committable n k \<longleftrightarrow> eterm (log n ! nat k) = currentTerm n \<and> replication_count n k \<ge> majority n"

text \<open>The result of the scan: the highest committable index above \<open>commitIndex\<close>, if there is one.\<close>

definition highest_committable :: "raft_node \<Rightarrow> int \<Rightarrow> int \<Rightarrow> bool" where
  "highest_committable n hi c \<longleftrightarrow>
     (c = commitIndex n \<or> (commitIndex n < c \<and> c \<le> hi \<and> committable n c)) \<and>
     (\<forall>j. c < j \<longrightarrow> j \<le> hi \<longrightarrow> \<not> committable n j)"

lemma commit_scan_correct:
  assumes "-1 \<le> commitIndex n"
  shows "\<exists>c. commit_scan n k = Ok c \<and> highest_committable n k c"
  using assms
proof (induction n k rule: commit_scan.induct)
  case (1 n k)
  show ?case
  proof (cases "k \<le> commitIndex n \<or> committable n k")
    case True
    then show ?thesis
      using 1(2) by (subst commit_scan.simps) (auto simp: highest_committable_def committable_def)
  next
    case False
    then obtain c where "commit_scan n (k - 1) = Ok c" "highest_committable n (k - 1) c"
      using 1 by (auto simp: committable_def)
    moreover from this have "highest_committable n k c"
      using False by (auto simp: highest_committable_def)
    moreover have "commit_scan n k = commit_scan n (k - 1)"
      using False 1(2) by (subst commit_scan.simps) (auto simp: committable_def)
    ultimately show ?thesis by auto
  qed
qed

section \<open>Applying\<close>

text \<open>The entries from index \<open>lastApplied + 1\<close> to \<open>commitIndex\<close>, each with the time of its application.\<close>

definition to_apply :: "env \<Rightarrow> raft_node \<Rightarrow> (int \<times> string) list" where
  "to_apply env n =
     map (\<lambda>i. (clock env (nat i), command (log n ! nat i))) [lastApplied n + 1 .. commitIndex n]"

lemma apply_loop_correct:
  assumes "-1 \<le> lastApplied n" "lastApplied n < commitIndex n \<longrightarrow> commitIndex n < len (log n)"
    and "apply_loop env n = (Ok u, n')"
  shows "n' = n\<lparr>lastApplied := max (lastApplied n) (commitIndex n),
                stateMachine := replay (to_apply env n) (stateMachine n)\<rparr>"
  using assms
proof (induction env n rule: apply_loop.induct)
  case (1 env n)
  show ?case
  proof (cases "lastApplied n < commitIndex n")
    case False
    then show ?thesis
      using 1(4) by (simp add: apply_loop.simps [of env n] to_apply_def replay_def max_def)
  next
    case True
    let ?i = "lastApplied n + 1"
    let ?r = "sm_apply (clock env (nat ?i)) (command (log n ! nat ?i)) (stateMachine n)"
    let ?n1 = "n\<lparr>lastApplied := ?i, stateMachine := snd ?r\<rparr>"
    have ok: "0 \<le> ?i" "?i < len (log n)" using 1(2,3) True by auto
    obtain v where r: "?r = (Ok v, snd ?r)" and rest: "apply_loop env ?n1 = (Ok u, n')"
      using 1(4) True ok by (subst (asm) apply_loop.simps) (auto simp: Let_def split: prod.splits outcome.splits)
    have IH: "n' = ?n1\<lparr>lastApplied := max (lastApplied ?n1) (commitIndex ?n1),
        stateMachine := replay (to_apply env ?n1) (stateMachine ?n1)\<rparr>"
      using 1(1) [OF True refl refl, of "Ok v" "snd ?r" v] r rest ok 1(3) by simp
    have "to_apply env n = (clock env (nat ?i), command (log n ! nat ?i)) # to_apply env ?n1"
      using True by (simp add: to_apply_def upto_rec1 [of ?i])
    then show ?thesis
      using IH True by (simp add: replay_def)
  qed
qed

text \<open>No index is out of range, so only the state machine itself can make the loop fail.\<close>

lemma apply_loop_outcome:
  assumes "-1 \<le> lastApplied n" "lastApplied n < commitIndex n \<longrightarrow> commitIndex n < len (log n)"
    and "\<And>now i nodes. i < length (log n) \<Longrightarrow> fst (sm_apply now (command (log n ! i)) nodes) = Ok ()"
  shows "\<exists>n'. apply_loop env n = (Ok (), n')"
  using assms
proof (induction env n rule: apply_loop.induct)
  case (1 env n)
  show ?case
  proof (cases "lastApplied n < commitIndex n")
    case False
    then show ?thesis by (simp add: apply_loop.simps [of env n])
  next
    case True
    let ?i = "lastApplied n + 1"
    let ?r = "sm_apply (clock env (nat ?i)) (command (log n ! nat ?i)) (stateMachine n)"
    have ok: "0 \<le> ?i" "?i < len (log n)" using 1(2,3) True by auto
    then have r: "?r = (Ok (), snd ?r)"
      using 1(4) [of "nat ?i"] by (metis nat_less_iff prod.collapse)
    then have "\<exists>n'. apply_loop env (n\<lparr>lastApplied := ?i, stateMachine := snd ?r\<rparr>) = (Ok (), n')"
      using 1(1) [OF True refl refl, of "Ok ()" "snd ?r" "()"] r ok 1(3,4) by simp
    then show ?thesis
      using r True ok by (subst apply_loop.simps) (auto simp: Let_def split: prod.split)
  qed
qed

section \<open>Batches\<close>

definition batch :: "log_entry list \<Rightarrow> int \<Rightarrow> log_entry list" where
  "batch lg nextIdx = take MAX_ENTRIES_PER_RPC (drop (nat nextIdx) lg)"

lemma collect_entries_batch:
  "0 \<le> i \<Longrightarrow> collect_entries lg i room = Ok (map entry_json (take room (drop (nat i) lg)))"
proof (induction lg i room rule: collect_entries.induct)
  case (2 lg i room)
  show ?case
  proof (cases "len lg \<le> i")
    case False
    then have "drop (nat i) lg = lg ! nat i # drop (nat (i + 1)) lg"
      using 2(2) by (simp add: Cons_nth_drop_Suc nat_add_distrib flip: Suc_eq_plus1)
    then show ?thesis using 2 False by simp
  qed simp
qed simp

section \<open>Storing a batch\<close>

text \<open>The log after a batch was stored at an index: everything from the first difference on is replaced.\<close>

fun merge_entries :: "nat \<Rightarrow> log_entry list \<Rightarrow> log_entry list \<Rightarrow> log_entry list" where
  "merge_entries i [] lg = lg"
| "merge_entries i (e # es) lg =
     (if i < length lg \<and> eterm (lg ! i) = eterm e then merge_entries (Suc i) es lg
      else take i lg @ e # es)"

lemma entry_json_at [simp]:
  "json_at (entry_json e) ''term'' = Ok (JInteger (eterm e))"
  "json_at (entry_json e) ''command'' = Ok (JString (command e))"
  by (simp_all add: entry_json_def json_object_def)

lemma entry_of_json_entry [simp]: "is_int32 (eterm e) \<Longrightarrow> entry_of_json (entry_json e) = Ok e"
  by (simp add: entry_of_json_def int_at_def string_at_def)

text \<open>A JSON value that the loop reads as an entry, in either of the two forms of its integers.\<close>

definition reads_entry :: "json \<Rightarrow> log_entry \<Rightarrow> bool" where
  "reads_entry j e \<longleftrightarrow>
     entry_of_json j = Ok e \<and> (\<exists>jt. json_at j ''term'' = Ok jt \<and> (\<forall>x. int_neq_json x jt \<longleftrightarrow> x \<noteq> eterm e))"

lemma reads_entry_json:
  assumes "is_int32 (eterm e)"
  shows "reads_entry (entry_json e) e" "reads_entry (json_norm (entry_json e)) e"
proof -
  show "reads_entry (entry_json e) e"
    using assms by (simp add: reads_entry_def int_neq_json_def)
  have "entry_of_json (json_norm (entry_json e)) = Ok e"
    using entry_of_json_entry [OF assms] by (simp add: entry_of_json_def)
  moreover have "int_eq_json x (json_norm (JInteger (eterm e))) = (x = eterm e)" for x
    using assms by (subst int_eq_json_norm) (auto simp: is_int32_def is_int64_def INT_MAX_def INT_MIN_def)
  ultimately show "reads_entry (json_norm (entry_json e)) e"
    by (simp add: reads_entry_def int_neq_json_def json_at_norm del: json_norm.simps)
qed

lemma reads_entries:
  assumes "\<forall>e \<in> set es. is_int32 (eterm e)"
  shows "list_all2 reads_entry (map entry_json es) es" "list_all2 reads_entry (map json_norm (map entry_json es)) es"
  using assms reads_entry_json by (simp_all add: list_all2_map1 list_all2_same)

lemma append_loop_end:
  "list_all2 reads_entry js es \<Longrightarrow> append_entries_loop (len lg) js lg = (Ok (), lg @ es)"
proof (induction js es arbitrary: lg rule: list_all2_induct)
  case (Cons j js e es)
  then show ?case
    using Cons.IH [of "lg @ [e]"] by (simp add: push_entry_def abind.simps lift_def modify_def add.commute reads_entry_def)
qed simp

lemma append_loop_merge:
  "list_all2 reads_entry js es \<Longrightarrow> i \<le> length lg \<Longrightarrow>
   append_entries_loop (int i) js lg = (Ok (), merge_entries i es lg)"
proof (induction js es arbitrary: i rule: list_all2_induct)
  case (Cons j js e es)
  obtain jt where j: "entry_of_json j = Ok e" "json_at j ''term'' = Ok jt" "\<And>x. int_neq_json x jt \<longleftrightarrow> x \<noteq> eterm e"
    using Cons.hyps(1) unfolding reads_entry_def by blast
  show ?case
  proof (cases "i < length lg")
    case False
    then have "i = length lg" using Cons.prems by simp
    then show ?thesis
      using append_loop_end [of "j # js" "e # es" lg] Cons.hyps by simp
  next
    case True
    show ?thesis
    proof (cases "eterm (lg ! i) = eterm e")
      case eq: True
      have "append_entries_loop (int i) (j # js) lg = append_entries_loop (int (Suc i)) js lg"
        using True eq j by (simp add: abind.simps lift_def add.commute)
      moreover have "append_entries_loop (int (Suc i)) js lg = (Ok (), merge_entries (Suc i) es lg)"
        using Cons.IH [of "Suc i"] True by simp
      ultimately show ?thesis using True eq by simp
    next
      case False
      have "append_entries_loop (int i) (j # js) lg = append_entries_loop (int (Suc i)) js (take i lg @ [e])"
        using True False j by (simp add: abind.simps lift_def modify_def push_entry_def add.commute)
      also have "\<dots> = append_entries_loop (len (take i lg @ [e])) js (take i lg @ [e])"
        using True by simp
      also have "\<dots> = (Ok (), (take i lg @ [e]) @ es)"
        using Cons.hyps(2) by (rule append_loop_end)
      finally show ?thesis using True False by simp
    qed
  qed
qed simp

text \<open>
  Log matching: where two logs have entries of the same term at the same index they agree up to
  there. A follower in this relation to the leader's log agrees with it up to the end of a
  stored batch.
\<close>

definition log_matching :: "log_entry list \<Rightarrow> log_entry list \<Rightarrow> bool" where
  "log_matching f l \<longleftrightarrow>
     (\<forall>i. i < length f \<longrightarrow> i < length l \<longrightarrow> eterm (f ! i) = eterm (l ! i) \<longrightarrow> take (Suc i) f = take (Suc i) l)"

lemma merge_agrees:
  assumes "take p f = take p l" "p \<le> length f" "es = take (length es) (drop p l)" "log_matching f l"
  shows "take (p + length es) (merge_entries p es f) = take (p + length es) l"
  using assms(1-3)
proof (induction es arbitrary: p)
  case (Cons e es)
  then have "drop p l \<noteq> []" by auto
  then have p: "p < length l" by simp
  then have "drop p l = l ! p # drop (Suc p) l" by (simp add: Cons_nth_drop_Suc)
  then have e: "e = l ! p" "es = take (length es) (drop (Suc p) l)" using Cons.prems(3) by auto
  show ?case
  proof (cases "p < length f \<and> eterm (f ! p) = eterm e")
    case True
    then have "take (Suc p) f = take (Suc p) l"
      using assms(4) p e(1) by (simp add: log_matching_def)
    then show ?thesis
      using Cons.IH [of "Suc p"] True e(2) by simp
  next
    case False
    then have "merge_entries p (e # es) f = take p l @ e # es"
      using Cons.prems(1) by auto
    also have "\<dots> = take (p + length (e # es)) l"
      using Cons.prems(3) by (simp only: take_add)
    finally show ?thesis using p by simp
  qed
qed simp

lemma merge_keeps_prefix: "p \<le> length f \<Longrightarrow> take p (merge_entries p es f) = take p f"
proof (induction p es f rule: merge_entries.induct)
  case (2 i e es lg)
  show ?case
  proof (cases "i < length lg \<and> eterm (lg ! i) = eterm e")
    case True
    then have "take (Suc i) (merge_entries (Suc i) es lg) = take (Suc i) lg" using 2 by simp
    then have "take i (merge_entries (Suc i) es lg) = take i lg"
      by (rule take_eq_le) simp
    then show ?thesis using True by simp
  next
    case False
    then have "merge_entries i (e # es) lg = take i lg @ e # es" by (simp only: merge_entries.simps if_False)
    then show ?thesis using 2(2) by simp
  qed
qed simp

text \<open>Nothing is cut off without a conflict.\<close>

lemma merge_length: "p \<le> length f \<Longrightarrow> p + length es \<le> length (merge_entries p es f)"
  by (induction p es f rule: merge_entries.induct) auto

lemma applyStateMachine_correct:
  assumes "-1 \<le> commitIndex n" and "-1 \<le> lastApplied n"
    and "lastApplied n < commitIndex n \<longrightarrow> commitIndex n < len (log n)"
    and "applyStateMachine env n = (Ok u, n')"
  shows "highest_committable n (len (log n) - 1) (commitIndex n') \<and>
    lastApplied n' = max (lastApplied n) (commitIndex n') \<and>
    stateMachine n' = replay (to_apply env (n\<lparr>commitIndex := commitIndex n'\<rparr>)) (stateMachine n)"
proof -
  obtain c where c: "commit_scan n (len (log n) - 1) = Ok c" "highest_committable n (len (log n) - 1) c"
    using commit_scan_correct [OF assms(1)] by blast
  then have "apply_loop env (n\<lparr>commitIndex := c\<rparr>) = (Ok u, n')"
    using assms(4) by (simp add: applyStateMachine_def)
  moreover have "lastApplied (n\<lparr>commitIndex := c\<rparr>) < commitIndex (n\<lparr>commitIndex := c\<rparr>) \<longrightarrow>
      commitIndex (n\<lparr>commitIndex := c\<rparr>) < len (log (n\<lparr>commitIndex := c\<rparr>))"
    using c(2) assms(3) by (auto simp: highest_committable_def)
  ultimately have "n' = n\<lparr>commitIndex := c, lastApplied := max (lastApplied n) c,
      stateMachine := replay (to_apply env (n\<lparr>commitIndex := c\<rparr>)) (stateMachine n)\<rparr>"
    using apply_loop_correct [of "n\<lparr>commitIndex := c\<rparr>" env u n'] assms(2) by simp
  then show ?thesis using c(2) by simp
qed

section \<open>The state machine keeps the log\<close>

lemma log_apply_loop: "log (snd (apply_loop env n)) = log n"
proof (induction env n rule: apply_loop.induct)
  case (1 env n)
  then show ?case
    by (subst apply_loop.simps) (auto simp: Let_def split: prod.split outcome.split)
qed

lemma log_apply: "log (snd (applyStateMachine env n)) = log n"
  using log_apply_loop by (simp add: applyStateMachine_def split: outcome.split)

lemma log_update_commit: "log (snd (update_commit env req n)) = log n"
  by (cases "int_at req ''leaderCommit''") (auto simp: update_commit_def abind.simps lift_def log_apply)

lemma log_reset [simp]: "log (resetElectionTimer env n) = log n"
  by (simp add: resetElectionTimer_def Let_def)

lemma log_becomeFollower: "role n \<noteq> LEADER \<Longrightarrow> log (becomeFollower env t n) = log n"
  by (simp add: becomeFollower_def Let_def)

section \<open>An AppendEntries request and its handling\<close>

text \<open>What the code assumes of its integers: they fit an \<open>int\<close>.\<close>

definition log_fits :: "log_entry list \<Rightarrow> bool" where
  "log_fits lg \<longleftrightarrow> len lg \<le> INT_MAX \<and> (\<forall>e \<in> set lg. is_int32 (eterm e))"

definition prev_term :: "raft_node \<Rightarrow> int \<Rightarrow> int" where
  "prev_term n i = (if 1 \<le> i \<and> i \<le> len (log n) then eterm (log n ! nat (i - 1)) else 0)"

lemma append_params_at:
  "json_at (append_params n i es) ''term'' = Ok (JInteger (currentTerm n))"
  "json_at (append_params n i es) ''leaderId'' = Ok (JString (nodeId n))"
  "json_at (append_params n i es) ''prevLogIndex'' = Ok (JInteger (i - 1))"
  "json_at (append_params n i es) ''prevLogTerm'' = Ok (JInteger (prev_term n i))"
  "json_at (append_params n i es) ''entries'' = Ok (JArray es)"
  "json_at (append_params n i es) ''leaderCommit'' = Ok (JInteger (commitIndex n))"
  "json_contains (append_params n i es) ''prevLogIndex''" "json_contains (append_params n i es) ''prevLogTerm''"
  "json_contains (append_params n i es) ''entries''" "json_contains (append_params n i es) ''leaderCommit''"
  by (auto simp: append_params_def json_object_def Let_def prev_term_def)

lemma log_fits_prev: "log_fits (log n) \<Longrightarrow> is_int32 (prev_term n i)"
  by (auto simp: log_fits_def prev_term_def is_int32_def INT_MIN_def INT_MAX_def)

lemma handle_append_request:
  assumes "is_int32 (i - 1)" "log_fits (log l)"
  shows "handle_append env (append_params l i es) t0 f =
    store_entries env (append_params l i es) (i - 1) (prev_term l i) (JArray es) t0 f"
  using assms log_fits_prev
  by (simp add: handle_append_def append_params_at int_at_def abind.simps lift_def)

lemma store_entries_log:
  assumes "\<not> log_conflict f p pt" "-1 \<le> p" "p < len (log f)" "list_all2 reads_entry js es"
  shows "log (snd (store_entries env req p pt (JArray js) t0 f)) = merge_entries (nat (p + 1)) es (log f)"
proof -
  have "append_entries_loop (p + 1) js (log f) = (Ok (), merge_entries (nat (p + 1)) es (log f))"
    using append_loop_merge [OF assms(4), of "nat (p + 1)" "log f"] assms(2,3) by simp
  then show ?thesis
    using assms(1) log_update_commit [of env req "f\<lparr>log := merge_entries (nat (p + 1)) es (log f)\<rparr>"]
    by (auto simp: store_entries_def abind.simps on_log_def split: prod.split outcome.split)
qed

lemma onAppendEntries_request:
  assumes "is_int32 (currentTerm l)" "is_int32 (i - 1)" "log_fits (log l)" "currentTerm f \<le> currentTerm l"
    and "role f \<noteq> LEADER"
  obtains f1 where "log f1 = log f"
    "onAppendEntries env (append_params l i es) f =
     store_entries env (append_params l i es) (i - 1) (prev_term l i) (JArray es) (currentTerm f) f1"
proof -
  obtain f1 where f1: "accept_leader env (currentTerm l) (nodeId l) f = Some f1" "log f1 = log f"
  proof (cases "currentTerm f < currentTerm l \<or> role f = CANDIDATE")
    case True
    then show ?thesis
      using that [of "becomeFollower env (currentTerm l) f"] assms(5) by (auto simp: accept_leader_def log_becomeFollower)
  next
    case False
    then show ?thesis
      using that [of "resetElectionTimer env f"] assms(5) by (auto simp: accept_leader_def)
  qed
  have "onAppendEntries env (append_params l i es) f = handle_append env (append_params l i es) (currentTerm f) f1"
    using assms(1,4) f1(1)
    by (simp add: onAppendEntries_def append_params_at int_at_def string_at_def abind.simps lift_def)
  then show ?thesis
    using that f1(2) handle_append_request [OF assms(2,3)] by simp
qed

section \<open>Properties\<close>

text \<open>C16: \<open>applyStateMachine\<close> moves \<open>commitIndex\<close> to the highest index above it whose entry is of
  the current term and is counted on a majority of the nodes, and leaves it where there is no
  such index; it then applies exactly the entries between \<open>lastApplied\<close> and \<open>commitIndex\<close>, each
  once, in the order of the log.\<close>

theorem apply_commit_rule:
  assumes "-1 \<le> commitIndex n" and "-1 \<le> lastApplied n"
    and "lastApplied n < commitIndex n \<longrightarrow> commitIndex n < len (log n)"
    and "applyStateMachine env n = (Ok u, n')"
  shows "highest_committable n (len (log n) - 1) (commitIndex n') \<and>
    lastApplied n' = max (lastApplied n) (commitIndex n') \<and>
    stateMachine n' = replay (to_apply env (n\<lparr>commitIndex := commitIndex n'\<rparr>)) (stateMachine n)"
  using assms by (rule applyStateMachine_correct)

theorem apply_commit_rule_witness:
  "highest_committable committing_leader 1 1 \<and>
   lastApplied (snd (applyStateMachine calm_env committing_leader)) = 1"
proof -
  let ?r = "applyStateMachine calm_env committing_leader"
  have ok: "?r = (Ok (), snd ?r)" by (rule pair_ok) code_simp
  have c: "commitIndex (snd ?r) = 1" "lastApplied (snd ?r) = 1" "len (log committing_leader) - 1 = 1"
      "commitIndex committing_leader = -1" "lastApplied committing_leader = -1"
    by code_simp+
  show ?thesis
    using apply_commit_rule [OF _ _ _ ok] c by simp
qed

text \<open>A request built by a leader carries the entries from the next index of the peer on, at
  most five of them, each with its term and its command.\<close>

theorem append_batch:
  assumes "0 \<le> i"
  shows "collect_entries lg i MAX_ENTRIES_PER_RPC = Ok (map entry_json (batch lg i)) \<and>
    length (batch lg i) \<le> 5"
  using collect_entries_batch [OF assms, of lg MAX_ENTRIES_PER_RPC] by (simp add: batch_def MAX_ENTRIES_PER_RPC_def)

theorem append_batch_witness: "collect_entries example_log 1 MAX_ENTRIES_PER_RPC = Ok [entry_json (example_log ! 1)]"
  using append_batch [of 1 example_log] by (simp add: batch_def example_log_def MAX_ENTRIES_PER_RPC_def)

text \<open>C19: a follower that gets a leader's request of a term that is not stale either has no entry
  like the one before the batch, and then changes nothing in its log and answers with an index
  at which the leader can try again below the one it tried; or it ends up with the batch in its
  log at that place: entries before it are untouched, and nothing behind it is cut off unless
  an entry differed in its term.\<close>

theorem append_stores:
  assumes "is_int32 (currentTerm l)" "is_int32 (i - 1)" "log_fits (log l)" "currentTerm f \<le> currentTerm l"
    and "role f \<noteq> LEADER" "0 \<le> i"
  shows "if log_conflict f (i - 1) (prev_term l i)
    then fst (onAppendEntries env (append_params l i (map entry_json (batch (log l) i))) f) =
           Ok (conflict_reply (currentTerm f) (min (i - 1) (len (log f)))) \<and>
         log (snd (onAppendEntries env (append_params l i (map entry_json (batch (log l) i))) f)) = log f
    else log (snd (onAppendEntries env (append_params l i (map entry_json (batch (log l) i))) f)) =
           merge_entries (nat i) (batch (log l) i) (log f)"
proof -
  let ?es = "batch (log l) i"
  obtain f1 where f1: "log f1 = log f"
      "onAppendEntries env (append_params l i (map entry_json ?es)) f =
       store_entries env (append_params l i (map entry_json ?es)) (i - 1) (prev_term l i) (JArray (map entry_json ?es))
         (currentTerm f) f1"
    using onAppendEntries_request [OF assms(1-5)] by blast
  have conf: "log_conflict f1 p pt = log_conflict f p pt" for p pt
    by (simp add: log_conflict_def f1(1))
  have int: "\<forall>e \<in> set ?es. is_int32 (eterm e)"
    using assms(3) by (auto simp: batch_def log_fits_def dest: in_set_takeD in_set_dropD)
  show ?thesis
  proof (cases "log_conflict f (i - 1) (prev_term l i)")
    case True
    then show ?thesis using f1 conf by (simp add: store_entries_def)
  next
    case False
    then have "i - 1 < len (log f1)"
      using f1(1) assms(6) by (auto simp: log_conflict_def)
    then show ?thesis
      using store_entries_log [OF _ _ _ reads_entries(1) [OF int], of f1 "i - 1" "prev_term l i"] False conf f1 assms(6) by simp
  qed
qed

lemma example_fits:
  "is_int32 (currentTerm example_leader)" "is_int32 (0 - 1)" "log_fits (log example_leader)"
  "currentTerm example_node \<le> currentTerm example_leader" "role example_node \<noteq> LEADER"
  "\<not> log_conflict example_node (0 - 1) (prev_term example_leader 0)"
  "batch (log example_leader) 0 = example_log" "log example_node = []"
  by (simp_all add: example_leader_def example_node_def example_log_def raft_node_new_def raft_start_def
      resetElectionTimer_def Let_def log_fits_def is_int32_def INT_MAX_def INT_MIN_def log_conflict_def
      batch_def MAX_ENTRIES_PER_RPC_def)

theorem append_stores_witness:
  "log (snd (onAppendEntries calm_env (append_params example_leader 0 (map entry_json example_log)) example_node)) =
   merge_entries 0 example_log []"
  using append_stores [OF example_fits(1-5), of calm_env] example_fits(6-8) by simp

text \<open>C15: log matching is established by replication: if a follower's log and the leader's are in
  the log-matching relation and agree before the batch, then after the request the two logs
  agree up to the end of the batch.\<close>

theorem append_agrees:
  assumes "is_int32 (currentTerm l)" "is_int32 (i - 1)" "log_fits (log l)" "currentTerm f \<le> currentTerm l"
    and "role f \<noteq> LEADER" "0 \<le> i" "i \<le> len (log l)"
    and "log_matching (log f) (log l)" "\<not> log_conflict f (i - 1) (prev_term l i)"
    and "f' = snd (onAppendEntries env (append_params l i (map entry_json (batch (log l) i))) f)"
  shows "take (nat i + length (batch (log l) i)) (log f') = take (nat i + length (batch (log l) i)) (log l)"
proof -
  obtain f1 where f1: "log f1 = log f"
      "onAppendEntries env (append_params l i (map entry_json (batch (log l) i))) f =
       store_entries env (append_params l i (map entry_json (batch (log l) i))) (i - 1) (prev_term l i)
         (JArray (map entry_json (batch (log l) i))) (currentTerm f) f1"
    using onAppendEntries_request [OF assms(1-5)] by blast
  have int: "\<forall>e \<in> set (batch (log l) i). is_int32 (eterm e)"
    using assms(3) by (auto simp: batch_def log_fits_def dest: in_set_takeD in_set_dropD)
  moreover have "\<not> log_conflict f1 (i - 1) (prev_term l i)"
    using assms(9) f1(1) by (simp add: log_conflict_def)
  moreover have le: "nat i \<le> length (log f)"
    using assms(6,9) by (auto simp: log_conflict_def)
  ultimately have "log f' = merge_entries (nat i) (batch (log l) i) (log f)"
    using store_entries_log [OF _ _ _ reads_entries(1) [OF int], of f1 "i - 1" "prev_term l i"] f1 assms(6,10) by simp
  moreover have "take (nat i) (log f) = take (nat i) (log l)"
  proof (cases "i = 0")
    case False
    then have eq: "eterm (log f ! nat (i - 1)) = eterm (log l ! nat (i - 1))" "Suc (nat (i - 1)) = nat i"
      using assms(6,7,9) by (auto simp: log_conflict_def prev_term_def)
    have "nat (i - 1) < length (log f)" "nat (i - 1) < length (log l)"
      using assms(6,7) le False by auto
    then have "take (Suc (nat (i - 1))) (log f) = take (Suc (nat (i - 1))) (log l)"
      using assms(8) eq(1) unfolding log_matching_def by blast
    then show ?thesis using \<open>Suc (nat (i - 1)) = nat i\<close> by simp
  qed simp
  moreover have "batch (log l) i = take (length (batch (log l) i)) (drop (nat i) (log l))"
    by (simp add: batch_def min_def)
  ultimately show ?thesis
    using merge_agrees [OF _ le _ assms(8)] by simp
qed

theorem append_agrees_witness:
  "take 2 (log (snd (onAppendEntries calm_env (append_params example_leader 0 (map entry_json example_log)) example_node))) =
   take 2 (log example_leader)"
proof -
  have "length example_log = 2" by (simp add: example_log_def)
  then show ?thesis
    using append_agrees [OF example_fits(1-5) _ _ _ example_fits(6) refl, of calm_env] example_fits(7,8)
    by (simp add: log_matching_def numeral_2_eq_2)
qed

end
