(* ===== verification/Raft_Invariant.thy ===== *)
theory Raft_Invariant imports Raft_Log begin

text \<open>
  A node as a state machine: the events that reach it (requests, responses, timers, submitted
  commands), the runs they give, and the invariant of its fields. The invariant covers what the
  code relies on without testing it: indices that stay in range, maps with one entry per key,
  and above all the timers, since a follower without an election timer would wait forever.
\<close>

section \<open>Events\<close>

datatype node_event =
    VoteRequest json
  | AppendRequest json
  | ElectionWake nat
  | ElectionTimeout nat
  | HeartbeatWake nat
  | HeartbeatTimeout nat
  | TaskTaken
  | TaskDone task "json outcome"
  | CommandSubmitted string

text \<open>
  A timer thread that passed its check runs its callback once it has the mutex. An event that
  is not possible (a thread that does not exist) leaves the node alone.
\<close>

definition election_timeout :: "env \<Rightarrow> nat \<Rightarrow> (raft_node, unit) action" where
  "election_timeout env i n =
     (if i < length (due (electionTimer n))
      then election_callback env (n\<lparr>electionTimer := timer_fire i (electionTimer n)\<rparr>) else (Ok (), n))"

definition heartbeat_timeout :: "env \<Rightarrow> nat \<Rightarrow> (raft_node, unit) action" where
  "heartbeat_timeout env i n =
     (if i < length (due (heartbeatTimer n))
      then heartbeat_callback env (n\<lparr>heartbeatTimer := timer_fire i (heartbeatTimer n)\<rparr>) else (Ok (), n))"

definition election_wake :: "nat \<Rightarrow> raft_node \<Rightarrow> raft_node" where
  "election_wake i n =
     (if i < length (sleeping (electionTimer n)) then n\<lparr>electionTimer := timer_wake i (electionTimer n)\<rparr> else n)"

definition heartbeat_wake :: "nat \<Rightarrow> raft_node \<Rightarrow> raft_node" where
  "heartbeat_wake i n =
     (if i < length (sleeping (heartbeatTimer n)) then n\<lparr>heartbeatTimer := timer_wake i (heartbeatTimer n)\<rparr> else n)"

definition no_result :: "(raft_node, 'a) action \<Rightarrow> (raft_node, unit) action" where
  "no_result m = abind m (\<lambda>_. ret ())"

fun run_event :: "env \<Rightarrow> node_event \<Rightarrow> (raft_node, unit) action" where
  "run_event env (VoteRequest req) = no_result (onRequestVote env req)"
| "run_event env (AppendRequest req) = no_result (onAppendEntries env req)"
| "run_event env (ElectionWake i) = modify (election_wake i)"
| "run_event env (ElectionTimeout i) = election_timeout env i"
| "run_event env (HeartbeatWake i) = modify (heartbeat_wake i)"
| "run_event env (HeartbeatTimeout i) = heartbeat_timeout env i"
| "run_event env TaskTaken = modify (\<lambda>n. n\<lparr>rpcPool := tl (rpcPool n)\<rparr>)"
| "run_event env (TaskDone t response) = run_task env t response"
| "run_event env (CommandSubmitted c) = no_result (submitCommand env c)"

text \<open>The process goes on unless it aborts or runs into undefined behaviour.\<close>

fun alive :: "'a outcome \<Rightarrow> bool" where
  "alive (Ok a) = True"
| "alive (Throw e) = True"
| "alive Abort = False"
| "alive UB = False"

lemma moves_event:
  assumes "ballot_env env"
  shows "moves (run_event env ev)"
proof (cases ev)
  case (ElectionTimeout i)
  have "ballot_steps (ballot_of n) (ballot_of (snd (election_callback env (n\<lparr>electionTimer := tm\<rparr>))))" for n tm
    using moves_callbacks(1) [OF assms] ballot_of_updates(7) by (metis moves_def)
  then show ?thesis using ElectionTimeout by (simp add: moves_def election_timeout_def)
next
  case (HeartbeatTimeout i)
  have "ballot_steps (ballot_of n) (ballot_of (snd (heartbeat_callback env (n\<lparr>heartbeatTimer := tm\<rparr>))))" for n tm
    using moves_callbacks(2) [OF assms] ballot_of_updates(8) by (metis moves_def)
  then show ?thesis using HeartbeatTimeout by (simp add: moves_def heartbeat_timeout_def)
next
  case (CommandSubmitted c)
  then show ?thesis
    using still_moves [OF still_submit [of env c]] by (auto simp: no_result_def)
qed (auto simp: no_result_def moves_onRequestVote [OF assms] moves_onAppendEntries [OF assms] moves_run_task [OF assms],
     auto simp: moves_def modify_def election_wake_def heartbeat_wake_def)

section \<open>The invariant\<close>

text \<open>What holds inside the operations too, and what holds between them.\<close>

definition node_ok :: "raft_node \<Rightarrow> bool" where
  "node_ok n \<longleftrightarrow>
     -1 \<le> commitIndex n \<and> commitIndex n \<le> lastApplied n \<and>
     (\<forall>v \<in> snd ` set (nextIndex n). 0 \<le> v) \<and>
     wf_alist (nextIndex n) \<and> wf_alist (matchIndex n) \<and> wf_alist (stateMachine n) \<and>
     timer_wf (electionTimer n) \<and> timer_wf (heartbeatTimer n) \<and>
     (\<forall>p \<in> set (peerAddrs n). peer_ok p)"

definition timers_ok :: "raft_node \<Rightarrow> bool" where
  "timers_ok n \<longleftrightarrow>
     (if role n = LEADER then pending (heartbeatTimer n) else pending (electionTimer n))"

definition node_inv :: "raft_node \<Rightarrow> bool" where
  "node_inv n \<longleftrightarrow> node_ok n \<and> timers_ok n"

definition inv_env :: "env \<Rightarrow> bool" where
  "inv_env env \<longleftrightarrow> (\<forall>i n. node_inv n \<longrightarrow> node_inv (others env i n))"

text \<open>\<open>keeps m\<close>: from a good node, an operation that does not end the process leads to a good node.\<close>

definition keeps :: "(raft_node, 'a) action \<Rightarrow> bool" where
  "keeps m \<longleftrightarrow> (\<forall>n. node_inv n \<longrightarrow> alive (fst (m n)) \<longrightarrow> node_inv (snd (m n)))"

lemma keeps_abind [intro]:
  assumes "keeps m" "\<And>a. keeps (f a)"
  shows "keeps (abind m f)"
  unfolding keeps_def
proof (intro allI impI)
  fix n
  assume n: "node_inv n" "alive (fst (abind m f n))"
  show "node_inv (snd (abind m f n))"
    using assms n by (cases "m n"; cases "fst (m n)") (auto simp: keeps_def abind.simps)
qed

lemma keeps_simps [simp, intro]: "keeps (lift r)" "keeps (ret a)" "keeps (\<lambda>n. (r, n))"
  by (simp_all add: keeps_def lift_def ret_def)

lemma keeps_if: "keeps a \<Longrightarrow> keeps b \<Longrightarrow> keeps (if c then a else b)"
  by simp

lemma keeps_swallow: "keeps m \<Longrightarrow> keeps (swallow m)"
  by (auto simp: keeps_def swallow_def split: prod.split outcome.split)

lemma node_inv_updates [simp]:
  "node_inv (n\<lparr>rpcPool := ts\<rparr>) = node_inv n" "node_inv (n\<lparr>elections := es\<rparr>) = node_inv n"
  "node_inv (n\<lparr>log := lg\<rparr>) = node_inv n" "node_inv (n\<lparr>votedFor := c\<rparr>) = node_inv n"
  "node_inv (n\<lparr>discoverySocket := i\<rparr>) = node_inv n" "node_inv (n\<lparr>runningDiscoveryService := b\<rparr>) = node_inv n"
  "node_inv (n\<lparr>discoveryThread := b\<rparr>) = node_inv n" "node_inv (n\<lparr>draws := k\<rparr>) = node_inv n"
  by (simp_all add: node_inv_def node_ok_def timers_ok_def)

lemma timers_ok_updates [simp]:
  "timers_ok (n\<lparr>commitIndex := c\<rparr>) = timers_ok n" "timers_ok (n\<lparr>lastApplied := c\<rparr>) = timers_ok n"
  "timers_ok (n\<lparr>nextIndex := m\<rparr>) = timers_ok n" "timers_ok (n\<lparr>matchIndex := m\<rparr>) = timers_ok n"
  "timers_ok (n\<lparr>stateMachine := sm\<rparr>) = timers_ok n"
  by (simp_all add: timers_ok_def)

lemma node_ok_updates [simp]:
  "node_ok (n\<lparr>rpcPool := ts\<rparr>) = node_ok n" "node_ok (n\<lparr>elections := es\<rparr>) = node_ok n"
  "node_ok (n\<lparr>log := lg\<rparr>) = node_ok n" "node_ok (n\<lparr>votedFor := c\<rparr>) = node_ok n"
  "node_ok (n\<lparr>currentTerm := t\<rparr>) = node_ok n" "node_ok (n\<lparr>role := r\<rparr>) = node_ok n"
  "node_ok (n\<lparr>draws := k\<rparr>) = node_ok n"
  by (simp_all add: node_ok_def)

lemma node_ok_reset [simp]: "node_ok n \<Longrightarrow> node_ok (resetElectionTimer env n)"
  by (simp add: resetElectionTimer_def Let_def node_ok_def one_shot_timer.restart)

lemma reset_simps [simp]:
  "role (resetElectionTimer env n) = role n" "currentTerm (resetElectionTimer env n) = currentTerm n"
  "peerAddrs (resetElectionTimer env n) = peerAddrs n" "commitIndex (resetElectionTimer env n) = commitIndex n"
  "heartbeatTimer (resetElectionTimer env n) = heartbeatTimer n"
  by (simp_all add: resetElectionTimer_def Let_def)

lemma pending_reset: "node_ok n \<Longrightarrow> pending (electionTimer (resetElectionTimer env n))"
  by (simp add: resetElectionTimer_def Let_def node_ok_def one_shot_timer.restart)

lemma inv_reset: "node_inv n \<Longrightarrow> node_inv (resetElectionTimer env n)"
  by (simp add: node_inv_def timers_ok_def pending_reset)

lemma inv_reset_follower: "node_ok n \<Longrightarrow> role n \<noteq> LEADER \<Longrightarrow> node_inv (resetElectionTimer env n)"
  by (simp add: node_inv_def timers_ok_def pending_reset)

lemma inv_discovery [simp]:
  "node_inv (startDiscoveryService env n) = node_inv n" "node_inv (stopDiscoveryService n) = node_inv n"
  by (simp_all add: startDiscoveryService_def stopDiscoveryService_def split: option.split)

section \<open>Every event keeps the invariant\<close>

text \<open>\<open>applyStateMachine\<close> only changes the two indices and the table, and ends with them in order.\<close>

lemma apply_loop_no_throw: "fst (apply_loop env n) \<noteq> Throw e"
proof (induction env n rule: apply_loop.induct)
  case (1 env n)
  let ?i = "lastApplied n + 1"
  let ?r = "sm_apply (clock env (nat ?i)) (command (log n ! nat ?i)) (stateMachine n)"
  have "fst ?r \<noteq> Throw e" by (rule sm_apply_outcome)
  with 1 show ?case
    by (cases ?r; cases "fst ?r"; subst apply_loop.simps) (auto simp: Let_def)
qed

lemma apply_alive:
  assumes "-1 \<le> commitIndex n" and "alive (fst (applyStateMachine env n))"
  shows "fst (applyStateMachine env n) = Ok ()"
proof -
  obtain c where "commit_scan n (len (log n) - 1) = Ok c"
    using commit_scan_correct [OF assms(1)] by blast
  then show ?thesis
    using assms(2) apply_loop_no_throw [of env "n\<lparr>commitIndex := c\<rparr>"]
    by (cases "fst (apply_loop env (n\<lparr>commitIndex := c\<rparr>))") (auto simp: applyStateMachine_def)
qed

text \<open>The fields it does not touch.\<close>

definition frame_of :: "raft_node \<Rightarrow> raft_node" where
  "frame_of n = n\<lparr>commitIndex := 0, lastApplied := 0, stateMachine := []\<rparr>"

lemma frame_apply_loop: "frame_of (snd (apply_loop env n)) = frame_of n"
proof (induction env n rule: apply_loop.induct)
  case (1 env n)
  let ?i = "lastApplied n + 1"
  let ?r = "sm_apply (clock env (nat ?i)) (command (log n ! nat ?i)) (stateMachine n)"
  show ?case
    using 1 by (cases ?r; cases "fst ?r"; subst apply_loop.simps) (auto simp: Let_def frame_of_def)
qed

lemma frame_apply: "frame_of (snd (applyStateMachine env n)) = frame_of n"
  using frame_apply_loop by (auto simp: applyStateMachine_def split: outcome.split) (simp add: frame_of_def)

lemma frame_fields:
  assumes "frame_of n = frame_of n'"
  shows "role n = role n'" "peerAddrs n = peerAddrs n'" "nextIndex n = nextIndex n'" "matchIndex n = matchIndex n'"
    "electionTimer n = electionTimer n'" "heartbeatTimer n = heartbeatTimer n'" "log n = log n'"
    "currentTerm n = currentTerm n'"
  using assms by (cases n; cases n'; simp add: frame_of_def)+

lemma ok_apply:
  assumes "-1 \<le> commitIndex n" "lastApplied n < commitIndex n \<longrightarrow> commitIndex n < len (log n)"
    and "node_ok (n\<lparr>commitIndex := -1\<rparr>)" "alive (fst (applyStateMachine env n))"
  shows "fst (applyStateMachine env n) = Ok () \<and> node_ok (snd (applyStateMachine env n)) \<and>
    frame_of (snd (applyStateMachine env n)) = frame_of n"
proof -
  obtain n' where n': "applyStateMachine env n = (Ok (), n')"
    using apply_alive [OF assms(1,4)] by (metis prod.collapse)
  have "-1 \<le> lastApplied n" using assms(3) by (simp add: node_ok_def)
  then have "-1 \<le> commitIndex n' \<and> commitIndex n' \<le> lastApplied n' \<and> wf_alist (stateMachine n')"
    using applyStateMachine_correct [OF assms(1) _ assms(2) n'] assms(1,3) wf_replay [of "stateMachine n"]
    by (auto simp: highest_committable_def node_ok_def)
  moreover have "frame_of n' = frame_of n" using frame_apply [of env n] n' by simp
  ultimately show ?thesis
    using assms(3) frame_fields [of n' n] n' by (simp add: node_ok_def)
qed

lemma timers_frame: "frame_of n = frame_of n' \<Longrightarrow> timers_ok n = timers_ok n'"
  using frame_fields [of n n'] by (simp add: timers_ok_def)

lemma node_ok_indices:
  assumes "node_ok n"
  shows "-1 \<le> commitIndex n" "commitIndex n \<le> lastApplied n" "node_ok (n\<lparr>commitIndex := -1\<rparr>)"
  using assms by (auto simp: node_ok_def)

lemma ok_apply_between:
  assumes "node_ok n" "alive (fst (applyStateMachine env n))"
  shows "fst (applyStateMachine env n) = Ok () \<and> node_ok (snd (applyStateMachine env n)) \<and>
    frame_of (snd (applyStateMachine env n)) = frame_of n"
  using ok_apply [of n env] node_ok_indices [OF assms(1)] assms(2) by simp

lemma keeps_apply: "keeps (applyStateMachine env)"
  unfolding keeps_def
proof (intro allI impI)
  fix n
  assume n: "node_inv n" "alive (fst (applyStateMachine env n))"
  then have "node_ok (snd (applyStateMachine env n))" "frame_of (snd (applyStateMachine env n)) = frame_of n"
    using ok_apply_between [of n env] by (simp_all add: node_inv_def)
  then show "node_inv (snd (applyStateMachine env n))"
    using n(1) timers_frame [of "snd (applyStateMachine env n)" n] by (simp add: node_inv_def)
qed

lemma all_update:
  assumes "\<forall>v \<in> snd ` set m. P v" "P x"
  shows "\<forall>v \<in> snd ` set (AList.update k x m). P v"
  using assms by (induction m) auto

lemma wf_index_ref:
  assumes "index_ref k m = (v, m')" "wf_alist m" "\<forall>v \<in> snd ` set m. 0 \<le> v"
  shows "wf_alist m'" "\<forall>v \<in> snd ` set m'. 0 \<le> v" "0 \<le> v"
proof -
  have "wf_alist m' \<and> (\<forall>v \<in> snd ` set m'. 0 \<le> v) \<and> 0 \<le> v"
  proof (cases "map_of m k")
    case None
    then have "v = 0" "m' = AList.update k 0 m" using assms(1) by (auto simp: index_ref_def)
    then show ?thesis
      using assms(2) all_update [OF assms(3), of 0 k] by (simp only: wf_alist_update) simp
  next
    case (Some x)
    then have "v = x" "m' = m" "(k, x) \<in> set m" using assms(1) by (auto simp: index_ref_def dest: map_of_SomeD)
    then show ?thesis using assms(2,3) by force
  qed
  then show "wf_alist m'" "\<forall>v \<in> snd ` set m'. 0 \<le> v" "0 \<le> v" by blast+
qed

text \<open>The loops over the peers always finish, since every peer was given with a number as its port.\<close>

lemma ok_append_loop:
  assumes "node_ok n" "\<forall>p \<in> set specs. peer_ok p"
  shows "\<exists>m ts. append_loop mk specs n = (Ok (), n\<lparr>nextIndex := m, rpcPool := ts\<rparr>) \<and>
    node_ok (n\<lparr>nextIndex := m, rpcPool := ts\<rparr>)"
  using assms
proof (induction specs arbitrary: n)
  case Nil
  then show ?case by (intro exI [of _ "nextIndex n"] exI [of _ "rpcPool n"]) simp
next
  case (Cons spec specs)
  show ?case
  proof (cases "split_peer spec")
    case None
    then show ?thesis using Cons by simp
  next
    case (Some pp)
    obtain peerId portText where pp: "pp = (peerId, portText)" by force
    obtain port where port: "stoi portText = Ok port"
      using Cons.prems(2) Some pp by (auto simp: peer_ok_def split: outcome.splits)
    obtain i m where im: "index_ref peerId (nextIndex n) = (i, m)" by force
    have m: "wf_alist m" "\<forall>v \<in> snd ` set m. 0 \<le> v" "0 \<le> i"
      using wf_index_ref [OF im] Cons.prems(1) unfolding node_ok_def by blast+
    let ?n1 = "n\<lparr>nextIndex := m\<rparr>"
    let ?es = "map entry_json (batch (log n) i)"
    have es: "collect_entries (log n) i MAX_ENTRIES_PER_RPC = Ok ?es"
      using collect_entries_batch [OF m(3)] by (simp add: batch_def)
    let ?n2 = "enqueue (mk peerId port (append_params ?n1 i ?es) (currentTerm n) i (len ?es)) ?n1"
    have "node_ok ?n2"
      using Cons.prems(1) m by (simp add: enqueue_def) (simp add: node_ok_def)
    then obtain m' ts' where "append_loop mk specs ?n2 = (Ok (), ?n2\<lparr>nextIndex := m', rpcPool := ts'\<rparr>)"
        "node_ok (?n2\<lparr>nextIndex := m', rpcPool := ts'\<rparr>)"
      using Cons.IH [of ?n2] Cons.prems(2) by auto
    moreover have "append_loop mk (spec # specs) n = append_loop mk specs ?n2"
      using Some pp port im es by (simp add: Let_def)
    moreover have "?n2\<lparr>nextIndex := m', rpcPool := ts'\<rparr> = n\<lparr>nextIndex := m', rpcPool := ts'\<rparr>"
      by (simp add: enqueue_def)
    ultimately show ?thesis by metis
  qed
qed

lemma ok_vote_loop:
  assumes "\<forall>p \<in> set specs. peer_ok p"
  shows "\<exists>ts. vote_loop e specs n = (Ok (), n\<lparr>rpcPool := ts\<rparr>)"
  using assms
proof (induction specs arbitrary: n)
  case Nil
  then show ?case by (intro exI [of _ "rpcPool n"]) simp
next
  case (Cons spec specs)
  have IH: "\<exists>ts. vote_loop e specs (n\<lparr>rpcPool := ts0\<rparr>) = (Ok (), n\<lparr>rpcPool := ts\<rparr>)" for ts0
    using Cons.IH [of "n\<lparr>rpcPool := ts0\<rparr>"] Cons.prems by simp
  show ?case
    using Cons IH by (cases "split_peer spec") (auto simp: peer_ok_def enqueue_def split: prod.splits outcome.splits)
qed

lemma inv_heartbeats:
  assumes "node_ok n" "role n = LEADER" "alive (fst (sendHeartbeatsInternal env n))"
  shows "fst (sendHeartbeatsInternal env n) = Ok () \<and> node_inv (snd (sendHeartbeatsInternal env n))"
proof -
  let ?m = "if peerAddrs n = [] then applyStateMachine env else append_loop HeartbeatTask (peerAddrs n)"
  have eq: "sendHeartbeatsInternal env n = abind ?m (\<lambda>_. modify restart_heartbeat) n"
    using assms(2) by (simp add: sendHeartbeatsInternal_def)
  have m: "\<exists>n1. ?m n = (Ok (), n1) \<and> node_ok n1 \<and> role n1 = LEADER"
  proof (cases "peerAddrs n = []")
    case True
    then have "alive (fst (applyStateMachine env n))"
      using assms(3) by (cases "applyStateMachine env n"; cases "fst (applyStateMachine env n)")
        (auto simp: eq abind.simps)
    then show ?thesis
      using ok_apply_between [OF assms(1), of env] frame_fields(1) [of "snd (applyStateMachine env n)" n] assms(2) True
      by (metis prod.collapse)
  next
    case False
    then show ?thesis
      using ok_append_loop [of n "peerAddrs n" HeartbeatTask] assms(1,2) by (auto simp: node_ok_def)
  qed
  then obtain n1 where n1: "?m n = (Ok (), n1)" "node_ok n1" "role n1 = LEADER" by blast
  have "sendHeartbeatsInternal env n = (Ok (), restart_heartbeat n1)"
    using n1(1) by (simp only: eq abind.simps modify_def split)  simp
  moreover have "node_inv (restart_heartbeat n1)"
    using n1(2,3) by (simp add: node_inv_def node_ok_def timers_ok_def restart_heartbeat_def one_shot_timer.restart)
  ultimately show ?thesis by simp
qed

lemma keeps_heartbeats: "keeps (sendHeartbeatsInternal env)"
proof -
  have "node_inv (snd (sendHeartbeatsInternal env n))"
    if "node_inv n" "alive (fst (sendHeartbeatsInternal env n))" for n
    using that inv_heartbeats [of n env]
    by (cases "role n = LEADER") (simp_all add: node_inv_def sendHeartbeatsInternal_def)
  then show ?thesis by (simp add: keeps_def)
qed

lemma inv_becomeFollower:
  assumes "inv_env env" "node_ok n"
  shows "node_inv (becomeFollower env t n)"
proof -
  let ?n1 = "n\<lparr>role := FOLLOWER, currentTerm := t, votedFor := [], heartbeatTimer := timer_cancel (heartbeatTimer n)\<rparr>"
  have "node_ok ?n1" using assms(2) by (simp add: node_ok_def)
  then have "node_inv (resetElectionTimer env ?n1)" by (rule inv_reset_follower) simp
  then show ?thesis
    using assms(1) by (simp add: becomeFollower_def Let_def inv_env_def)
qed

lemma ok_fold_update:
  assumes "wf_alist m" "\<forall>v \<in> snd ` set m. P v" "P x"
  shows "wf_alist (fold (\<lambda>k. AList.update k x) ks m) \<and> (\<forall>v \<in> snd ` set (fold (\<lambda>k. AList.update k x) ks m). P v)"
  using assms(1,2)
proof (induction ks arbitrary: m)
  case (Cons k ks)
  have "wf_alist (AList.update k x m)" using Cons.prems(1) by simp
  from Cons.IH [OF this all_update [OF Cons.prems(2) assms(3), of k]]
  show ?case by simp
qed simp

lemma ok_init_leader:
  assumes "node_ok n"
  shows "node_ok (init_leader_state n)" and "role (init_leader_state n) = role n"
proof -
  show "role (init_leader_state n) = role n" by (simp add: init_leader_state_def Let_def)
  let ?ks = "map fst (List.map_filter split_peer (peerAddrs n))"
  have "wf_alist (fold (\<lambda>k. AList.update k (len (log n))) ?ks (nextIndex n)) \<and>
      (\<forall>v \<in> snd ` set (fold (\<lambda>k. AList.update k (len (log n))) ?ks (nextIndex n)). 0 \<le> v)"
    by (rule ok_fold_update) (use assms in \<open>auto simp: node_ok_def\<close>)
  moreover have "wf_alist (fold (\<lambda>k. AList.update k (-1)) ?ks (matchIndex n))"
    using ok_fold_update [of "matchIndex n" "\<lambda>_. True" "-1" ?ks] assms by (simp add: node_ok_def)
  ultimately show "node_ok (init_leader_state n)"
    using assms by (simp add: node_ok_def init_leader_state_def Let_def)
qed

lemma inv_becomeLeader:
  assumes env: "inv_env env" and n: "node_ok n" "role n \<noteq> LEADER" and "alive (fst (becomeLeaderInternal env n))"
  shows "fst (becomeLeaderInternal env n) = Ok () \<and> node_inv (snd (becomeLeaderInternal env n))"
proof -
  let ?n1 = "init_leader_state (n\<lparr>electionTimer := timer_cancel (electionTimer n), role := LEADER\<rparr>)"
  let ?gap = "\<lambda>n. others env 1 (startDiscoveryService env (others env 0 n))"
  have eq: "becomeLeaderInternal env n = abind (sendHeartbeatsInternal env) (\<lambda>_. modify ?gap) ?n1"
    using n(2) by (simp add: becomeLeaderInternal_def)
  have "node_ok (n\<lparr>electionTimer := timer_cancel (electionTimer n), role := LEADER\<rparr>)"
    using n(1) by (simp add: node_ok_def)
  then have ok: "node_ok ?n1" "role ?n1 = LEADER" using ok_init_leader by simp_all
  have "alive (fst (sendHeartbeatsInternal env ?n1))"
    using assms(4) by (cases "sendHeartbeatsInternal env ?n1"; cases "fst (sendHeartbeatsInternal env ?n1)")
      (auto simp: eq abind.simps)
  then obtain n2 where n2: "sendHeartbeatsInternal env ?n1 = (Ok (), n2)" "node_inv n2"
    using inv_heartbeats [OF ok] by (metis prod.collapse)
  then show ?thesis
    using env by (simp add: eq abind.simps modify_def inv_env_def)
qed

lemma inv_startElection:
  assumes env: "inv_env env" and n: "node_ok n" and "alive (fst (startElection env n))"
  shows "node_inv (snd (startElection env n))"
proof -
  let ?n1 = "n\<lparr>role := CANDIDATE, currentTerm := currentTerm n + 1, votedFor := nodeId n\<rparr>"
  let ?n2 = "resetElectionTimer env ?n1"
  let ?n3 = "?n2\<lparr>elections := elections ?n2 @ [(1, False)]\<rparr>"
  have fits: "currentTerm n \<noteq> INT_MAX" using assms(3) by (auto simp: startElection_def)
  have eq: "startElection env n = (if 1 \<ge> majority ?n3 then becomeLeaderInternal env ?n3
      else vote_loop (length (elections ?n2)) (peerAddrs ?n3) ?n3)"
    using fits by (simp add: startElection_def Let_def)
  have 2: "node_inv ?n2" using n by (simp add: inv_reset_follower)
  have 3: "node_inv ?n3" using 2 by (simp only: node_inv_updates)
  then have 3: "node_inv ?n3" "node_ok ?n3" "role ?n3 \<noteq> LEADER" by (simp_all add: node_inv_def)
  show ?thesis
  proof (cases "1 \<ge> majority ?n3")
    case True
    then show ?thesis using inv_becomeLeader [OF env 3(2,3)] assms(3) eq by simp
  next
    case False
    have "\<forall>p \<in> set (peerAddrs ?n3). peer_ok p" using 3(2) unfolding node_ok_def by blast
    then obtain ts where "vote_loop (length (elections ?n2)) (peerAddrs ?n3) ?n3 = (Ok (), ?n3\<lparr>rpcPool := ts\<rparr>)"
      using ok_vote_loop by blast
    then show ?thesis using False 3(1) eq by simp
  qed
qed

lemma ok_timer_fire:
  assumes "node_ok n"
  shows "i < length (due (electionTimer n)) \<Longrightarrow> node_ok (n\<lparr>electionTimer := timer_fire i (electionTimer n)\<rparr>)"
    and "i < length (due (heartbeatTimer n)) \<Longrightarrow> node_ok (n\<lparr>heartbeatTimer := timer_fire i (heartbeatTimer n)\<rparr>)"
  using assms by (auto simp: node_ok_def timer_wf_fire)

lemma keeps_election_timeout:
  assumes "inv_env env"
  shows "keeps (election_timeout env i)"
  unfolding keeps_def
proof (intro allI impI)
  fix n
  assume n: "node_inv n" "alive (fst (election_timeout env i n))"
  let ?n = "n\<lparr>electionTimer := timer_fire i (electionTimer n)\<rparr>"
  show "node_inv (snd (election_timeout env i n))"
  proof (cases "i < length (due (electionTimer n))")
    case True
    have ok: "node_ok ?n" using n(1) ok_timer_fire(1) [OF _ True] by (simp add: node_inv_def)
    show ?thesis
    proof (cases "role n = LEADER")
      case leader: True
      then show ?thesis
        using n(1) ok True by (simp add: election_timeout_def election_callback_def node_inv_def timers_ok_def)
    next
      case False
      then have "election_timeout env i n = startElection env ?n"
        using True by (cases "role n") (simp_all add: election_timeout_def election_callback_def)
      then show ?thesis using inv_startElection [OF assms ok] n(2) by simp
    qed
  qed (use n in \<open>simp add: election_timeout_def\<close>)
qed

lemma keeps_heartbeat_timeout: "keeps (heartbeat_timeout env i)"
  unfolding keeps_def
proof (intro allI impI)
  fix n
  assume n: "node_inv n" "alive (fst (heartbeat_timeout env i n))"
  let ?n = "n\<lparr>heartbeatTimer := timer_fire i (heartbeatTimer n)\<rparr>"
  show "node_inv (snd (heartbeat_timeout env i n))"
  proof (cases "i < length (due (heartbeatTimer n))")
    case True
    have ok: "node_ok ?n" using n(1) ok_timer_fire(2) [OF _ True] by (simp add: node_inv_def)
    have eq: "heartbeat_timeout env i n = sendHeartbeatsInternal env ?n"
      using True by (simp add: heartbeat_timeout_def heartbeat_callback_def)
    show ?thesis
    proof (cases "role n = LEADER")
      case leader: True
      then show ?thesis using inv_heartbeats [OF ok] n(2) eq by simp
    next
      case False
      then show ?thesis
        using n(1) ok by (simp add: eq sendHeartbeatsInternal_def node_inv_def timers_ok_def)
    qed
  qed (use n in \<open>simp add: heartbeat_timeout_def\<close>)
qed

lemma keeps_wakes: "keeps (modify (election_wake i))" "keeps (modify (heartbeat_wake i))"
proof -
  show "keeps (modify (election_wake i))"
    using timer_wf_wake pending_wake
    by (auto simp: keeps_def modify_def election_wake_def node_inv_def node_ok_def timers_ok_def)
  show "keeps (modify (heartbeat_wake i))"
    using timer_wf_wake pending_wake
    by (auto simp: keeps_def modify_def heartbeat_wake_def node_inv_def node_ok_def timers_ok_def)
qed

lemma keeps_handle_vote:
  assumes "inv_env env"
  shows "keeps (handle_vote env t candidate i lt)"
proof -
  have "node_inv (snd (handle_vote env t candidate i lt n))" if n: "node_inv n" for n
  proof -
    define n1 where "n1 = (if t > currentTerm n then becomeFollower env t n else n)"
    have "node_inv n1"
      using inv_becomeFollower [OF assms] n by (simp add: n1_def node_inv_def)
    then have "node_inv (resetElectionTimer env (n1\<lparr>votedFor := candidate\<rparr>))"
      by (intro inv_reset) simp
    then show ?thesis
      using \<open>node_inv n1\<close> n by (simp add: handle_vote_def Let_def n1_def [symmetric])
  qed
  then show ?thesis by (simp add: keeps_def)
qed

lemma keeps_onRequestVote: "inv_env env \<Longrightarrow> keeps (onRequestVote env req)"
  unfolding onRequestVote_def by (intro keeps_abind keeps_simps keeps_handle_vote)

lemma keeps_on_log: "keeps (on_log m)"
  by (auto simp: keeps_def on_log_def split: prod.split)

lemma keeps_update_commit: "keeps (update_commit env req)"
proof -
  have "node_inv (snd (applyStateMachine env (n\<lparr>commitIndex := min c (len (log n) - 1)\<rparr>)))"
    if n: "node_inv n" "c > commitIndex n"
      "alive (fst (applyStateMachine env (n\<lparr>commitIndex := min c (len (log n) - 1)\<rparr>)))" for n c
  proof -
    let ?n = "n\<lparr>commitIndex := min c (len (log n) - 1)\<rparr>"
    have ok: "node_ok n" "-1 \<le> commitIndex n" using n(1) by (auto simp: node_inv_def node_ok_def)
    have 1: "node_ok (?n\<lparr>commitIndex := -1\<rparr>)" using node_ok_indices(3) [OF ok(1)] by simp
    have 2: "-1 \<le> commitIndex ?n" "lastApplied ?n < commitIndex ?n \<longrightarrow> commitIndex ?n < len (log ?n)"
      using ok(2) n(2) by (auto simp: min_less_iff_disj)
    have "node_ok (snd (applyStateMachine env ?n))" "frame_of (snd (applyStateMachine env ?n)) = frame_of ?n"
      using ok_apply [OF 2 1 n(3)] by blast+
    then show ?thesis
      using timers_frame [of "snd (applyStateMachine env ?n)" ?n] n(1) by (simp add: node_inv_def)
  qed
  then have "keeps (\<lambda>n. if c > commitIndex n
      then applyStateMachine env (n\<lparr>commitIndex := min c (len (log n) - 1)\<rparr>) else (Ok (), n))" for c
    by (simp add: keeps_def)
  then have "keeps (abind (lift (int_at req ''leaderCommit'')) (\<lambda>leaderCommit n.
      if leaderCommit > commitIndex n
      then applyStateMachine env (n\<lparr>commitIndex := min leaderCommit (len (log n) - 1)\<rparr>) else (Ok (), n)))"
    by (intro keeps_abind keeps_simps)
  then show ?thesis by (simp add: keeps_def update_commit_def)
qed

lemma keeps_store_entries: "keeps (store_entries env req p pt entries t0)"
proof -
  have "keeps (\<lambda>n. (Ok (append_reply (currentTerm n) True), n))" by (simp add: keeps_def)
  then have "keeps (abind (on_log (append_entries_loop (p + 1) (json_items entries))) (\<lambda>_.
      abind (update_commit env req) (\<lambda>_ n. (Ok (append_reply (currentTerm n) True), n))))"
    by (intro keeps_abind keeps_on_log keeps_update_commit)
  then show ?thesis by (simp add: keeps_def store_entries_def inv_reset)
qed

lemma keeps_handle_append: "keeps (handle_append env req t0)"
  unfolding handle_append_def
  by (auto intro!: keeps_abind keeps_store_entries simp: keeps_def [of "\<lambda>n. (Ok (append_reply (currentTerm n) True), n)"])

lemma keeps_onAppendEntries:
  assumes "inv_env env"
  shows "keeps (onAppendEntries env req)"
  unfolding onAppendEntries_def
proof (intro keeps_abind keeps_simps)
  fix t leaderId
  have "node_inv n1" if "node_inv n" "accept_leader env t leaderId n = Some n1" for n n1
    using that inv_becomeFollower [OF assms, of n] inv_reset [of n]
    by (auto simp: accept_leader_def node_inv_def split: if_splits)
  then show "keeps (\<lambda>n. if t < currentTerm n then (Ok (append_reply (currentTerm n) False), n)
      else case accept_leader env t leaderId n of None \<Rightarrow> (Ok (append_reply (currentTerm n) False), n)
        | Some n1 \<Rightarrow> handle_append env req (currentTerm n) n1)"
    using keeps_handle_append [of env req] by (simp add: keeps_def split: option.split)
qed

lemma keeps_vote_outcome:
  assumes "inv_env env"
  shows "keeps (vote_outcome env t needed e rt granted)"
  unfolding keeps_def
proof (intro allI impI)
  fix n
  assume n: "node_inv n" "alive (fst (vote_outcome env t needed e rt granted n))"
  have ok: "node_ok n" using n(1) by (simp add: node_inv_def)
  obtain votes won where vw: "elections n ! e = (votes, won)" by force
  have lead: "node_inv (snd (becomeLeaderInternal env (n\<lparr>elections := es\<rparr>)))"
    if "role n = CANDIDATE" "alive (fst (becomeLeaderInternal env (n\<lparr>elections := es\<rparr>)))" for es
    using inv_becomeLeader [OF assms, of "n\<lparr>elections := es\<rparr>"] that ok by simp
  show "node_inv (snd (vote_outcome env t needed e rt granted n))"
    using n inv_becomeFollower [OF assms ok, of rt] lead vw
    by (auto simp: vote_outcome_def count_vote_def Let_def split: if_splits)
qed

lemma keeps_replicated:
  assumes "0 \<le> i" "0 < c"
  shows "keeps (replicated env p i c)"
proof -
  have "node_inv (n\<lparr>matchIndex := AList.update p (i + c - 1) (matchIndex n),
      nextIndex := AList.update p (i + c) (nextIndex n)\<rparr>)" if "node_inv n" for n
  proof -
    have n: "node_ok n" "timers_ok n" using that by (simp_all add: node_inv_def)
    have "\<forall>v \<in> snd ` set (AList.update p (i + c) (nextIndex n)). 0 \<le> v"
      using n(1) assms by (intro all_update) (simp_all add: node_ok_def)
    then show ?thesis using n by (simp add: node_inv_def) (simp add: node_ok_def)
  qed
  then show ?thesis using keeps_apply [of env] by (simp add: keeps_def replicated_def)
qed

lemma keeps_backtrack: "keeps (backtrack p resp)"
proof -
  have upd: "node_inv (n\<lparr>nextIndex := AList.update p v (nextIndex n)\<rparr>)" if "node_inv n" "0 \<le> v" for n v
  proof -
    have n: "node_ok n" "timers_ok n" using that by (simp_all add: node_inv_def)
    have "\<forall>w \<in> snd ` set (AList.update p v (nextIndex n)). 0 \<le> w"
      using n(1) that(2) by (intro all_update) (simp_all add: node_ok_def)
    then show ?thesis using n by (simp add: node_inv_def) (simp add: node_ok_def)
  qed
  have ci: "keeps (abind (lift (int_at resp ''conflictIndex'')) (\<lambda>ci.
      modify (\<lambda>n. n\<lparr>nextIndex := AList.update p (max 0 ci) (nextIndex n)\<rparr>)))"
    by (intro keeps_abind keeps_simps) (simp add: keeps_def modify_def upd)
  show ?thesis
    unfolding keeps_def
  proof (intro allI impI)
    fix n
    assume n: "node_inv n" "alive (fst (backtrack p resp n))"
    obtain v m where vm: "index_ref p (nextIndex n) = (v, m)" by force
    have "wf_alist (nextIndex n)" "\<forall>v \<in> snd ` set (nextIndex n). 0 \<le> v"
      using n(1) unfolding node_inv_def node_ok_def by blast+
    then have m: "wf_alist m" "\<forall>v \<in> snd ` set m. 0 \<le> v" "0 \<le> v"
      using wf_index_ref [OF vm] by blast+
    then have 1: "node_inv (n\<lparr>nextIndex := m\<rparr>)"
      using n(1) by (simp add: node_inv_def) (simp add: node_ok_def)
    show "node_inv (snd (backtrack p resp n))"
      using n(2) 1 ci upd [OF 1, of "v - 1"] by (auto simp: backtrack_def vm keeps_def Let_def split: if_splits)
  qed
qed

text \<open>What the loop that made a task put into it: an index and a number of entries.\<close>

fun task_ok :: "task \<Rightarrow> bool" where
  "task_ok (VoteTask peerId peerPort params t needed e) = True"
| "task_ok (HeartbeatTask peerId peerPort params t i c) = (0 \<le> i \<and> 0 \<le> c)"
| "task_ok (ReplicateTask peerId peerPort params t i c) = (0 \<le> i \<and> 0 \<le> c)"
| "task_ok (ReplicateInternalTask peerId peerPort params t i c) = (0 \<le> i \<and> 0 \<le> c)"

lemma keeps_append_outcomes:
  assumes "inv_env env" "0 \<le> i"
  shows "keeps (heartbeat_outcome env p t i c resp rt s)" "keeps (replicate_outcome env p t i c resp rt s)"
proof -
  have f: "node_inv n \<Longrightarrow> node_inv (becomeFollower env rt n)" for n
    using inv_becomeFollower [OF assms(1)] by (simp add: node_inv_def)
  have r: "0 < c \<Longrightarrow> keeps (replicated env p i c)" by (rule keeps_replicated [OF assms(2)])
  show "keeps (heartbeat_outcome env p t i c resp rt s)" "keeps (replicate_outcome env p t i c resp rt s)"
    using f r keeps_backtrack [of p resp]
    by (auto simp: keeps_def heartbeat_outcome_def replicate_outcome_def split: if_splits)
qed

lemma keeps_run_task:
  assumes "inv_env env" "task_ok task"
  shows "keeps (run_task env task response)"
  using assms(2)
  by (cases task)
     (auto simp: vote_response_def heartbeat_response_def replicate_response_def replicate_internal_response_def
        intro!: keeps_swallow keeps_abind keeps_if keeps_vote_outcome keeps_append_outcomes assms(1))

lemma keeps_replicate: "keeps (replicateLogInternal env)"
proof -
  have "node_inv (snd (append_loop ReplicateInternalTask (peerAddrs n) n))" if n: "node_inv n" for n
  proof -
    obtain m ts where "append_loop ReplicateInternalTask (peerAddrs n) n = (Ok (), n\<lparr>nextIndex := m, rpcPool := ts\<rparr>)"
        "node_ok (n\<lparr>nextIndex := m, rpcPool := ts\<rparr>)"
      using ok_append_loop [of n "peerAddrs n" ReplicateInternalTask] n unfolding node_inv_def node_ok_def by blast
    then show ?thesis
      using n by (simp add: node_inv_def timers_ok_def)
  qed
  then show ?thesis using keeps_apply [of env] by (simp add: keeps_def replicateLogInternal_def)
qed

lemma keeps_submit: "keeps (submitCommand env c)"
proof -
  have "keeps (\<lambda>n. if peerAddrs n = [] then applyStateMachine env n else (Ok (), n))"
    using keeps_apply [of env] by (simp add: keeps_def)
  moreover have "keeps (modify (\<lambda>n. n\<lparr>log := log n @ [\<lparr>eterm = currentTerm n, command = c\<rparr>]\<rparr>))"
    by (simp add: keeps_def modify_def)
  ultimately have "keeps (abind (modify (\<lambda>n. n\<lparr>log := log n @ [\<lparr>eterm = currentTerm n, command = c\<rparr>]\<rparr>)) (\<lambda>_.
      abind (replicateLogInternal env) (\<lambda>_.
      abind (\<lambda>n. if peerAddrs n = [] then applyStateMachine env n else (Ok (), n)) (\<lambda>_. ret True))))"
    by (intro keeps_abind keeps_replicate keeps_simps)
  then show ?thesis by (simp add: keeps_def submitCommand_def)
qed

fun event_ok :: "node_event \<Rightarrow> bool" where
  "event_ok (TaskDone t response) = task_ok t"
| "event_ok _ = True"

lemma keeps_event:
  assumes "inv_env env" "event_ok ev"
  shows "keeps (run_event env ev)"
  using assms
  by (cases ev)
     (auto simp: no_result_def keeps_wakes keeps_heartbeat_timeout intro!: keeps_abind keeps_onRequestVote
        keeps_onAppendEntries keeps_election_timeout keeps_run_task keeps_submit,
      simp add: keeps_def modify_def)

section \<open>Runs\<close>

text \<open>
  A run of a node: any events, in any order, each with its own surroundings. What other threads
  do in the gaps of an event is bound by the same moves and the same invariant.
\<close>

inductive node_run :: "raft_node \<Rightarrow> raft_node \<Rightarrow> bool" where
  start: "node_run n n"
| step: "node_run n n1 \<Longrightarrow> ballot_env env \<Longrightarrow> inv_env env \<Longrightarrow> event_ok ev \<Longrightarrow>
    run_event env ev n1 = (r, n2) \<Longrightarrow> alive r \<Longrightarrow> node_run n n2"

lemma node_run_ballot: "node_run n n' \<Longrightarrow> ballot_steps (ballot_of n) (ballot_of n')"
proof (induction rule: node_run.induct)
  case (step n n1 env ev r n2)
  then show ?case using movesD [OF moves_event] rtranclp_trans by metis
qed simp

lemma node_run_inv: "node_run n n' \<Longrightarrow> node_inv n \<Longrightarrow> node_inv n'"
proof (induction rule: node_run.induct)
  case (step n n1 env ev r n2)
  then show ?case using keeps_event [OF step.hyps(3,4)] by (metis fst_conv keeps_def snd_conv)
qed simp

lemma inv_start:
  assumes "\<forall>p \<in> set peers. peer_ok p"
  shows "node_inv (raft_start env (raft_node_new i port peers))"
proof -
  have "node_ok ((raft_node_new i port peers)\<lparr>role := FOLLOWER\<rparr>)"
    using assms by (simp add: node_ok_def raft_node_new_def)
  then show ?thesis unfolding raft_start_def by (rule inv_reset_follower) simp
qed

text \<open>The run of one vote request, used as an example below.\<close>

definition voted_node :: raft_node where
  "voted_node = snd (run_event calm_env (VoteRequest (vote_params example_candidate)) example_node)"

lemma calm_env_ok: "ballot_env calm_env" "inv_env calm_env"
  by (simp_all add: ballot_env_def inv_env_def)

lemma voted_node_run: "node_run example_node voted_node"
proof -
  have "run_event calm_env (VoteRequest (vote_params example_candidate)) example_node = (Ok (), voted_node)"
    unfolding voted_node_def by (rule pair_ok) code_simp
  then show ?thesis
    using node_run.step [OF node_run.start calm_env_ok, of "VoteRequest (vote_params example_candidate)" example_node]
    by simp
qed

text \<open>A candidate: the example node after its first election timeout.\<close>

definition standing_node :: raft_node where
  "standing_node = snd (run_event calm_env (ElectionTimeout 0) (snd (run_event calm_env (ElectionWake 0) example_node)))"

lemma standing_node_run: "node_run example_node standing_node"
proof -
  let ?n = "snd (run_event calm_env (ElectionWake 0) example_node)"
  have 1: "run_event calm_env (ElectionWake 0) example_node = (Ok (), ?n)" by (rule pair_ok) code_simp
  have 2: "run_event calm_env (ElectionTimeout 0) ?n = (Ok (), standing_node)"
    unfolding standing_node_def by (rule pair_ok) code_simp
  show ?thesis
    using node_run.step [OF node_run.step [OF node_run.start calm_env_ok _ 1] calm_env_ok _ 2] by simp
qed

section \<open>Properties\<close>

text \<open>C14: whatever request, response, timer or command reaches a node, its term, vote and role
  change only by the moves of the abstract ballot automaton: stepping down, granting a vote,
  standing for the next term, and winning as a candidate.\<close>

theorem event_refines_ballot:
  assumes "ballot_env env"
  shows "ballot_steps (ballot_of n) (ballot_of (snd (run_event env ev n)))"
  using moves_event [OF assms] by (simp add: moves_def)

theorem event_refines_ballot_witness: "ballot_steps (ballot_of example_node) (ballot_of voted_node)"
  unfolding voted_node_def by (rule event_refines_ballot [OF calm_env_ok(1)])

text \<open>A node's term never goes back, over any sequence of events.\<close>

theorem term_monotone:
  assumes "node_run n n'"
  shows "currentTerm n \<le> currentTerm n'"
  using ballot_steps_term [OF node_run_ballot [OF assms]] by simp

theorem term_monotone_witness: "currentTerm example_node \<le> currentTerm voted_node \<and> currentTerm voted_node = 2"
  using term_monotone [OF voted_node_run] by (rule conjI) code_simp

text \<open>C13: a follower that has voted keeps its vote, and stays a follower, as long as its term lasts;
  so no follower votes for two candidates in a term.\<close>

theorem follower_votes_once:
  assumes "node_run n n'" "role n = FOLLOWER" "votedFor n \<noteq> []" "currentTerm n' = currentTerm n"
  shows "votedFor n' = votedFor n \<and> role n' = FOLLOWER"
  using ballot_steps_follower [OF node_run_ballot [OF assms(1)]] assms(2-4) by simp

theorem follower_votes_once_witness: "votedFor voted_node = ''n2'' \<and> role voted_node = FOLLOWER"
proof -
  have v: "votedFor voted_node = ''n2''" "role voted_node = FOLLOWER" by code_simp+
  then show ?thesis using follower_votes_once [OF node_run.start [of voted_node]] by simp
qed

text \<open>From the start on, a node that stands for election or leads has voted for itself.\<close>

theorem candidate_self_vote:
  assumes "node_run (raft_start env (raft_node_new i port peers)) n'" "i \<noteq> []" "role n' \<noteq> FOLLOWER"
  shows "votedFor n' = nodeId n'"
proof -
  let ?n = "raft_start env (raft_node_new i port peers)"
  have "self_vote (ballot_of ?n)" "bself (ballot_of ?n) \<noteq> []"
    using assms(2) by (simp_all add: self_vote_def raft_start_def raft_node_new_def resetElectionTimer_def Let_def)
  then show ?thesis
    using ballot_steps_self_vote [OF node_run_ballot [OF assms(1)]] assms(3) by (simp add: self_vote_def)
qed

theorem candidate_self_vote_witness: "role standing_node = CANDIDATE \<and> votedFor standing_node = nodeId standing_node"
proof -
  have "role standing_node = CANDIDATE" by code_simp
  then show ?thesis
    using candidate_self_vote [OF standing_node_run [unfolded example_node_def]] by simp
qed

text \<open>C17: the fields of a node stay well-formed over any run: \<open>commitIndex\<close> never passes
  \<open>lastApplied\<close> between events, no peer's next index is negative, the maps have one entry per
  key; a follower or candidate always has an election timeout on its way, and a leader a
  heartbeat, so no node falls silent.\<close>

theorem node_invariant:
  assumes "node_run (raft_start env (raft_node_new i port peers)) n'" "\<forall>p \<in> set peers. peer_ok p"
  shows "node_inv n'"
  using node_run_inv [OF assms(1) inv_start [OF assms(2)]] .

theorem node_invariant_witness: "node_inv voted_node"
proof -
  have "\<forall>p \<in> set [''n2:5002'', ''n3:5003'']. peer_ok p" by code_simp
  then show ?thesis using node_invariant [OF voted_node_run [unfolded example_node_def]] by blast
qed

end
