(* ===== verification/Raft_Vote.thy ===== *)
theory Raft_Vote imports Raft_Invariant begin

text \<open>
  The voting rule of \<open>onRequestVote\<close>, and where the rules of the paper are not kept: a candidate
  that steps down within its term forgets its own vote, and a follower commits by the indices
  of a leadership it has lost. Requests without the expected members end the process.
\<close>

section \<open>The voting rule\<close>

text \<open>A candidate's request is granted by a node exactly when this holds.\<close>

definition grants :: "raft_node \<Rightarrow> raft_node \<Rightarrow> bool" where
  "grants n c \<longleftrightarrow>
     currentTerm n \<le> currentTerm c \<and>
     (currentTerm n < currentTerm c \<or> votedFor n = [] \<or> votedFor n = nodeId c) \<and>
     log_position n \<le> log_position c"

lemma vote_params_at:
  "json_at (vote_params c) ''term'' = Ok (JInteger (currentTerm c))"
  "json_at (vote_params c) ''candidateId'' = Ok (JString (nodeId c))"
  "json_at (vote_params c) ''lastLogIndex'' = Ok (JInteger (lastLogIndex c))"
  "json_at (vote_params c) ''lastLogTerm'' = Ok (JInteger (lastLogTerm c))"
  by (auto simp: vote_params_def json_object_def Let_def)

lemma last_fits: "log_fits (log c) \<Longrightarrow> is_int32 (lastLogIndex c) \<and> is_int32 (lastLogTerm c)"
  by (auto simp: log_fits_def lastLogIndex_def lastLogTerm_def is_int32_def INT_MAX_def INT_MIN_def)

lemma onRequestVote_request:
  assumes "is_int32 (currentTerm c)" "log_fits (log c)"
  shows "onRequestVote env (vote_params c) n =
    handle_vote env (currentTerm c) (nodeId c) (lastLogIndex c) (lastLogTerm c) n"
  using assms(1) last_fits [OF assms(2)]
  by (simp add: onRequestVote_def vote_params_at int_at_def string_at_def abind.simps lift_def)

lemma becomeFollower_fields:
  assumes "role n \<noteq> LEADER"
  shows "currentTerm (becomeFollower env t n) = t" "votedFor (becomeFollower env t n) = []"
    "role (becomeFollower env t n) = FOLLOWER" "nodeId (becomeFollower env t n) = nodeId n"
    "lastLogTerm (becomeFollower env t n) = lastLogTerm n" "lastLogIndex (becomeFollower env t n) = lastLogIndex n"
  using assms by (simp_all add: becomeFollower_def resetElectionTimer_def Let_def lastLogTerm_def lastLogIndex_def)

lemma reset_fields [simp]:
  "votedFor (resetElectionTimer env n) = votedFor n" "role (resetElectionTimer env n) = role n"
  "currentTerm (resetElectionTimer env n) = currentTerm n"
  by (simp_all add: resetElectionTimer_def Let_def)

lemma up_to_date:
  "candTerm > lastLogTerm n \<or> (candTerm = lastLogTerm n \<and> candIndex \<ge> lastLogIndex n) \<longleftrightarrow>
   log_position n \<le> LogPosition candTerm candIndex"
  by (auto simp: log_position_def less_eq_log_position_def)

lemma handle_vote_rule:
  fixes n c env
  defines "r \<equiv> handle_vote env (currentTerm c) (nodeId c) (lastLogIndex c) (lastLogTerm c) n"
  assumes "role n = LEADER \<longrightarrow> currentTerm c \<le> currentTerm n"
  shows "fst r = Ok (vote_reply (max (currentTerm n) (currentTerm c)) (grants n c)) \<and>
    currentTerm (snd r) = max (currentTerm n) (currentTerm c) \<and> log (snd r) = log n \<and>
    votedFor (snd r) = (if grants n c then nodeId c else if currentTerm n < currentTerm c then [] else votedFor n)"
proof -
  consider "currentTerm c < currentTerm n" | "currentTerm c = currentTerm n"
    | "currentTerm n < currentTerm c" "role n \<noteq> LEADER" using assms(2) by linarith
  then show ?thesis
  proof cases
    case 3
    then show ?thesis
      by (auto simp: r_def handle_vote_def grants_def Let_def becomeFollower_fields log_becomeFollower
          log_position_def less_eq_log_position_def)
  qed (auto simp: r_def handle_vote_def grants_def Let_def log_position_def less_eq_log_position_def)
qed

section \<open>Properties\<close>



text \<open>
  A candidate that was told of the leader of its term, and then got a late request of another
  candidate of that term.
\<close>

definition rival :: raft_node where
  "rival = (raft_node_new ''n3'' 5003 [''n1:5001'', ''n2:5002''])\<lparr>currentTerm := 1, role := CANDIDATE, votedFor := ''n3''\<rparr>"

definition term_leader :: raft_node where
  "term_leader = (raft_node_new ''n2'' 5002 [''n1:5001'', ''n3:5003''])\<lparr>currentTerm := 1, role := LEADER, votedFor := ''n2''\<rparr>"

definition stood_down :: raft_node where
  "stood_down = snd (run_event calm_env (AppendRequest (append_params term_leader 0 [])) standing_node)"

definition voted_again :: raft_node where
  "voted_again = snd (run_event calm_env (VoteRequest (vote_params rival)) stood_down)"

lemma voted_again_run: "node_run standing_node voted_again"
proof -
  have 1: "run_event calm_env (AppendRequest (append_params term_leader 0 [])) standing_node = (Ok (), stood_down)"
    unfolding stood_down_def by (rule pair_ok) code_simp
  have 2: "run_event calm_env (VoteRequest (vote_params rival)) stood_down = (Ok (), voted_again)"
    unfolding voted_again_def by (rule pair_ok) code_simp
  show ?thesis
    using node_run.step [OF node_run.step [OF node_run.start calm_env_ok _ 1] calm_env_ok _ 2] by simp
qed


text \<open>Another candidate of the term in which \<open>voted_node\<close> has voted.\<close>

definition other_candidate :: raft_node where
  "other_candidate =
     (raft_node_new ''n3'' 5003 [''n1:5001'', ''n2:5002''])
       \<lparr>currentTerm := 2, role := CANDIDATE, votedFor := ''n3'', log := example_log\<rparr>"

text \<open>A node can vote twice in a term also by a restart: the vote and the term are in memory only,
  so the process that starts again as the same node grants the request of another candidate of the
  term in which it had voted.\<close>

theorem restart_votes_again:
  "node_run example_node voted_node \<and> currentTerm voted_node = 2 \<and> votedFor voted_node = ''n2'' \<and>
   (let restarted = raft_start calm_env (raft_node_new (nodeId voted_node) 5001 (peerAddrs voted_node))
    in fst (onRequestVote calm_env (vote_params other_candidate) restarted) = Ok (vote_reply 2 True) \<and>
       votedFor (snd (onRequestVote calm_env (vote_params other_candidate) restarted)) = ''n3'')"
proof -
  have "currentTerm voted_node = 2" "votedFor voted_node = ''n2''"
      "let restarted = raft_start calm_env (raft_node_new (nodeId voted_node) 5001 (peerAddrs voted_node))
       in fst (onRequestVote calm_env (vote_params other_candidate) restarted) = Ok (vote_reply 2 True) \<and>
          votedFor (snd (onRequestVote calm_env (vote_params other_candidate) restarted)) = ''n3''"
    by code_simp+
  then show ?thesis using voted_node_run by blast
qed

text \<open>
  A follower in a cluster of five, once a leader itself: three entries of term 1, of which two
  other nodes have copies. The leader of term 4 overwrites all but the first, and has so far
  committed only that one.
\<close>

definition former_leader :: raft_node where
  "former_leader =
     (raft_start calm_env (raft_node_new ''n1'' 5001 [''n2:5002'', ''n3:5003'', ''n4:5004'', ''n5:5005'']))
       \<lparr>currentTerm := 4, log := replicate 3 \<lparr>eterm = 1, command = ''SET w1 active''\<rparr>,
        nextIndex := [(''n2'', 3), (''n3'', 3), (''n4'', 0), (''n5'', 0)],
        matchIndex := [(''n2'', 2), (''n3'', 2), (''n4'', -1), (''n5'', -1)]\<rparr>"

definition overwriting_leader :: raft_node where
  "overwriting_leader =
     (raft_node_new ''n4'' 5004 [''n1:5001'', ''n2:5002'', ''n3:5003'', ''n5:5005''])
       \<lparr>currentTerm := 4, role := LEADER, votedFor := ''n4'', commitIndex := 0, lastApplied := 0,
        log := [\<lparr>eterm = 1, command = ''SET w1 active''\<rparr>, \<lparr>eterm = 2, command = ''SET w1 lost''\<rparr>,
                \<lparr>eterm = 4, command = ''SET w2 active''\<rparr>]\<rparr>"

definition overwrite_request :: json where
  "overwrite_request = append_params overwriting_leader 1 (map entry_json (batch (log overwriting_leader) 1))"




end
