(* ===== verification/Raft_Effects.thy ===== *)
theory Raft_Effects imports Raft_Vote begin

text \<open>
  What the operations of a node do to the parts that matter to elections and to the replication
  of the log: its ballot, its vote counters, its log and match indices, and the tasks it hands
  to its thread pool. The gaps in which an operation gives up the mutex are taken to be calm
  here.
\<close>

section \<open>The face of a node\<close>

definition calm :: "env \<Rightarrow> bool" where
  "calm env \<longleftrightarrow> (\<forall>i n. others env i n = n)"

definition face :: "raft_node \<Rightarrow> ballot \<times> string list \<times> (int \<times> bool) list" where
  "face n = (ballot_of n, peerAddrs n, elections n)"

definition book :: "raft_node \<Rightarrow> log_entry list \<times> (string \<times> int) list" where
  "book n = (log n, matchIndex n)"

definition peer_ids :: "raft_node \<Rightarrow> string list" where
  "peer_ids n = map fst (List.map_filter split_peer (peerAddrs n))"

fun is_vote :: "task \<Rightarrow> bool" where
  "is_vote (VoteTask p port params t needed e) = True"
| "is_vote t = False"

fun task_peer :: "task \<Rightarrow> string" where
  "task_peer (VoteTask p port params t needed e) = p"
| "task_peer (HeartbeatTask p port params t i c) = p"
| "task_peer (ReplicateTask p port params t i c) = p"
| "task_peer (ReplicateInternalTask p port params t i c) = p"

fun task_term :: "task \<Rightarrow> int" where
  "task_term (VoteTask p port params t needed e) = t"
| "task_term (HeartbeatTask p port params t i c) = t"
| "task_term (ReplicateTask p port params t i c) = t"
| "task_term (ReplicateInternalTask p port params t i c) = t"

fun task_params :: "task \<Rightarrow> json" where
  "task_params (VoteTask p port params t needed e) = params"
| "task_params (HeartbeatTask p port params t i c) = params"
| "task_params (ReplicateTask p port params t i c) = params"
| "task_params (ReplicateInternalTask p port params t i c) = params"

text \<open>The first index that a task sends, and how many entries.\<close>

fun task_next :: "task \<Rightarrow> int" where
  "task_next (VoteTask p port params t needed e) = 0"
| "task_next (HeartbeatTask p port params t i c) = i"
| "task_next (ReplicateTask p port params t i c) = i"
| "task_next (ReplicateInternalTask p port params t i c) = i"

fun task_count :: "task \<Rightarrow> int" where
  "task_count (VoteTask p port params t needed e) = 0"
| "task_count (HeartbeatTask p port params t i c) = c"
| "task_count (ReplicateTask p port params t i c) = c"
| "task_count (ReplicateInternalTask p port params t i c) = c"

text \<open>A task that carries a piece of a log, with the term of the entry before it.\<close>

definition carried :: "log_entry list \<Rightarrow> task \<Rightarrow> bool" where
  "carried lg t \<longleftrightarrow>
     (\<exists>i pt es. task_next t = int i \<and> task_count t = len es \<and>
        json_at (task_params t) ''prevLogIndex'' = Ok (JInteger (int i - 1)) \<and>
        json_at (task_params t) ''prevLogTerm'' = Ok (JInteger pt) \<and>
        json_at (task_params t) ''entries'' = Ok (JArray (map entry_json es)) \<and>
        (es = [] \<or> (i \<le> length lg \<and> es = take (length es) (drop i lg) \<and> (0 < i \<longrightarrow> pt = eterm (lg ! (i - 1))))))"

text \<open>A task with which a leader sends its log, and one with which a candidate asks for a vote.\<close>

definition append_task :: "raft_node \<Rightarrow> task \<Rightarrow> bool" where
  "append_task n t \<longleftrightarrow>
     \<not> is_vote t \<and> role n = LEADER \<and> task_peer t \<in> set (peer_ids n) \<and> task_term t = currentTerm n \<and>
     json_at (task_params t) ''term'' = Ok (JInteger (currentTerm n)) \<and> carried (log n) t"

definition vote_task :: "raft_node \<Rightarrow> nat \<Rightarrow> task \<Rightarrow> bool" where
  "vote_task n e t \<longleftrightarrow>
     (\<exists>p port. t = VoteTask p port (vote_params n) (currentTerm n) (majority n) e \<and> p \<in> set (peer_ids n))"

lemma face_eq:
  "face n = face n' \<longleftrightarrow>
     currentTerm n = currentTerm n' \<and> votedFor n = votedFor n' \<and> role n = role n' \<and> nodeId n = nodeId n' \<and>
     peerAddrs n = peerAddrs n' \<and> elections n = elections n'"
  by (auto simp: face_def ballot_of_def)

lemma book_eq: "book n = book n' \<longleftrightarrow> log n = log n' \<and> matchIndex n = matchIndex n'"
  by (simp add: book_def)

lemma append_task_same: "face n = face n' \<Longrightarrow> book n = book n' \<Longrightarrow> append_task n t = append_task n' t"
  by (simp add: face_eq book_eq append_task_def peer_ids_def)

text \<open>An operation that only sends: face and book stay, the pool gets tasks of a leader.\<close>

definition sent :: "raft_node \<Rightarrow> raft_node \<Rightarrow> bool" where
  "sent n n' \<longleftrightarrow>
     face n' = face n \<and> book n' = book n \<and> (\<exists>ts. rpcPool n' = rpcPool n @ ts \<and> (\<forall>t \<in> set ts. append_task n t))"

lemma sent_refl [simp, intro]: "sent n n"
  by (simp add: sent_def)

lemma sent_same: "sent n n' \<Longrightarrow> face n' = face n \<and> book n' = book n"
  by (simp add: sent_def)

lemma sent_trans [trans]:
  assumes 1: "sent n n1" and 2: "sent n1 n2"
  shows "sent n n2"
proof -
  obtain ts where ts: "rpcPool n1 = rpcPool n @ ts" "\<forall>t \<in> set ts. append_task n t" using 1 unfolding sent_def by blast
  obtain us where us: "rpcPool n2 = rpcPool n1 @ us" "\<forall>t \<in> set us. append_task n1 t" using 2 unfolding sent_def by blast
  have "\<forall>t \<in> set (ts @ us). append_task n t"
    using ts(2) us(2) append_task_same [of n1 n] sent_same [OF 1] by auto
  moreover have "rpcPool n2 = rpcPool n @ (ts @ us)" using ts(1) us(1) by simp
  ultimately show ?thesis using sent_same [OF 1] sent_same [OF 2] unfolding sent_def by metis
qed

lemma sentI: "face n' = face n \<Longrightarrow> book n' = book n \<Longrightarrow> rpcPool n' = rpcPool n \<Longrightarrow> sent n n'"
  by (simp add: sent_def)

definition sends :: "(raft_node, 'a) action \<Rightarrow> bool" where
  "sends m \<longleftrightarrow> (\<forall>n. sent n (snd (m n)))"

lemma sent_abind:
  assumes "sent n (snd (m n))" "\<And>a. sends (f a)"
  shows "sent n (snd (abind m f n))"
proof (cases rule: abind_snd [of m f n])
  case (2 a)
  then show ?thesis using assms sent_trans [of n "snd (m n)" "snd (f a (snd (m n)))"] by (simp add: sends_def)
qed (use assms in simp)

lemma sends_abind [intro]: "sends m \<Longrightarrow> (\<And>a. sends (f a)) \<Longrightarrow> sends (abind m f)"
  unfolding sends_def [of m] sends_def [of "abind m f"] by (blast intro: sent_abind)

lemma sends_simps [simp, intro]: "sends (lift r)" "sends (ret a)" "sends (\<lambda>n. (r, n))"
  by (simp_all add: sends_def lift_def ret_def)

lemma sends_if: "(c \<Longrightarrow> sends a) \<Longrightarrow> (\<not> c \<Longrightarrow> sends b) \<Longrightarrow> sends (if c then a else b)"
  by simp

lemma sends_modify:
  "(\<And>n. face (f n) = face n) \<Longrightarrow> (\<And>n. book (f n) = book n) \<Longrightarrow> (\<And>n. rpcPool (f n) = rpcPool n) \<Longrightarrow> sends (modify f)"
  by (simp add: sends_def modify_def sent_def)

lemma face_updates [simp]:
  "face (n\<lparr>log := lg\<rparr>) = face n" "face (n\<lparr>commitIndex := i\<rparr>) = face n"
  "face (n\<lparr>lastApplied := i\<rparr>) = face n" "face (n\<lparr>nextIndex := m\<rparr>) = face n"
  "face (n\<lparr>matchIndex := m\<rparr>) = face n" "face (n\<lparr>stateMachine := sm\<rparr>) = face n"
  "face (n\<lparr>electionTimer := tm\<rparr>) = face n" "face (n\<lparr>heartbeatTimer := tm\<rparr>) = face n"
  "face (n\<lparr>discoverySocket := i\<rparr>) = face n" "face (n\<lparr>runningDiscoveryService := b\<rparr>) = face n"
  "face (n\<lparr>discoveryThread := b\<rparr>) = face n" "face (n\<lparr>rpcPool := ts\<rparr>) = face n"
  "face (n\<lparr>draws := k\<rparr>) = face n"
  by (simp_all add: face_eq)

lemma book_updates [simp]:
  "book (n\<lparr>commitIndex := i\<rparr>) = book n" "book (n\<lparr>lastApplied := i\<rparr>) = book n"
  "book (n\<lparr>nextIndex := m\<rparr>) = book n" "book (n\<lparr>stateMachine := sm\<rparr>) = book n"
  "book (n\<lparr>electionTimer := tm\<rparr>) = book n" "book (n\<lparr>heartbeatTimer := tm\<rparr>) = book n"
  "book (n\<lparr>discoverySocket := j\<rparr>) = book n" "book (n\<lparr>runningDiscoveryService := b\<rparr>) = book n"
  "book (n\<lparr>discoveryThread := b\<rparr>) = book n" "book (n\<lparr>rpcPool := ts\<rparr>) = book n"
  "book (n\<lparr>draws := k\<rparr>) = book n" "book (n\<lparr>role := r\<rparr>) = book n" "book (n\<lparr>currentTerm := t\<rparr>) = book n"
  "book (n\<lparr>votedFor := v\<rparr>) = book n" "book (n\<lparr>elections := es\<rparr>) = book n"
  by (simp_all add: book_eq)

lemma face_reset [simp]:
  "face (resetElectionTimer env n) = face n" "book (resetElectionTimer env n) = book n"
  "rpcPool (resetElectionTimer env n) = rpcPool n"
  by (simp_all add: resetElectionTimer_def Let_def)

lemma face_discovery [simp]:
  "face (startDiscoveryService env n) = face n" "book (startDiscoveryService env n) = book n"
  "rpcPool (startDiscoveryService env n) = rpcPool n" "face (stopDiscoveryService n) = face n"
  "book (stopDiscoveryService n) = book n" "rpcPool (stopDiscoveryService n) = rpcPool n"
  by (simp_all add: startDiscoveryService_def stopDiscoveryService_def split: option.split)

lemma pool_updates:
  "rpcPool (n\<lparr>log := lg\<rparr>) = rpcPool n" "rpcPool (n\<lparr>matchIndex := m\<rparr>) = rpcPool n"
  by simp_all

section \<open>Operations that only send\<close>

lemma quiet_apply_loop:
  "face (snd (apply_loop env n)) = face n \<and> book (snd (apply_loop env n)) = book n \<and>
   rpcPool (snd (apply_loop env n)) = rpcPool n"
proof (induction env n rule: apply_loop.induct)
  case (1 env n)
  then show ?case
    by (subst (1 2 3) apply_loop.simps) (auto simp: Let_def split: prod.split outcome.split)
qed

lemma sends_apply: "sends (applyStateMachine env)"
  using quiet_apply_loop [of env] by (auto simp: sends_def sent_def applyStateMachine_def split: outcome.split)

lemma peer_idsI: "spec \<in> set (peerAddrs n) \<Longrightarrow> split_peer spec = Some (p, port) \<Longrightarrow> p \<in> set (peer_ids n)"
  by (force simp: peer_ids_def map_filter_def)

definition append_maker :: "make_task \<Rightarrow> bool" where
  "append_maker mk \<longleftrightarrow>
     (\<forall>p port params t i c. \<not> is_vote (mk p port params t i c) \<and> task_peer (mk p port params t i c) = p \<and>
        task_term (mk p port params t i c) = t \<and> task_params (mk p port params t i c) = params \<and>
        task_next (mk p port params t i c) = i \<and> task_count (mk p port params t i c) = c)"

lemma append_makers: "append_maker HeartbeatTask" "append_maker ReplicateTask" "append_maker ReplicateInternalTask"
  by (simp_all add: append_maker_def)

lemma carried_params:
  assumes "collect_entries (log n) i MAX_ENTRIES_PER_RPC = Ok js" "log n' = log n"
    and "task_params t = append_params n' i js" "task_next t = i" "task_count t = len js"
  shows "carried (log n) t"
proof -
  have i: "0 \<le> i"
    using assms(1) by (cases "0 \<le> i") (auto simp: MAX_ENTRIES_PER_RPC_def numeral_nat)
  define es where "es = batch (log n) i"
  have js: "js = map entry_json es"
    using assms(1) collect_entries_batch [OF i] by (simp add: es_def batch_def)
  have "es = take (length es) (drop (nat i) (log n))" by (simp add: es_def batch_def min_def)
  moreover have "es = [] \<or> nat i \<le> length (log n)"
    by (cases "nat i \<le> length (log n)") (simp_all add: es_def batch_def)
  moreover have "prev_term n' i = eterm (log n ! (nat i - 1))" if "0 < nat i" "nat i \<le> length (log n)"
    using that assms(2) by (simp add: prev_term_def nat_diff_distrib nat_le_iff)
  ultimately show ?thesis
    unfolding carried_def using i assms(3-5) js
    by (intro exI [of _ "nat i"] exI [of _ "prev_term n' i"] exI [of _ es]) (simp add: append_params_at, blast)
qed

lemma sent_append_loop:
  "append_maker mk \<Longrightarrow> role n = LEADER \<Longrightarrow> set specs \<subseteq> set (peerAddrs n) \<Longrightarrow> sent n (snd (append_loop mk specs n))"
proof (induction mk specs n rule: append_loop.induct)
  case (2 mk spec specs n)
  show ?case
  proof (cases "split_peer spec")
    case None
    then show ?thesis using 2 by simp
  next
    case (Some q)
    obtain p portText where q: "q = (p, portText)" by force
    have peer: "p \<in> set (peer_ids n)" using peer_idsI [of spec n p portText] 2(5) Some q by simp
    show ?thesis
    proof (cases "stoi portText")
      case (Ok port)
      obtain i m where im: "index_ref p (nextIndex n) = (i, m)" by force
      show ?thesis
      proof (cases "collect_entries (log n) i MAX_ENTRIES_PER_RPC")
        case oes: (Ok es)
        let ?n1 = "enqueue (mk p port (append_params (n\<lparr>nextIndex := m\<rparr>) i es) (currentTerm n) i (len es)) (n\<lparr>nextIndex := m\<rparr>)"
        note mk = 2(3) [unfolded append_maker_def, rule_format]
        have "json_at (append_params (n\<lparr>nextIndex := m\<rparr>) i es) ''term'' = Ok (JInteger (currentTerm n))"
          by (simp add: append_params_at)
        moreover have "carried (log n) (mk p port (append_params (n\<lparr>nextIndex := m\<rparr>) i es) (currentTerm n) i (len es))"
          using carried_params [OF oes, of "n\<lparr>nextIndex := m\<rparr>"] by (simp add: mk)
        ultimately have "append_task n (mk p port (append_params (n\<lparr>nextIndex := m\<rparr>) i es) (currentTerm n) i (len es))"
          using 2(4) peer by (simp add: append_task_def mk)
        then have "sent n ?n1" by (simp add: sent_def enqueue_def)
        also have "sent ?n1 (snd (append_loop mk specs ?n1))"
          using 2 Some q Ok im oes by (simp add: enqueue_def)
        finally show ?thesis using Some q Ok im oes by (simp add: Let_def)
      qed (use Some q Ok im in \<open>auto intro: sentI\<close>)
    qed (use Some q in auto)
  qed
qed simp

lemma sends_heartbeats: "sends (sendHeartbeatsInternal env)"
proof -
  have "sent n (snd (sendHeartbeatsInternal env n))" for n
  proof (cases "role n = LEADER")
    case True
    define m where "m = (if peerAddrs n = [] then applyStateMachine env else append_loop HeartbeatTask (peerAddrs n))"
    have "sent n (snd (m n))"
      using sends_apply [of env] sent_append_loop [OF append_makers(1) True, of "peerAddrs n"]
      by (simp add: m_def sends_def)
    moreover have "sends (modify restart_heartbeat)"
      by (rule sends_modify) (simp_all add: restart_heartbeat_def)
    ultimately have "sent n (snd (abind m (\<lambda>_. modify restart_heartbeat) n))"
      by (rule sent_abind)
    then show ?thesis using True by (simp add: sendHeartbeatsInternal_def m_def)
  qed (simp add: sendHeartbeatsInternal_def)
  then show ?thesis by (simp add: sends_def)
qed

lemma sends_replicate: "sends (replicateLogInternal env)" "sends (replicateLog env)"
  using sends_apply [of env] sent_append_loop [OF append_makers(3)] sent_append_loop [OF append_makers(2)]
  by (auto simp: sends_def replicateLogInternal_def replicateLog_def)

text \<open>A command: the leader's log grows, and is sent.\<close>

definition submitted :: "string \<Rightarrow> raft_node \<Rightarrow> raft_node \<Rightarrow> bool" where
  "submitted c n n' \<longleftrightarrow>
     role n = LEADER \<and> sent (n\<lparr>log := log n @ [\<lparr>eterm = currentTerm n, command = c\<rparr>]\<rparr>) n'"

lemma submitted_submit:
  assumes "role n = LEADER"
  shows "submitted c n (snd (submitCommand env c n))"
proof -
  have "sends (\<lambda>n. if peerAddrs n = [] then applyStateMachine env n else (Ok (), n))"
    using sends_apply [of env] by (simp add: sends_def)
  then have "sends (abind (replicateLogInternal env) (\<lambda>_.
      abind (\<lambda>n. if peerAddrs n = [] then applyStateMachine env n else (Ok (), n)) (\<lambda>_. ret True)))"
    by (intro sends_abind sends_replicate sends_simps)
  then show ?thesis using assms by (simp add: sends_def submitCommand_def submitted_def abind.simps modify_def)
qed

lemma sends_update_commit: "sends (update_commit env req)"
proof -
  have "sent n (snd (if i > commitIndex n then applyStateMachine env (n\<lparr>commitIndex := j\<rparr>) else (Ok (), n)))" for i j n
  proof -
    have "sent n (n\<lparr>commitIndex := j\<rparr>)" by (rule sentI) simp_all
    then have "sent n (snd (applyStateMachine env (n\<lparr>commitIndex := j\<rparr>)))"
      using sends_apply [of env] unfolding sends_def by (meson sent_trans)
    then show ?thesis by simp
  qed
  then have "sends (abind (lift (int_at req ''leaderCommit'')) (\<lambda>leaderCommit n.
      if leaderCommit > commitIndex n
      then applyStateMachine env (n\<lparr>commitIndex := min leaderCommit (len (log n) - 1)\<rparr>) else (Ok (), n)))"
    by (intro sends_abind sends_simps) (simp add: sends_def)
  then show ?thesis by (simp add: sends_def update_commit_def)
qed

text \<open>A request that is accepted: the log that the entries of the request lead to.\<close>

definition reply_success :: "json \<Rightarrow> bool" where
  "reply_success r \<longleftrightarrow> json_at r ''success'' = Ok (JBoolean True)"

definition stored :: "json \<Rightarrow> raft_node \<Rightarrow> log_entry list \<Rightarrow> bool" where
  "stored req n lg \<longleftrightarrow>
     (\<exists>p pt es. int_at req ''prevLogIndex'' = Ok p \<and> int_at req ''prevLogTerm'' = Ok pt \<and> json_at req ''entries'' = Ok es \<and>
        \<not> log_conflict n p pt \<and> lg = snd (append_entries_loop (p + 1) (json_items es) (log n)))"

definition whole_request :: "json \<Rightarrow> bool" where
  "whole_request req \<longleftrightarrow>
     json_contains req ''prevLogIndex'' \<and> json_contains req ''prevLogTerm'' \<and> json_contains req ''entries''"

definition handled :: "json \<Rightarrow> raft_node \<Rightarrow> json outcome \<Rightarrow> raft_node \<Rightarrow> bool" where
  "handled req n out n' \<longleftrightarrow>
     (\<exists>lg. sent (n\<lparr>log := lg\<rparr>) n' \<and>
        (stored req n lg \<or> (lg = log n \<and> (whole_request req \<longrightarrow> (\<forall>r. out = Ok r \<longrightarrow> \<not> reply_success r)))))"

lemma reply_success_simps [simp]:
  "reply_success (append_reply t b) = b" "\<not> reply_success (conflict_reply t i)" "reply_success (json_norm r) = reply_success r"
proof -
  show "reply_success (append_reply t b) = b" "\<not> reply_success (conflict_reply t i)"
    by (auto simp: reply_success_def append_reply_def conflict_reply_def json_object_def Let_def)
  have "json_norm v = JBoolean x \<longleftrightarrow> v = JBoolean x" for v x by (cases v) auto
  then show "reply_success (json_norm r) = reply_success r"
    by (auto simp: reply_success_def json_at_norm omap_eq_Ok)
qed

lemma handled_refuse: "sent n n' \<Longrightarrow> (\<forall>r. out = Ok r \<longrightarrow> \<not> reply_success r) \<Longrightarrow> handled req n out n'"
  unfolding handled_def by (intro exI [of _ "log n"]) simp

lemma handled_store_entries:
  assumes "int_at req ''prevLogIndex'' = Ok p" "int_at req ''prevLogTerm'' = Ok pt" "json_at req ''entries'' = Ok es"
    and "store_entries env req p pt es t0 n = (out, n')"
  shows "handled req n out n'"
proof (cases "log_conflict n p pt")
  case True
  then have "out = Ok (conflict_reply t0 (min p (len (log n))))" "n' = resetElectionTimer env n"
    using assms(4) by (simp_all add: store_entries_def)
  then show ?thesis by (intro handled_refuse) (auto intro: sentI)
next
  case False
  define lg where "lg = snd (append_entries_loop (p + 1) (json_items es) (log n))"
  define m where "m = abind (update_commit env req) (\<lambda>_ n. (Ok (append_reply (currentTerm n) True), n))"
  have "sends (\<lambda>n. (Ok (append_reply (currentTerm n) True), n))" by (simp add: sends_def)
  then have m: "sends m" unfolding m_def by (intro sends_abind sends_update_commit)
  obtain r where r: "append_entries_loop (p + 1) (json_items es) (log n) = (r, lg)"
    unfolding lg_def by (metis prod.collapse)
  have eq: "store_entries env req p pt es t0 n = abind (on_log (append_entries_loop (p + 1) (json_items es))) (\<lambda>_. m) n"
    using False by (simp add: store_entries_def m_def)
  have "on_log (append_entries_loop (p + 1) (json_items es)) n = (r, n\<lparr>log := lg\<rparr>)"
    by (simp add: on_log_def r)
  then have "snd (store_entries env req p pt es t0 n) = n\<lparr>log := lg\<rparr> \<or>
      snd (store_entries env req p pt es t0 n) = snd (m (n\<lparr>log := lg\<rparr>))"
    unfolding eq by (cases r) (simp_all add: abind.simps)
  then have "n' = n\<lparr>log := lg\<rparr> \<or> n' = snd (m (n\<lparr>log := lg\<rparr>))" using assms(4) by simp
  then have "sent (n\<lparr>log := lg\<rparr>) n'" using m by (auto simp: sends_def)
  moreover have "stored req n lg" using False assms(1-3) unfolding stored_def lg_def by blast
  ultimately show ?thesis unfolding handled_def by blast
qed

lemma handled_handle_append:
  assumes "handle_append env req t0 n = (out, n')"
  shows "handled req n out n'"
proof (cases "whole_request req")
  case True
  then show ?thesis
    using assms handled_store_entries [of req _ _ _ env t0 n out n']
    by (cases "int_at req ''prevLogIndex''"; cases "int_at req ''prevLogTerm''"; cases "json_at req ''entries''")
       (auto simp: handle_append_def whole_request_def abind.simps lift_def intro!: handled_refuse)
next
  case False
  then have "n' = n" using assms by (auto simp: handle_append_def whole_request_def)
  then show ?thesis using False unfolding handled_def by (intro exI [of _ "log n"]) simp
qed

lemma sent_replicated:
  "sent (n\<lparr>matchIndex := AList.update p (i + c - 1) (matchIndex n)\<rparr>) (snd (replicated env p i c n))"
proof -
  let ?n1 = "n\<lparr>matchIndex := AList.update p (i + c - 1) (matchIndex n)\<rparr>"
  have "sent ?n1 (?n1\<lparr>nextIndex := AList.update p (i + c) (nextIndex n)\<rparr>)" by (rule sentI) simp_all
  then have "sent ?n1 (snd (applyStateMachine env (?n1\<lparr>nextIndex := AList.update p (i + c) (nextIndex n)\<rparr>)))"
    using sends_apply [of env] unfolding sends_def by (meson sent_trans)
  then show ?thesis by (simp add: replicated_def Let_def)
qed

lemma sends_backtrack: "sends (backtrack p resp)"
proof -
  have "sends (abind (lift (int_at resp ''conflictIndex'')) (\<lambda>ci. modify (\<lambda>n. n\<lparr>nextIndex := f ci n\<rparr>)))" for f
    by (intro sends_abind sends_simps sends_modify) simp_all
  moreover have "sent n (n\<lparr>nextIndex := m\<rparr>)" for n m by (rule sentI) simp_all
  ultimately have "sent n (snd (abind (lift (int_at resp ''conflictIndex''))
      (\<lambda>ci. modify (\<lambda>n. n\<lparr>nextIndex := f ci n\<rparr>)) (n\<lparr>nextIndex := m\<rparr>)))" for f n m
    by (meson sends_def sent_trans)
  then show ?thesis
    by (auto simp: sends_def backtrack_def Let_def split: prod.split intro: sentI)
qed

section \<open>Role changes\<close>

text \<open>
  Nothing of interest changes; stepping down to term \<open>t\<close>; winning, with which every peer's match
  index is reset; standing for election.
\<close>

definition still :: "raft_node \<Rightarrow> raft_node \<Rightarrow> bool" where
  "still n n' \<longleftrightarrow> face n' = face n \<and> book n' = book n \<and> rpcPool n' = rpcPool n"

definition stepped :: "int \<Rightarrow> raft_node \<Rightarrow> raft_node \<Rightarrow> bool" where
  "stepped t n n' \<longleftrightarrow>
     face n' = (\<lparr>bterm = t, bvote = [], brole = FOLLOWER, bself = nodeId n\<rparr>, peerAddrs n, elections n) \<and>
     book n' = book n \<and> rpcPool n' = rpcPool n"

definition won :: "raft_node \<Rightarrow> raft_node \<Rightarrow> bool" where
  "won n n' \<longleftrightarrow> role n = CANDIDATE \<and>
     (\<exists>n1. face n1 = face (n\<lparr>role := LEADER\<rparr>) \<and> rpcPool n1 = rpcPool n \<and>
        book n1 = (log n, fold (\<lambda>p. AList.update p (-1)) (peer_ids n) (matchIndex n)) \<and> sent n1 n')"

definition stood :: "raft_node \<Rightarrow> raft_node \<Rightarrow> bool" where
  "stood n n' \<longleftrightarrow>
     face n' = (\<lparr>bterm = currentTerm n + 1, bvote = nodeId n, brole = CANDIDATE, bself = nodeId n\<rparr>, peerAddrs n,
                elections n @ [(1, False)]) \<and> book n' = book n \<and>
     (\<exists>ts zs. rpcPool n' = rpcPool n @ ts \<and> (\<forall>t \<in> set ts. vote_task n' (length (elections n)) t) \<and>
        peer_ids n = map task_peer ts @ zs)"

lemma stepped_becomeFollower: "calm env \<Longrightarrow> stepped t n (becomeFollower env t n)"
  by (auto simp: calm_def becomeFollower_def stepped_def Let_def face_def ballot_of_def resetElectionTimer_def
      stopDiscoveryService_def)

lemma won_becomeLeader:
  assumes "calm env" "role n = CANDIDATE"
  shows "won n (snd (becomeLeaderInternal env n))"
proof -
  let ?n1 = "init_leader_state (n\<lparr>electionTimer := timer_cancel (electionTimer n), role := LEADER\<rparr>)"
  have f: "face ?n1 = face (n\<lparr>role := LEADER\<rparr>)" "rpcPool ?n1 = rpcPool n"
      "book ?n1 = (log n, fold (\<lambda>p. AList.update p (-1)) (peer_ids n) (matchIndex n))"
    by (simp_all add: init_leader_state_def Let_def face_eq book_def peer_ids_def)
  have "sends (modify (\<lambda>n. others env 1 (startDiscoveryService env (others env 0 n))))"
    using assms(1) by (intro sends_modify) (simp_all add: calm_def)
  then have "sends (abind (sendHeartbeatsInternal env)
      (\<lambda>_. modify (\<lambda>n. others env 1 (startDiscoveryService env (others env 0 n)))))"
    by (intro sends_abind sends_heartbeats)
  then have "sent ?n1 (snd (becomeLeaderInternal env n))"
    using assms(2) by (simp add: becomeLeaderInternal_def sends_def)
  then show ?thesis using f assms(2) unfolding won_def by blast
qed

lemma vote_params_face: "face n = face n' \<Longrightarrow> log n = log n' \<Longrightarrow> vote_params n = vote_params n'"
  by (simp add: face_eq vote_params_def lastLogIndex_def lastLogTerm_def)

lemma vote_loop_sends:
  "set specs \<subseteq> set (peerAddrs n) \<Longrightarrow>
   \<exists>ts zs. snd (vote_loop e specs n) = n\<lparr>rpcPool := rpcPool n @ ts\<rparr> \<and> (\<forall>t \<in> set ts. vote_task n e t) \<and>
     map fst (List.map_filter split_peer specs) = map task_peer ts @ zs"
proof (induction e specs n rule: vote_loop.induct)
  case (1 e n)
  show ?case by (intro exI [of _ "[]"]) (simp add: List.map_filter_simps)
next
  case (2 e spec specs n)
  show ?case
  proof (cases "split_peer spec")
    case None
    then show ?thesis using 2 by (simp add: List.map_filter_simps)
  next
    case (Some q)
    obtain p portText where q: "q = (p, portText)" by force
    have peer: "p \<in> set (peer_ids n)" using peer_idsI [of spec n p portText] 2(3) Some q by simp
    show ?thesis
    proof (cases "stoi portText")
      case (Ok port)
      let ?t = "VoteTask p port (vote_params n) (currentTerm n) (majority n) e"
      let ?n1 = "enqueue ?t n"
      have same: "vote_task ?n1 e t = vote_task n e t" for t
        by (simp add: vote_task_def enqueue_def vote_params_def majority_def peer_ids_def lastLogIndex_def lastLogTerm_def)
      have "set specs \<subseteq> set (peerAddrs ?n1)" using 2(3) by (simp add: enqueue_def)
      from 2(2) [OF Some q [symmetric] Ok this]
      obtain ts zs where ts: "snd (vote_loop e specs ?n1) = ?n1\<lparr>rpcPool := rpcPool ?n1 @ ts\<rparr>"
          "\<forall>t \<in> set ts. vote_task ?n1 e t" "map fst (List.map_filter split_peer specs) = map task_peer ts @ zs"
        by blast
      have "snd (vote_loop e (spec # specs) n) = n\<lparr>rpcPool := rpcPool n @ (?t # ts)\<rparr>"
        using ts(1) Some q Ok by (simp add: enqueue_def)
      moreover have "\<forall>t \<in> set (?t # ts). vote_task n e t"
        using ts(2) peer same by (simp add: vote_task_def)
      moreover have "map fst (List.map_filter split_peer (spec # specs)) = map task_peer (?t # ts) @ zs"
        using ts(3) Some q by (simp add: List.map_filter_simps)
      ultimately show ?thesis by blast
    next
      case (Throw x)
      then show ?thesis using Some q
        by (intro exI [of _ "[]"] exI [of _ "map fst (List.map_filter split_peer (spec # specs))"]) simp
    next
      case Abort
      then show ?thesis using Some q
        by (intro exI [of _ "[]"] exI [of _ "map fst (List.map_filter split_peer (spec # specs))"]) simp
    next
      case UB
      then show ?thesis using Some q
        by (intro exI [of _ "[]"] exI [of _ "map fst (List.map_filter split_peer (spec # specs))"]) simp
    qed
  qed
qed

lemma startElection_effect:
  assumes "calm env" "role n \<noteq> LEADER" "currentTerm n \<noteq> INT_MAX" "n' = snd (startElection env n)"
  shows "(majority n > 1 \<and> stood n n') \<or> (majority n \<le> 1 \<and> (\<exists>n1. stood n n1 \<and> won n1 n'))"
proof -
  define n2 where "n2 = resetElectionTimer env (n\<lparr>role := CANDIDATE, currentTerm := currentTerm n + 1, votedFor := nodeId n\<rparr>)"
  define n3 where "n3 = n2\<lparr>elections := elections n2 @ [(1, False)]\<rparr>"
  have n2: "elections n2 = elections n" "peerAddrs n2 = peerAddrs n" "rpcPool n2 = rpcPool n"
    by (simp_all add: n2_def resetElectionTimer_def Let_def)
  have eq: "startElection env n = (if 1 \<ge> majority n3 then becomeLeaderInternal env n3
      else vote_loop (length (elections n)) (peerAddrs n3) n3)"
    using assms(3) n2 by (simp add: startElection_def Let_def n3_def n2_def)
  have b3: "book n3 = book n" by (simp add: n3_def n2_def)
  have f3: "face n3 = (\<lparr>bterm = currentTerm n + 1, bvote = nodeId n, brole = CANDIDATE, bself = nodeId n\<rparr>,
      peerAddrs n, elections n @ [(1, False)])" "rpcPool n3 = rpcPool n" "majority n3 = majority n" "peer_ids n3 = peer_ids n"
    by (simp_all add: n3_def n2_def face_def ballot_of_def resetElectionTimer_def Let_def majority_def peer_ids_def)
  have stood3: "stood n n3"
    unfolding stood_def using f3 b3 by (metis append_Nil append_Nil2 empty_iff empty_set map_is_Nil_conv)
  show ?thesis
  proof (cases "majority n \<le> 1")
    case True
    have "role n3 = CANDIDATE" by (simp add: n3_def n2_def resetElectionTimer_def Let_def)
    then have "won n3 n'" using won_becomeLeader [OF assms(1)] True eq f3(3) assms(4) by simp
    then show ?thesis using True stood3 by blast
  next
    case False
    obtain ts zs where ts: "n' = n3\<lparr>rpcPool := rpcPool n3 @ ts\<rparr>" "\<forall>t \<in> set ts. vote_task n3 (length (elections n)) t"
        "map fst (List.map_filter split_peer (peerAddrs n3)) = map task_peer ts @ zs"
      using vote_loop_sends [of "peerAddrs n3" n3 "length (elections n)"] False eq f3(3) assms(4) by auto
    have "vote_task n' e t = vote_task n3 e t" for e t
      by (simp add: ts(1) vote_task_def vote_params_def majority_def peer_ids_def lastLogIndex_def lastLogTerm_def)
    moreover have "peer_ids n = map task_peer ts @ zs" using ts(3) f3(4) by (simp add: peer_ids_def)
    moreover have "face n' = face n3" "book n' = book n" "rpcPool n' = rpcPool n @ ts"
      using ts(1) f3(2) b3 by simp_all
    ultimately have "stood n n'" using ts(2) f3(1) unfolding stood_def by auto
    then show ?thesis using False by simp
  qed
qed

section \<open>Requests\<close>

lemma int_at_int32: "int_at j k = Ok i \<Longrightarrow> is_int32 i"
proof -
  have b: "is_int32 (of_bool b)" for b by (simp add: is_int32_def INT_MAX_def INT_MIN_def)
  have "get_int v = Ok i \<Longrightarrow> is_int32 i" for v
    by (cases v) (auto split: if_splits intro: b)
  then show "int_at j k = Ok i \<Longrightarrow> is_int32 i" by (auto simp: int_at_def obind_eq_Ok)
qed

definition voted :: "string \<Rightarrow> raft_node \<Rightarrow> raft_node \<Rightarrow> bool" where
  "voted c n n' \<longleftrightarrow> face n' = face (n\<lparr>votedFor := c\<rparr>) \<and> book n' = book n \<and> rpcPool n' = rpcPool n"

lemma stepped_fields:
  "stepped t n n' \<Longrightarrow> currentTerm n' = t \<and> votedFor n' = [] \<and> role n' = FOLLOWER \<and> nodeId n' = nodeId n \<and>
     peerAddrs n' = peerAddrs n \<and> elections n' = elections n \<and> rpcPool n' = rpcPool n \<and> log n' = log n \<and>
     matchIndex n' = matchIndex n"
  by (simp add: stepped_def face_def ballot_of_def book_eq)

lemma handle_vote_effect:
  assumes "calm env" "handle_vote env t c i lt n = (r, n')"
  shows "(n' = n \<and> r = Ok (vote_reply (currentTerm n) False)) \<or>
    (currentTerm n \<le> t \<and> (\<exists>n1. (if currentTerm n < t then stepped t n n1 else n1 = n) \<and>
       ((n' = n1 \<and> r = Ok (vote_reply t False)) \<or>
        (voted c n1 n' \<and> (votedFor n1 = [] \<or> votedFor n1 = c) \<and> r = Ok (vote_reply t True)))))"
proof -
  define n1 where "n1 = (if t > currentTerm n then becomeFollower env t n else n)"
  have st: "if currentTerm n < t then stepped t n n1 else n1 = n"
    using stepped_becomeFollower [OF assms(1)] by (simp add: n1_def)
  have v: "voted c n1 (resetElectionTimer env (n1\<lparr>votedFor := c\<rparr>))"
    by (simp add: voted_def)
  show ?thesis
  proof (cases "t < currentTerm n")
    case False
    have "(if t > currentTerm n then currentTerm n1 else currentTerm n) = t"
      using False st stepped_fields by (auto split: if_splits)
    then have "(n' = n1 \<and> r = Ok (vote_reply t False)) \<or>
        (voted c n1 n' \<and> (votedFor n1 = [] \<or> votedFor n1 = c) \<and> r = Ok (vote_reply t True))"
      using assms(2) False v by (auto simp: handle_vote_def Let_def n1_def [symmetric] split: if_splits)
    then show ?thesis using st False by auto
  qed (use assms(2) in \<open>auto simp: handle_vote_def\<close>)
qed

text \<open>A node that accepts the sender of a request as the leader of term \<open>t\<close>.\<close>

definition accepted :: "int \<Rightarrow> raft_node \<Rightarrow> raft_node \<Rightarrow> bool" where
  "accepted t n n1 \<longleftrightarrow>
     (currentTerm n = t \<and> role n = FOLLOWER \<and> still n n1) \<or>
     (currentTerm n \<le> t \<and> (t = currentTerm n \<longrightarrow> role n \<noteq> FOLLOWER) \<and> stepped t n n1)"

lemma accepted_accept:
  assumes "calm env" "accept_leader env t l n = Some n1" "\<not> t < currentTerm n"
  shows "accepted t n n1"
  using assms stepped_becomeFollower [OF assms(1), of t n]
  by (cases "role n") (auto simp: accept_leader_def accepted_def still_def split: if_splits)

lemma onAppendEntries_effect:
  assumes "calm env" "int_at req ''term'' = Ok t" "onAppendEntries env req n = (out, n')"
  shows "(n' = n \<and> (\<forall>r. out = Ok r \<longrightarrow> \<not> reply_success r)) \<or> (\<exists>n1. accepted t n n1 \<and> handled req n1 out n')"
proof (cases "string_at req ''leaderId''")
  case (Ok l)
  have eq: "onAppendEntries env req n =
      (if t < currentTerm n then (Ok (append_reply (currentTerm n) False), n)
       else case accept_leader env t l n of
              None \<Rightarrow> (Ok (append_reply (currentTerm n) False), n)
            | Some n1 \<Rightarrow> handle_append env req (currentTerm n) n1)"
    by (simp add: onAppendEntries_def assms(2) Ok abind.simps lift_def)
  show ?thesis
  proof (cases "t < currentTerm n \<or> accept_leader env t l n = None")
    case True
    then have "(out, n') = (Ok (append_reply (currentTerm n) False), n)" using eq assms(3) by auto
    then show ?thesis by simp
  next
    case False
    then obtain n1 where n1: "accept_leader env t l n = Some n1" "\<not> t < currentTerm n" by blast
    then have "handle_append env req (currentTerm n) n1 = (out, n')" using eq assms(3) by simp
    then show ?thesis using accepted_accept [OF assms(1) n1] handled_handle_append by blast
  qed
qed (use assms in \<open>auto simp: onAppendEntries_def abind.simps lift_def\<close>)

section \<open>Responses\<close>

definition reply_grants :: "json \<Rightarrow> bool" where
  "reply_grants r \<longleftrightarrow> json_at r ''voteGranted'' = Ok (JBoolean True)"

text \<open>One more vote counted in an election, which may win it.\<close>

definition counted :: "int \<Rightarrow> nat \<Rightarrow> raft_node \<Rightarrow> raft_node \<Rightarrow> bool" where
  "counted needed e n n' \<longleftrightarrow>
     (\<exists>w n1. face n1 = face (n\<lparr>elections := (elections n)[e := (fst (elections n ! e) + 1, w)]\<rparr>) \<and>
        book n1 = book n \<and> rpcPool n1 = rpcPool n \<and> (n' = n1 \<or> (needed \<le> fst (elections n ! e) + 1 \<and> won n1 n')))"

lemma counted_count_vote:
  assumes "calm env" "role n = CANDIDATE"
  shows "counted needed e n (snd (count_vote env needed e n))"
proof -
  obtain v w where vw: "elections n ! e = (v, w)" by force
  have "won (n\<lparr>elections := es\<rparr>) (snd (becomeLeaderInternal env (n\<lparr>elections := es\<rparr>)))" for es
    using won_becomeLeader [OF assms(1), of "n\<lparr>elections := es\<rparr>"] assms(2) by simp
  then show ?thesis
    unfolding counted_def count_vote_def Let_def vw
    by (cases "needed \<le> v + 1 \<and> \<not> w")
       (intro exI [of _ True] exI [of _ "n\<lparr>elections := (elections n)[e := (v + 1, True)]\<rparr>"], simp,
        intro exI [of _ w] exI [of _ "n\<lparr>elections := (elections n)[e := (v + 1, w)]\<rparr>"], auto)
qed

lemma snd_swallow [simp]: "snd (swallow m n) = snd (m n)"
  by (auto simp: swallow_def split: prod.split outcome.split)

lemma lift_cases:
  obtains "snd (abind (lift r) f n) = n" | a where "r = Ok a" "abind (lift r) f n = f a n"
  by (cases r) (auto simp: abind.simps lift_def)

lemma vote_response_effect:
  assumes "calm env"
  shows "snd (vote_response env t needed e resp n) = n \<or>
    (\<exists>rt > currentTerm n. is_int32 rt \<and> stepped rt n (snd (vote_response env t needed e resp n))) \<or>
    (\<exists>r. resp = Ok r \<and> reply_grants r \<and> role n = CANDIDATE \<and> currentTerm n = t \<and>
       counted needed e n (snd (vote_response env t needed e resp n)))"
proof -
  have out: "snd (vote_outcome env t needed e rt g n) = n \<or>
      (currentTerm n < rt \<and> stepped rt n (snd (vote_outcome env t needed e rt g n))) \<or>
      (g \<and> role n = CANDIDATE \<and> currentTerm n = t \<and> counted needed e n (snd (vote_outcome env t needed e rt g n)))" for rt g
    using stepped_becomeFollower [OF assms, of rt n] counted_count_vote [OF assms, of n needed e]
    by (auto simp: vote_outcome_def)
  have "get_bool v = Ok True \<Longrightarrow> v = JBoolean True" for v by (cases v) auto
  then have g: "obind (json_at r ''voteGranted'') get_bool = Ok True \<Longrightarrow> reply_grants r" for r
    by (auto simp: reply_grants_def obind_eq_Ok)
  show ?thesis
  proof (cases resp)
    case (Ok r)
    show ?thesis
    proof (cases "\<exists>x rt g. dump_indent 4 r = Ok x \<and> json_contains r ''term'' \<and> json_contains r ''voteGranted'' \<and>
        int_at r ''term'' = Ok rt \<and> obind (json_at r ''voteGranted'') get_bool = Ok g")
      case True
      then obtain rt g where rt: "int_at r ''term'' = Ok rt" "obind (json_at r ''voteGranted'') get_bool = Ok g"
          "snd (vote_response env t needed e resp n) = snd (vote_outcome env t needed e rt g n)"
        by (auto simp: vote_response_def Ok abind.simps lift_def)
      then show ?thesis using out [of rt g] int_at_int32 [OF rt(1)] g [of r] Ok by auto
    next
      case False
      then have "snd (vote_response env t needed e resp n) = n"
        by (cases "dump_indent 4 r"; cases "int_at r ''term''"; cases "obind (json_at r ''voteGranted'') get_bool")
           (auto simp: vote_response_def Ok abind.simps lift_def ret_def)
      then show ?thesis by simp
    qed
  qed (simp_all add: vote_response_def abind.simps lift_def)
qed

text \<open>What the treatment of a response to an AppendEntries request can do.\<close>

definition matched :: "task \<Rightarrow> raft_node \<Rightarrow> raft_node \<Rightarrow> bool" where
  "matched t n n' \<longleftrightarrow>
     role n = LEADER \<and> currentTerm n = task_term t \<and> 0 < task_count t \<and>
     sent (n\<lparr>matchIndex := AList.update (task_peer t) (task_next t + task_count t - 1) (matchIndex n)\<rparr>) n'"

definition append_effect :: "task \<Rightarrow> json outcome \<Rightarrow> raft_node \<Rightarrow> raft_node \<Rightarrow> bool" where
  "append_effect t resp n n' \<longleftrightarrow>
     sent n n' \<or> (\<exists>rt > currentTerm n. is_int32 rt \<and> stepped rt n n') \<or>
     (matched t n n' \<and> (\<exists>r. resp = Ok r \<and> reply_success r))"

lemma append_outcome_effects:
  assumes "calm env" "is_int32 rt" "s \<Longrightarrow> reply_success r"
  shows "append_effect (HeartbeatTask p port params t i c) (Ok r) n (snd (heartbeat_outcome env p t i c r rt s n))"
    "append_effect (ReplicateTask p port params t i c) (Ok r) n (snd (replicate_outcome env p t i c r rt s n))"
    "append_effect (ReplicateInternalTask p port params t i c) (Ok r) n (snd (replicate_outcome env p t i c r rt s n))"
  using stepped_becomeFollower [OF assms(1), of rt n] assms(2,3) sent_replicated [of p i c n env] sends_backtrack [of p r]
  by (auto simp: append_effect_def matched_def heartbeat_outcome_def replicate_outcome_def sends_def)

lemma append_effect_refl [simp]: "append_effect t resp n n"
  by (simp add: append_effect_def)

lemma append_effect_lift:
  "(\<And>a. r = Ok a \<Longrightarrow> append_effect t resp n (snd (f a n))) \<Longrightarrow> append_effect t resp n (snd (abind (lift r) f n))"
  by (cases rule: lift_cases [of r f n]) auto

lemma get_bool_True: "get_bool v = Ok True \<Longrightarrow> v = JBoolean True"
  by (cases v) auto

lemma reads_success:
  "value_bool r ''success'' False = Ok True \<Longrightarrow> reply_success r"
  "obind (json_at r ''success'') get_bool = Ok True \<Longrightarrow> reply_success r"
  using get_bool_True by (cases r; force simp: reply_success_def split: option.splits)
     (auto simp: reply_success_def obind_eq_Ok get_bool_True)

lemma append_response_effect:
  assumes "calm env" "\<not> is_vote t"
  shows "append_effect t resp n (snd (run_task env t resp n))"
proof -
  note outcomes = append_outcome_effects [OF assms(1) int_at_int32]
  show ?thesis
  proof (cases t)
    case (HeartbeatTask p port params tt i c)
    have "append_effect t (Ok r) n (snd (abind (lift (int_at r ''term'')) (\<lambda>respTerm.
      abind (lift (value_bool r ''success'' False)) (\<lambda>success.
      heartbeat_outcome env p tt i c r respTerm success)) n))" for r
      unfolding HeartbeatTask using reads_success by (intro append_effect_lift outcomes(1)) auto
    then show ?thesis
      unfolding HeartbeatTask run_task.simps heartbeat_response_def snd_swallow
      by (intro append_effect_lift) (auto simp: ret_def)
  next
    case (ReplicateTask p port params tt i c)
    have "append_effect t (Ok r) n (snd (abind (lift (int_at r ''term'')) (\<lambda>respTerm.
      abind (lift (obind (json_at r ''success'') get_bool)) (\<lambda>success.
      replicate_outcome env p tt i c r respTerm success)) n))" for r
      unfolding ReplicateTask using reads_success by (intro append_effect_lift outcomes(2)) auto
    then show ?thesis
      unfolding ReplicateTask run_task.simps replicate_response_def snd_swallow
      by (intro append_effect_lift) (auto simp: ret_def)
  next
    case (ReplicateInternalTask p port params tt i c)
    have "append_effect t (Ok r) n (snd (abind (lift (int_at r ''term'')) (\<lambda>respTerm.
      abind (lift (obind (json_at r ''success'') get_bool)) (\<lambda>success.
      replicate_outcome env p tt i c r respTerm success)) n))" for r
      unfolding ReplicateInternalTask using reads_success by (intro append_effect_lift outcomes(3)) auto
    then show ?thesis
      unfolding ReplicateInternalTask run_task.simps replicate_internal_response_def snd_swallow
      by (intro append_effect_lift) (auto simp: ret_def)
  qed (use assms(2) in simp)
qed

end
