(* ===== verification/Rpc.thy ===== *)
theory Rpc imports Json_View begin

text \<open>
  The remote calls of \<open>common/rpc.hpp\<close> and \<open>common/rpc.cpp\<close>: one JSON request and one JSON
  response per TCP connection. The socket calls are outside: what they return is an argument.
  \<open>'s\<close> is the object the registered handlers work on; the mutex of the server is held while a
  handler runs, so requests are handled one after the other.
\<close>

section \<open>The buffer\<close>

definition BUFFER_SIZE :: nat where
  "BUFFER_SIZE = 8192"

text \<open>
  Both sides clear a buffer, fill it by one \<open>read\<close> of at most \<open>8191\<close> bytes, and parse the whole
  array; the first zero byte ends the JSON text. What a longer message has beyond is lost.
\<close>

definition rpc_buffer :: "string \<Rightarrow> string" where
  "rpc_buffer received =
     (let s = take (BUFFER_SIZE - 1) received in s @ replicate (BUFFER_SIZE - length s) CHR 0x00)"

definition error_json :: "string \<Rightarrow> json" where
  "error_json what = json_object [(''error'', JString what)]"

section \<open>Server\<close>

record 's rpc_server =
  server_port :: int
  server_fd :: int
  handlers :: "(string \<times> (json \<Rightarrow> ('s, json) action)) list"

definition rpc_server_new :: "int \<Rightarrow> 's rpc_server" where
  "rpc_server_new port = \<lparr>server_port = port, server_fd = -1, handlers = []\<rparr>"

definition registerMethod ::
    "string \<Rightarrow> (json \<Rightarrow> ('s, json) action) \<Rightarrow> 's rpc_server \<Rightarrow> 's rpc_server" where
  "registerMethod name fn srv = srv\<lparr>handlers := AList.update name fn (handlers srv)\<rparr>"

text \<open>The results of the socket calls of \<open>start\<close>.\<close>

record server_calls =
  socket_fd :: int
  reuse_ok :: bool
  bind_ok :: bool
  listen_ok :: bool
  errno_text :: string

definition rpc_start :: "server_calls \<Rightarrow> ('s rpc_server, unit) action" where
  "rpc_start c srv =
     (let srv1 = srv\<lparr>server_fd := socket_fd c\<rparr>; port = dump_integer (server_port srv)
      in if socket_fd c < 0 then (Throw (StdException ''Failed to create socket''), srv1)
         else if \<not> reuse_ok c then (Throw (StdException ''Failed to set SO_REUSEADDR''), srv1)
         else if \<not> bind_ok c then
           (Throw (StdException (''Failed to bind to port '' @ port @ '': '' @ errno_text c)), srv1)
         else if \<not> listen_ok c then (Throw (StdException (''Failed to listen on port '' @ port)), srv1)
         else (Ok (), srv1))"

text \<open>
  One connection: \<open>None\<close> where the server closes it without an answer. An exception that is
  thrown inside the \<open>catch\<close> block leaves the detached thread and ends the process; it is the
  outcome \<open>Throw\<close>.
\<close>

definition handle_request ::
    "(string \<times> (json \<Rightarrow> ('s, json) action)) list \<Rightarrow> string \<Rightarrow> ('s, string) action" where
  "handle_request hs received =
     abind (lift (json_parse (rpc_buffer received))) (\<lambda>req.
     abind (lift (json_ref req ''method'')) (\<lambda>(jmethod, req1).
     abind (lift (get_string jmethod)) (\<lambda>method.
     abind (lift (json_ref req1 ''params'')) (\<lambda>(params, req2).
     abind (case map_of hs method of
              Some h \<Rightarrow> h params
            | None \<Rightarrow> ret (error_json ''unknown method'')) (\<lambda>resp.
     lift (dump resp))))))"

definition handleClient ::
    "(string \<times> (json \<Rightarrow> ('s, json) action)) list \<Rightarrow> string \<Rightarrow> ('s, string option) action" where
  "handleClient hs received s =
     (if received = [] then (Ok None, s)
      else case handle_request hs received s of
             (Throw e, s') \<Rightarrow> (omap Some (dump (error_json (''parse_error: '' @ exn_what e))), s')
           | (r, s') \<Rightarrow> (omap Some r, s'))"

text \<open>
  The accept loop of \<open>start\<close>: a connection brings what its client sends, together with the handlers as
  they act at that time; a failed \<open>accept\<close> (\<open>None\<close>) ends the loop. Each connection has a thread of its
  own, in which nothing catches what leaves \<open>handleClient\<close>: then the process ends, and with it the loop.
  The mutex puts the handlers in some order, here that of the list.
\<close>

type_synonym 's connection = "(string \<times> (json \<Rightarrow> ('s, json) action)) list \<times> string"

fun accept_loop :: "'s connection option list \<Rightarrow> ('s, string option list) action" where
  "accept_loop [] = ret []"
| "accept_loop (None # cs) = ret []"
| "accept_loop (Some (hs, received) # cs) =
     abind (handleClient hs received) (\<lambda>answer. abind (accept_loop cs) (\<lambda>answers. ret (answer # answers)))"

section \<open>Client\<close>

text \<open>
  What the network does in one call: whether there is a socket and a connection, and for the
  text sent either \<open>None\<close> (\<open>send\<close> failed) or what one \<open>read\<close> got.
\<close>

record network =
  socket_ok :: bool
  connect_ok :: bool
  exchange :: "string \<Rightarrow> string option"

definition rpc_packet :: "string \<Rightarrow> json \<Rightarrow> json" where
  "rpc_packet method params = json_object [(''method'', JString method), (''params'', params)]"

definition rpc_call :: "network \<Rightarrow> string \<Rightarrow> json \<Rightarrow> json outcome" where
  "rpc_call net method params =
     (if \<not> socket_ok net then Ok (error_json ''socket_creation_failed'')
      else if \<not> connect_ok net then Ok (error_json ''connect_failed'')
      else obind (dump (rpc_packet method params)) (\<lambda>data.
        case exchange net data of
          None \<Rightarrow> Ok (error_json ''send_failed'')
        | Some reply \<Rightarrow>
            if reply = [] then Ok (error_json ''no_response'')
            else case json_parse (rpc_buffer reply) of
                   Throw e \<Rightarrow> Ok (error_json (''parse_error: '' @ exn_what e))
                 | r \<Rightarrow> r))"

end
