(* ===== verification/Raft_Rpc.thy ===== *)
theory Raft_Rpc imports Rpc Raft_Handlers begin

text \<open>
  The registration of a node's two remote methods (\<open>server/raft_rpc.cpp\<close>), the table of node
  ports, and a whole remote call from one node to another: the packet the client prints, the
  server's dispatch to the handler, and the printed reply.
\<close>

definition raft_methods :: "env \<Rightarrow> (string \<times> (json \<Rightarrow> (raft_node, json) action)) list" where
  "raft_methods env =
     handlers (registerMethod ''AppendEntries'' (onAppendEntries env)
       (registerMethod ''RequestVote'' (onRequestVote env) (rpc_server_new 0)))"

text \<open>The two static tables; a server stands for the object its pointer points to.\<close>

record raft_rpc =
  registry :: "(string \<times> int) list"
  servers :: "(string \<times> raft_node rpc_server) list"

definition raft_rpc_init :: "env \<Rightarrow> server_calls \<Rightarrow> int \<Rightarrow> raft_node \<Rightarrow> (raft_rpc, unit) action" where
  "raft_rpc_init env c port node rr =
     (let rr1 = rr\<lparr>registry := AList.update (nodeId node) port (registry rr)\<rparr>;
          srv = registerMethod ''AppendEntries'' (onAppendEntries env)
                  (registerMethod ''RequestVote'' (onRequestVote env) (rpc_server_new port))
      in case rpc_start c srv of
           (Ok u, srv1) \<Rightarrow> (Ok (), rr1\<lparr>servers := AList.update (nodeId node) srv1 (servers rr1)\<rparr>)
         | (r, srv1) \<Rightarrow> (r, rr1))"

definition portOf :: "raft_rpc \<Rightarrow> string \<Rightarrow> int" where
  "portOf rr i = (case map_of (registry rr) i of Some p \<Rightarrow> p | None \<Rightarrow> -1)"

definition raft_rpc_cleanup :: "raft_rpc \<Rightarrow> raft_rpc" where
  "raft_rpc_cleanup rr = rr\<lparr>registry := [], servers := []\<rparr>"

definition serve :: "env \<Rightarrow> string \<Rightarrow> (raft_node, string option) action" where
  "serve env received = handleClient (raft_methods env) received"

end
