(* ===== verification/Raft_Cluster.thy ===== *)
theory Raft_Cluster imports Raft_Effects Raft_Rpc "HOL-Library.Multiset" begin

text \<open>
  A cluster of nodes that call one another, and the theorem that no term ever has two leaders.
  A task waits in the pool of its node, is taken (it is then a call), is delivered to its peer
  or lost, and its reply is handled by its node; calls are delivered in any order and at most
  once. A message arrives as the parser gives it back after printing (\<open>json_norm\<close>). The two
  histories record the votes given and the leaderships won; no step reads them. The gaps in
  which an operation gives up the mutex are calm, nodes do not restart, only nodes of the
  cluster send requests, and no log outgrows the \<open>int\<close> that the code indexes it with.
\<close>

section \<open>The cluster\<close>

record cluster =
  cnodes :: "string \<Rightarrow> raft_node"
  calls :: "(string \<times> task) list"
  replies :: "(string \<times> task \<times> json outcome) list"
  granted :: "(int \<times> string \<times> string) set"     \<comment> \<open>term, voter, candidate\<close>
  led :: "(int \<times> string) set"

fun internal :: "node_event \<Rightarrow> bool" where
  "internal (ElectionWake i) = True"
| "internal (ElectionTimeout i) = True"
| "internal (HeartbeatWake i) = True"
| "internal (HeartbeatTimeout i) = True"
| "internal (CommandSubmitted c) = True"
| "internal ev = False"

text \<open>The handler that a call reaches.\<close>

definition receive :: "env \<Rightarrow> task \<Rightarrow> (raft_node, json) action" where
  "receive env t =
     (if is_vote t then onRequestVote env (json_norm (task_params t)) else onAppendEntries env (json_norm (task_params t)))"

definition put_node :: "string \<Rightarrow> raft_node \<Rightarrow> cluster \<Rightarrow> cluster" where
  "put_node i n c =
     c\<lparr>cnodes := (cnodes c)(i := n), led := (if role n = LEADER then insert (currentTerm n, i) (led c) else led c)\<rparr>"

definition add_vote :: "task \<Rightarrow> string \<Rightarrow> string \<Rightarrow> json outcome \<Rightarrow> cluster \<Rightarrow> cluster" where
  "add_vote t voter candidate out c =
     (case out of
        Ok r \<Rightarrow> if is_vote t \<and> reply_grants r then c\<lparr>granted := insert (task_term t, voter, candidate) (granted c)\<rparr> else c
      | _ \<Rightarrow> c)"

text \<open>What the caller may get to see: the reply, or the error object of a failed call.\<close>

definition reply_of :: "json outcome \<Rightarrow> json outcome \<Rightarrow> bool" where
  "reply_of out resp \<longleftrightarrow> (\<exists>r. out = Ok r \<and> resp = Ok (json_norm r)) \<or> (\<exists>w. resp = Ok (error_json w))"

inductive cluster_step :: "string set \<Rightarrow> cluster \<Rightarrow> cluster \<Rightarrow> bool" for M where
  local: "i \<in> M \<Longrightarrow> calm env \<Longrightarrow> internal ev \<Longrightarrow> run_event env ev (cnodes c i) = (out, n') \<Longrightarrow> alive out \<Longrightarrow>
    len (log n') \<le> INT_MAX \<Longrightarrow> cluster_step M c (put_node i n' c)"
| take_task: "i \<in> M \<Longrightarrow> rpcPool (cnodes c i) = t # ts \<Longrightarrow>
    cluster_step M c (c\<lparr>cnodes := (cnodes c)(i := (cnodes c i)\<lparr>rpcPool := ts\<rparr>), calls := (i, t) # calls c\<rparr>)"
| deliver: "k < length (calls c) \<Longrightarrow> calls c ! k = (i, t) \<Longrightarrow> task_peer t \<in> M \<Longrightarrow> calm env \<Longrightarrow>
    receive env t (cnodes c (task_peer t)) = (out, n') \<Longrightarrow> alive out \<Longrightarrow> reply_of out resp \<Longrightarrow>
    cluster_step M c (add_vote t (task_peer t) i out
      (put_node (task_peer t) n' (c\<lparr>calls := drop_nth k (calls c), replies := (i, t, resp) # replies c\<rparr>)))"
| lose: "k < length (calls c) \<Longrightarrow> calls c ! k = (i, t) \<Longrightarrow>
    cluster_step M c (c\<lparr>calls := drop_nth k (calls c), replies := (i, t, Ok (error_json w)) # replies c\<rparr>)"
| respond: "k < length (replies c) \<Longrightarrow> replies c ! k = (i, t, resp) \<Longrightarrow> calm env \<Longrightarrow>
    run_task env t resp (cnodes c i) = (out, n') \<Longrightarrow> alive out \<Longrightarrow>
    cluster_step M c (put_node i n' (c\<lparr>replies := drop_nth k (replies c)\<rparr>))"

text \<open>The command lines: every node has the others as peers, each once.\<close>

definition configured :: "string set \<Rightarrow> string \<Rightarrow> raft_node \<Rightarrow> bool" where
  "configured M i n \<longleftrightarrow>
     i \<noteq> [] \<and> nodeId n = i \<and> distinct (peer_ids n) \<and> set (peer_ids n) = M - {i} \<and>
     length (peerAddrs n) = length (peer_ids n)"

definition cluster_start :: "string set \<Rightarrow> cluster \<Rightarrow> bool" where
  "cluster_start M c \<longleftrightarrow>
     finite M \<and> calls c = [] \<and> replies c = [] \<and> granted c = {} \<and> led c = {} \<and>
     (\<forall>i \<in> M. (\<exists>env port peers. cnodes c i = raft_start env (raft_node_new i port peers)) \<and> configured M i (cnodes c i))"

definition cluster_reachable :: "string set \<Rightarrow> cluster \<Rightarrow> bool" where
  "cluster_reachable M c \<longleftrightarrow> (\<exists>c0. cluster_start M c0 \<and> (cluster_step M)\<^sup>*\<^sup>* c0 c)"

section \<open>The invariant\<close>

text \<open>
  It speaks of the nodes \<open>N\<close>, the tasks \<open>T i\<close> of each node that wait, are under way or have a
  reply, the votes \<open>G\<close> and the leaderships \<open>L\<close>.
\<close>

definition node_fine :: "string set \<Rightarrow> string \<Rightarrow> raft_node \<Rightarrow> bool" where
  "node_fine M i n \<longleftrightarrow> configured M i n \<and> is_int32 (currentTerm n) \<and> self_vote (ballot_of n)"

definition votes_fine :: "string set \<Rightarrow> (string \<Rightarrow> raft_node) \<Rightarrow> (int \<times> string \<times> string) set \<Rightarrow> bool" where
  "votes_fine M N G \<longleftrightarrow>
     (\<forall>t v x. (t, v, x) \<in> G \<longrightarrow> v \<in> M \<and> x \<in> M \<and> t \<le> currentTerm (N v) \<and>
        (t = currentTerm (N v) \<longrightarrow> role (N v) = FOLLOWER \<and> votedFor (N v) = x)) \<and>
     (\<forall>t v x y. (t, v, x) \<in> G \<longrightarrow> (t, v, y) \<in> G \<longrightarrow> x = y)"

definition has_quorum :: "string set \<Rightarrow> (int \<times> string \<times> string) set \<Rightarrow> int \<Rightarrow> string \<Rightarrow> bool" where
  "has_quorum M G t i \<longleftrightarrow>
     (\<exists>Q \<subseteq> M. i \<in> Q \<and> card M div 2 + 1 \<le> card Q \<and> (\<forall>v \<in> Q. v = i \<or> (t, v, i) \<in> G))"

definition leaders_fine ::
    "string set \<Rightarrow> (string \<Rightarrow> raft_node) \<Rightarrow> (int \<times> string \<times> string) set \<Rightarrow> (int \<times> string) set \<Rightarrow> bool" where
  "leaders_fine M N G L \<longleftrightarrow>
     (\<forall>t i. (t, i) \<in> L \<longrightarrow> i \<in> M \<and> t \<le> currentTerm (N i) \<and> (t = currentTerm (N i) \<longrightarrow> role (N i) = LEADER) \<and>
        has_quorum M G t i \<and> (\<forall>x. (t, i, x) \<notin> G)) \<and>
     (\<forall>i \<in> M. role (N i) = LEADER \<longrightarrow> (currentTerm (N i), i) \<in> L)"

fun task_fine :: "string set \<Rightarrow> (int \<times> string) set \<Rightarrow> string \<Rightarrow> raft_node \<Rightarrow> task \<Rightarrow> bool" where
  "task_fine M L i n (VoteTask p port params t needed e) =
     (p \<in> M - {i} \<and> is_int32 t \<and> t \<le> currentTerm n \<and> needed = int (card M div 2 + 1) \<and>
      json_at params ''term'' = Ok (JInteger t) \<and> json_at params ''candidateId'' = Ok (JString i) \<and>
      (t = currentTerm n \<and> role n = CANDIDATE \<longrightarrow> Suc e = length (elections n)))"
| "task_fine M L i n t =
     (task_peer t \<in> M - {i} \<and> is_int32 (task_term t) \<and> (task_term t, i) \<in> L \<and>
      json_at (task_params t) ''term'' = Ok (JInteger (task_term t)))"

definition asks :: "int \<Rightarrow> string \<Rightarrow> task \<Rightarrow> bool" where
  "asks t p tk \<longleftrightarrow> is_vote tk \<and> task_term tk = t \<and> task_peer tk = p"

definition tasks_fine ::
    "string set \<Rightarrow> (string \<Rightarrow> raft_node) \<Rightarrow> (int \<times> string) set \<Rightarrow> (string \<Rightarrow> task multiset) \<Rightarrow> bool" where
  "tasks_fine M N L T \<longleftrightarrow>
     (\<forall>i \<in> M. (\<forall>t \<in># T i. task_fine M L i (N i) t) \<and> (\<forall>t p. size (filter_mset (asks t p) (T i)) \<le> 1))"

text \<open>The votes a candidate may have counted: given to it, and no longer asked for.\<close>

definition collected :: "raft_node \<Rightarrow> string \<Rightarrow> task multiset \<Rightarrow> (int \<times> string \<times> string) set \<Rightarrow> string set" where
  "collected n i ts G = {v. (currentTerm n, v, i) \<in> G \<and> (\<forall>tk \<in># ts. \<not> asks (currentTerm n) v tk)}"

definition counts_fine ::
    "string set \<Rightarrow> (string \<Rightarrow> raft_node) \<Rightarrow> (string \<Rightarrow> task multiset) \<Rightarrow> (int \<times> string \<times> string) set \<Rightarrow> bool" where
  "counts_fine M N T G \<longleftrightarrow>
     (\<forall>i \<in> M. role (N i) = CANDIDATE \<longrightarrow>
        elections (N i) \<noteq> [] \<and> fst (last (elections (N i))) \<le> 1 + int (card (collected (N i) i (T i) G)))"

definition election_inv ::
    "string set \<Rightarrow> (string \<Rightarrow> raft_node) \<Rightarrow> (string \<Rightarrow> task multiset) \<Rightarrow> (int \<times> string \<times> string) set \<Rightarrow>
     (int \<times> string) set \<Rightarrow> bool" where
  "election_inv M N T G L \<longleftrightarrow>
     finite M \<and> (\<forall>i \<in> M. node_fine M i (N i)) \<and> votes_fine M N G \<and> leaders_fine M N G L \<and>
     tasks_fine M N L T \<and> counts_fine M N T G"

section \<open>What a change of one node keeps\<close>

lemma votes_fine_node:
  assumes "votes_fine M N G" "currentTerm (N i) \<le> currentTerm n'"
    and "\<And>x. currentTerm n' = currentTerm (N i) \<Longrightarrow> (currentTerm n', i, x) \<in> G \<Longrightarrow>
      role n' = FOLLOWER \<and> votedFor n' = votedFor (N i)"
  shows "votes_fine M (N(i := n')) G"
proof -
  have "t \<le> currentTerm n' \<and> (t = currentTerm n' \<longrightarrow> role n' = FOLLOWER \<and> votedFor n' = x)" if g: "(t, i, x) \<in> G" for t x
  proof -
    have old: "t \<le> currentTerm (N i)" "t = currentTerm (N i) \<Longrightarrow> votedFor (N i) = x"
      using assms(1) g unfolding votes_fine_def by blast+
    then show ?thesis using assms(2) assms(3) [of x] g by auto
  qed
  then show ?thesis using assms(1) unfolding votes_fine_def by simp
qed

lemma leaders_fine_node:
  assumes "leaders_fine M N G L" "currentTerm (N i) \<le> currentTerm n'"
    and "currentTerm n' = currentTerm (N i) \<Longrightarrow> role (N i) = LEADER \<Longrightarrow> role n' = LEADER"
    and "role n' = LEADER \<Longrightarrow> (currentTerm n', i) \<in> L"
  shows "leaders_fine M (N(i := n')) G L"
proof -
  have "t \<le> currentTerm n' \<and> (t = currentTerm n' \<longrightarrow> role n' = LEADER)" if l: "(t, i) \<in> L" for t
  proof -
    have "t \<le> currentTerm (N i)" "t = currentTerm (N i) \<Longrightarrow> role (N i) = LEADER"
      using assms(1) l unfolding leaders_fine_def by blast+
    then show ?thesis using assms(2,3) by auto
  qed
  then show ?thesis using assms(1,4) unfolding leaders_fine_def by simp
qed

lemma has_quorum_mono: "has_quorum M G t i \<Longrightarrow> G \<subseteq> G' \<Longrightarrow> has_quorum M G' t i"
  unfolding has_quorum_def by blast

lemma collected_in: "votes_fine M N G \<Longrightarrow> collected n i ts G \<subseteq> M"
  by (auto simp: collected_def votes_fine_def)

lemma card_collected_mono:
  assumes "votes_fine M N G'" "finite M" "collected n i ts G \<subseteq> collected n' i ts' G'"
  shows "card (collected n i ts G) \<le> card (collected n' i ts' G')"
  using assms collected_in finite_subset by (metis card_mono)

lemma collected_face: "currentTerm n = currentTerm n' \<Longrightarrow> collected n i ts G = collected n' i ts G"
  by (simp add: collected_def)

lemma task_fine_mono: "task_fine M L i n t \<Longrightarrow> L \<subseteq> L' \<Longrightarrow> task_fine M L' i n t"
  by (cases t) auto

lemma election_frame:
  assumes inv: "election_inv M N T G L" and i: "i \<in> M" and mono: "G \<subseteq> G'" "L \<subseteq> L'"
    and node: "node_fine M i n'" and votes: "votes_fine M (N(i := n')) G'"
    and leaders: "leaders_fine M (N(i := n')) G' L'"
    and tasks: "\<forall>t \<in># ts'. task_fine M L' i n' t" "\<forall>t p. size (filter_mset (asks t p) ts') \<le> 1"
    and counts: "role n' = CANDIDATE \<Longrightarrow>
      elections n' \<noteq> [] \<and> fst (last (elections n')) \<le> 1 + int (card (collected n' i ts' G'))"
  shows "election_inv M (N(i := n')) (T(i := ts')) G' L'"
proof -
  have fin: "finite M" using inv by (simp add: election_inv_def)
  have "tasks_fine M (N(i := n')) L' (T(i := ts'))"
    using inv tasks task_fine_mono [OF _ mono(2)] by (auto simp: election_inv_def tasks_fine_def)
  moreover have "counts_fine M (N(i := n')) (T(i := ts')) G'"
    unfolding counts_fine_def
  proof (intro ballI impI)
    fix j
    assume j: "j \<in> M" "role ((N(i := n')) j) = CANDIDATE"
    show "elections ((N(i := n')) j) \<noteq> [] \<and> fst (last (elections ((N(i := n')) j)))
        \<le> 1 + int (card (collected ((N(i := n')) j) j ((T(i := ts')) j) G'))"
    proof (cases "j = i")
      case False
      have "card (collected (N j) j (T j) G) \<le> card (collected (N j) j (T j) G')"
        using mono(1) by (intro card_collected_mono [OF votes fin]) (auto simp: collected_def)
      then show ?thesis using False j inv by (fastforce simp: election_inv_def counts_fine_def)
    qed (use counts j in auto)
  qed
  ultimately show ?thesis using inv node votes leaders by (simp add: election_inv_def)
qed

text \<open>What the invariant says of one node.\<close>

lemma election_invD:
  assumes "election_inv M N T G L" "i \<in> M"
  shows "node_fine M i (N i)" "votes_fine M N G" "leaders_fine M N G L" "[] \<notin> M" "finite M"
    "\<forall>t \<in># T i. task_fine M L i (N i) t" "\<forall>t p. size (filter_mset (asks t p) (T i)) \<le> 1"
    "role (N i) = CANDIDATE \<Longrightarrow> elections (N i) \<noteq> [] \<and> fst (last (elections (N i))) \<le> 1 + int (card (collected (N i) i (T i) G))"
  using assms by (auto simp: election_inv_def tasks_fine_def counts_fine_def node_fine_def configured_def)

lemma node_fine_face: "face n' = face n \<Longrightarrow> node_fine M i n' = node_fine M i n"
  by (auto simp: face_eq node_fine_def configured_def peer_ids_def self_vote_def)

section \<open>The kinds of change\<close>

lemma face_fields:
  "face n' = face n \<Longrightarrow> currentTerm n' = currentTerm n \<and> votedFor n' = votedFor n \<and> role n' = role n \<and>
     nodeId n' = nodeId n \<and> peerAddrs n' = peerAddrs n \<and> elections n' = elections n"
  by (simp add: face_eq)

lemma peers_other: "node_fine M i n \<Longrightarrow> set (peer_ids n) = M - {i}"
  by (simp add: node_fine_def configured_def)

text \<open>Tasks may go away, and the node may change in other fields.\<close>

lemma task_fine_face: "face n' = face n \<Longrightarrow> task_fine M L i n' t = task_fine M L i n t"
  by (cases t) (auto simp: face_eq)

lemma asks_smaller:
  assumes "\<forall>t p. size (filter_mset (asks t p) ts) \<le> (1::nat)" "ts' \<subseteq># ts"
  shows "\<forall>t p. size (filter_mset (asks t p) ts') \<le> 1"
proof (intro allI)
  fix t p
  have "size (filter_mset (asks t p) ts') \<le> size (filter_mset (asks t p) ts)"
    using assms(2) by (simp add: multiset_filter_mono size_mset_mono)
  then show "size (filter_mset (asks t p) ts') \<le> 1" using assms(1) order_trans by blast
qed

lemma collected_smaller: "ts' \<subseteq># ts \<Longrightarrow> collected n i ts G \<subseteq> collected n i ts' G"
  by (auto simp: collected_def dest: mset_subset_eqD)

lemma inv_quiet:
  assumes inv: "election_inv M N T G L" and i: "i \<in> M" and f: "face n' = face (N i)" and ts: "ts' \<subseteq># T i"
  shows "election_inv M (N(i := n')) (T(i := ts')) G L"
proof -
  note d = election_invD [OF inv i] and ff = face_fields [OF f]
  have "votes_fine M (N(i := n')) G"
    using d(2) ff by (intro votes_fine_node) (auto simp: votes_fine_def)
  moreover have "leaders_fine M (N(i := n')) G L"
    using d(3) ff i by (intro leaders_fine_node) (auto simp: leaders_fine_def)
  moreover have "\<forall>t \<in># ts'. task_fine M L i n' t"
    using d(6) ts task_fine_face [OF f] by (meson mset_subset_eqD)
  moreover have "role n' = CANDIDATE \<Longrightarrow>
      elections n' \<noteq> [] \<and> fst (last (elections n')) \<le> 1 + int (card (collected n' i ts' G))"
  proof -
    assume "role n' = CANDIDATE"
    moreover have "card (collected (N i) i (T i) G) \<le> card (collected (N i) i ts' G)"
      by (rule card_collected_mono [OF d(2,5) collected_smaller [OF ts]])
    ultimately show ?thesis
      using d(8) ff collected_face [of n' "N i" i ts' G] by (auto intro: order_trans)
  qed
  ultimately show ?thesis
    using node_fine_face [OF f] d(1) asks_smaller [OF d(7) ts] by (intro election_frame [OF inv i]) simp_all
qed

text \<open>A leader sends.\<close>

lemma append_task_fine:
  assumes "append_task n t" "node_fine M i n" "(currentTerm n, i) \<in> L"
  shows "task_fine M L i n' t \<and> \<not> is_vote t"
  using assms peers_other [OF assms(2)] by (cases t) (auto simp: append_task_def node_fine_def)

lemma inv_sent:
  assumes inv: "election_inv M N T G L" and i: "i \<in> M" and f: "face n1 = face (N i)" and s: "sent n1 n'"
  shows "\<exists>us. rpcPool n' = rpcPool n1 @ us \<and> election_inv M (N(i := n')) (T(i := T i + mset us)) G L"
proof -
  obtain us where us: "rpcPool n' = rpcPool n1 @ us" "\<forall>t \<in> set us. append_task n1 t" and f': "face n' = face (N i)"
    using s f unfolding sent_def by auto
  note d = election_invD [OF inv i] and ff = face_fields [OF f]
  have q: "election_inv M (N(i := n')) (T(i := T i)) G L" by (rule inv_quiet [OF inv i f']) simp
  have fine: "task_fine M L i n' t \<and> \<not> is_vote t" if "t \<in> set us" for t
  proof (rule append_task_fine)
    show "append_task n1 t" using us(2) that by blast
    then have "role (N i) = LEADER" using ff by (simp add: append_task_def)
    then show "(currentTerm n1, i) \<in> L" using d(3) i ff by (auto simp: leaders_fine_def)
    show "node_fine M i n1" using d(1) node_fine_face [OF f] by simp
  qed
  have na: "\<not> asks t p tk" if "tk \<in> set us" for t p tk
    using fine that by (auto simp: asks_def)
  have none: "filter_mset (asks t p) (mset us) = {#}" for t p
    using na by (auto simp: filter_mset_eq_conv)
  have same: "collected n'' i (T i + mset us) G = collected n'' i (T i) G" for n''
    using na by (auto simp: collected_def)
  note d' = election_invD [OF q i, simplified]
  have "election_inv M ((N(i := n'))(i := n')) ((T(i := T i))(i := T i + mset us)) G L"
    using d' fine by (intro election_frame [OF q i]) (auto simp: none same)
  then show ?thesis using us(1) by (intro exI [of _ us]) simp
qed

text \<open>A node steps down to a newer term, or a candidate within its term.\<close>

lemma inv_stepped:
  assumes inv: "election_inv M N T G L" and i: "i \<in> M" and st: "stepped t (N i) n'" and t: "is_int32 t"
    and newer: "currentTerm (N i) < t \<or> (t = currentTerm (N i) \<and> role (N i) = CANDIDATE)"
  shows "election_inv M (N(i := n')) T G L"
proof -
  note d = election_invD [OF inv i] and ff = stepped_fields [OF st]
  have "votes_fine M (N(i := n')) G"
    using d(2) ff newer by (intro votes_fine_node) (auto simp: votes_fine_def)
  moreover have "leaders_fine M (N(i := n')) G L"
    using d(3) ff newer by (intro leaders_fine_node) auto
  moreover have "task_fine M L i n' tk" if "tk \<in># T i" for tk
    using d(6) that ff newer by (cases tk) fastforce+
  moreover have "node_fine M i n'"
    using d(1) ff t by (auto simp: node_fine_def configured_def peer_ids_def self_vote_def)
  ultimately have "election_inv M (N(i := n')) (T(i := T i)) G L"
    using d(7) ff by (intro election_frame [OF inv i]) auto
  then show ?thesis by simp
qed

text \<open>A follower gives its vote.\<close>

lemma inv_voted:
  assumes inv: "election_inv M N T G L" and i: "i \<in> M" and v: "voted x (N i) n'" and x: "x \<in> M" "x \<noteq> i"
    and free: "votedFor (N i) = [] \<or> votedFor (N i) = x"
  shows "election_inv M (N(i := n')) T (insert (currentTerm (N i), i, x) G) L"
proof -
  note d = election_invD [OF inv i]
  have ff: "currentTerm n' = currentTerm (N i)" "votedFor n' = x" "role n' = role (N i)" "nodeId n' = nodeId (N i)"
      "peerAddrs n' = peerAddrs (N i)" "elections n' = elections (N i)"
    using v by (simp_all add: voted_def face_eq)
  have "votedFor (N i) \<noteq> i" using free x d(4) i by auto
  moreover have "self_vote (ballot_of (N i))" "nodeId (N i) = i"
    using d(1) by (simp_all add: node_fine_def configured_def)
  ultimately have fol: "role (N i) = FOLLOWER"
    unfolding self_vote_def by fastforce
  have uniq: "y = x" if "(currentTerm (N i), i, y) \<in> G" for y
  proof -
    have "votedFor (N i) = y" "y \<in> M" using that d(2) unfolding votes_fine_def by blast+
    then show ?thesis using free d(4) by metis
  qed
  have old: "votedFor (N i) = y" if "(currentTerm (N i), i, y) \<in> G" for y
    using that d(2) unfolding votes_fine_def by blast
  have base: "votes_fine M (N(i := n')) G"
    using uniq old fol ff by (intro votes_fine_node [OF d(2)]) auto
  have votes: "votes_fine M (N(i := n')) (insert (currentTerm (N i), i, x) G)"
    using base uniq ff fol x i unfolding votes_fine_def by auto
  have l1: "leaders_fine M (N(i := n')) G L"
    using d(3) ff i by (intro leaders_fine_node) (auto simp: leaders_fine_def)
  have "(t, j, y) \<noteq> (currentTerm (N i), i, x)" if "(t, j) \<in> L" for t j y
    using that d(3) fol unfolding leaders_fine_def by auto
  then have leaders: "leaders_fine M (N(i := n')) (insert (currentTerm (N i), i, x) G) L"
    using l1 has_quorum_mono [of M G _ _ "insert (currentTerm (N i), i, x) G"] unfolding leaders_fine_def by blast
  have "node_fine M i n'"
    using d(1) ff fol by (auto simp: node_fine_def configured_def peer_ids_def self_vote_def)
  moreover have "task_fine M L i n' tk" if "tk \<in># T i" for tk
    using d(6) that ff by (cases tk) fastforce+
  ultimately have "election_inv M (N(i := n')) (T(i := T i)) (insert (currentTerm (N i), i, x) G) L"
    using votes leaders d(7) ff fol by (intro election_frame [OF inv i]) auto
  then show ?thesis by simp
qed

text \<open>A node stands for election in the next term.\<close>

lemma configured_majority:
  assumes "configured M i n" "i \<in> M" "finite M"
  shows "majority n = int (card M div 2 + 1)"
proof -
  have c: "distinct (peer_ids n)" "set (peer_ids n) = M - {i}" "length (peerAddrs n) = length (peer_ids n)"
    using assms(1) by (simp_all add: configured_def)
  have "length (peer_ids n) = card (M - {i})" using distinct_card [OF c(1)] c(2) by simp
  moreover have "Suc (card (M - {i})) = card M" using assms(2,3) by (rule card.remove [symmetric, rotated])
  ultimately have "len (peerAddrs n) + 1 = int (card M)" using c(3) by linarith
  then show ?thesis by (simp add: majority_def zdiv_int)
qed

lemma asks_once: "distinct (map task_peer ts) \<Longrightarrow> size (filter_mset (asks t p) (mset ts)) \<le> 1"
proof -
  assume d: "distinct (map task_peer ts)"
  have "length (filter (asks t p) ts) = length (map task_peer (filter (asks t p) ts))" by simp
  also have "\<dots> = card (set (map task_peer (filter (asks t p) ts)))"
    using d by (metis distinct_card distinct_map_filter)
  also have "\<dots> \<le> card {p}" by (rule card_mono) (auto simp: asks_def)
  finally show ?thesis by (simp flip: mset_filter)
qed

lemma vote_task_fine:
  assumes "vote_task n e t" "node_fine M i n" "i \<in> M" "finite M" "Suc e = length (elections n)"
  shows "task_fine M L i n t"
proof -
  obtain p port where t: "t = VoteTask p port (vote_params n) (currentTerm n) (majority n) e" "p \<in> set (peer_ids n)"
    using assms(1) unfolding vote_task_def by blast
  have "p \<in> M - {i}" using t(2) peers_other [OF assms(2)] by simp
  moreover have "configured M i n" "is_int32 (currentTerm n)" using assms(2) by (simp_all add: node_fine_def)
  moreover have "nodeId n = i" using assms(2) by (simp add: node_fine_def configured_def)
  ultimately show ?thesis
    using configured_majority [of M i n] assms(3-5) by (simp add: t(1) vote_params_at)
qed

lemma inv_stood:
  assumes inv: "election_inv M N T G L" and i: "i \<in> M" and st: "stood (N i) n'" and m: "currentTerm (N i) \<noteq> INT_MAX"
  shows "\<exists>ts. rpcPool n' = rpcPool (N i) @ ts \<and> election_inv M (N(i := n')) (T(i := T i + mset ts)) G L"
proof -
  note d = election_invD [OF inv i]
  have ff: "currentTerm n' = currentTerm (N i) + 1" "votedFor n' = nodeId (N i)" "role n' = CANDIDATE"
      "nodeId n' = nodeId (N i)" "peerAddrs n' = peerAddrs (N i)" "elections n' = elections (N i) @ [(1, False)]"
    using st by (simp_all add: stood_def face_def ballot_of_def)
  obtain ts zs where ts: "rpcPool n' = rpcPool (N i) @ ts" "\<forall>t \<in> set ts. vote_task n' (length (elections (N i))) t"
      "peer_ids (N i) = map task_peer ts @ zs"
    using st unfolding stood_def by blast
  have nf: "node_fine M i n'"
    using d(1) ff m by (auto simp: node_fine_def configured_def peer_ids_def self_vote_def is_int32_def INT_MAX_def INT_MIN_def)
  have "votes_fine M (N(i := n')) G" "leaders_fine M (N(i := n')) G L"
    using ff by (intro votes_fine_node [OF d(2)] leaders_fine_node [OF d(3)]; simp)+
  moreover have "task_fine M L i n' t" if "t \<in># T i + mset ts" for t
  proof (cases "t \<in># T i")
    case True
    then have "task_fine M L i (N i) t" using d(6) by blast
    then show ?thesis using ff by (cases t) auto
  next
    case False
    then have "vote_task n' (length (elections (N i))) t" using that ts(2) by simp
    then show ?thesis using nf i d(5) ff by (intro vote_task_fine) simp_all
  qed
  moreover have "size (filter_mset (asks t p) (T i + mset ts)) \<le> 1" for t p
  proof (cases "t = currentTerm (N i) + 1")
    case True
    have "\<not> asks t p tk" if "tk \<in># T i" for tk
      using d(6) that True by (cases tk) (auto simp: asks_def)
    then have none: "filter_mset (asks t p) (T i) = {#}" by (auto simp: filter_mset_eq_conv)
    have "distinct (map task_peer ts)"
      using d(1) ts(3) by (simp add: node_fine_def configured_def)
    then show ?thesis using asks_once [of ts t p] by (simp add: none)
  next
    case False
    then have "\<not> asks t p tk" if "tk \<in> set ts" for tk
      using ts(2) that ff(1) by (auto simp: asks_def vote_task_def)
    then have none: "filter_mset (asks t p) (mset ts) = {#}" by (auto simp: filter_mset_eq_conv)
    show ?thesis using d(7) by (simp add: none)
  qed
  ultimately have "election_inv M (N(i := n')) (T(i := T i + mset ts)) G L"
    using nf ff by (intro election_frame [OF inv i]) auto
  then show ?thesis using ts(1) by blast
qed

text \<open>A candidate with a majority becomes leader.\<close>

lemma inv_won:
  assumes inv: "election_inv M N T G L" and i: "i \<in> M" and w: "won (N i) n'"
    and q: "has_quorum M G (currentTerm (N i)) i"
  shows "\<exists>us. rpcPool n' = rpcPool (N i) @ us \<and> role n' = LEADER \<and> currentTerm n' = currentTerm (N i) \<and>
    election_inv M (N(i := n')) (T(i := T i + mset us)) G (insert (currentTerm (N i), i) L)"
proof -
  note d = election_invD [OF inv i]
  obtain n1 where n1: "face n1 = face ((N i)\<lparr>role := LEADER\<rparr>)" "rpcPool n1 = rpcPool (N i)" "sent n1 n'"
      and cand: "role (N i) = CANDIDATE"
    using w unfolding won_def by blast
  have ff: "currentTerm n1 = currentTerm (N i)" "votedFor n1 = votedFor (N i)" "role n1 = LEADER"
      "nodeId n1 = nodeId (N i)" "peerAddrs n1 = peerAddrs (N i)" "elections n1 = elections (N i)"
    using n1(1) by (simp_all add: face_eq)
  let ?L = "insert (currentTerm (N i), i) L"
  have none: "(currentTerm (N i), i, x) \<notin> G" for x
    using d(2) cand unfolding votes_fine_def by (metis role.distinct(1))
  have "votes_fine M (N(i := n1)) G"
    using none ff by (intro votes_fine_node [OF d(2)]) simp_all
  moreover have "leaders_fine M N G L" by (rule d(3))
  then have "leaders_fine M (N(i := n1)) G ?L"
    using none q i ff unfolding leaders_fine_def by auto
  moreover have "node_fine M i n1"
  proof -
    have "self_vote (ballot_of (N i))" "nodeId (N i) = i" using d(1) by (simp_all add: node_fine_def configured_def)
    then have "self_vote (ballot_of n1)" using cand ff by (simp add: self_vote_def)
    then show ?thesis using d(1) ff by (simp add: node_fine_def configured_def peer_ids_def)
  qed
  moreover have "task_fine M ?L i n1 tk" if "tk \<in># T i" for tk
  proof -
    have "task_fine M L i (N i) tk" using d(6) that by blast
    then show ?thesis using ff by (cases tk) auto
  qed
  ultimately have "election_inv M (N(i := n1)) (T(i := T i)) G ?L"
    using d(7) ff by (intro election_frame [OF inv i]) auto
  then have inv1: "election_inv M (N(i := n1)) T G ?L" by simp
  have f': "face n' = face n1" using sent_same [OF n1(3)] by simp
  obtain us where us: "rpcPool n' = rpcPool n1 @ us" "election_inv M ((N(i := n1))(i := n')) (T(i := T i + mset us)) G ?L"
    using inv_sent [OF inv1 i _ n1(3)] by auto
  moreover have "role n' = LEADER" "currentTerm n' = currentTerm (N i)" "rpcPool n' = rpcPool (N i) @ us"
    using f' ff us(1) n1(2) by (simp_all add: face_eq)
  ultimately show ?thesis by auto
qed

text \<open>A vote is counted.\<close>

lemma quorum_of_count:
  assumes "votes_fine M N G" "finite M" "i \<in> M" "role (N i) = CANDIDATE"
    and "C = collected n i ts G" "currentTerm n = currentTerm (N i)" "int (card M div 2 + 1) \<le> 1 + int (card C)"
  shows "has_quorum M G (currentTerm (N i)) i"
proof -
  have "i \<notin> C"
    using assms(1,4-6) unfolding votes_fine_def collected_def by (metis (no_types, lifting) mem_Collect_eq role.distinct(1))
  moreover have sub: "C \<subseteq> M" using collected_in [OF assms(1)] assms(5) by blast
  then have fin: "finite C" using assms(2) finite_subset by blast
  ultimately have "card (insert i C) = Suc (card C)" by simp
  moreover have "card M div 2 \<le> card C" using assms(7) by linarith
  ultimately have "card M div 2 + 1 \<le> card (insert i C)" by linarith
  moreover have "\<forall>v \<in> insert i C. v = i \<or> (currentTerm (N i), v, i) \<in> G"
    using assms(5,6) by (auto simp: collected_def)
  moreover have "insert i C \<subseteq> M" using sub assms(3) by blast
  ultimately show ?thesis unfolding has_quorum_def by blast
qed

lemma inv_counted:
  assumes inv: "election_inv M N T G L" and i: "i \<in> M" and c: "counted needed e (N i) n'"
    and tk: "T i = add_mset (VoteTask p port params (currentTerm (N i)) needed e) ts'"
    and g: "(currentTerm (N i), p, i) \<in> G" and cand: "role (N i) = CANDIDATE"
  shows "\<exists>us. rpcPool n' = rpcPool (N i) @ us \<and> (\<exists>L'. L \<subseteq> L' \<and> L' \<subseteq> insert (currentTerm (N i), i) L \<and>
      (role n' = LEADER \<longrightarrow> L' = insert (currentTerm n', i) L) \<and> (role n' \<noteq> LEADER \<longrightarrow> L' = L) \<and>
      election_inv M (N(i := n')) (T(i := ts' + mset us)) G L')"
proof -
  note d = election_invD [OF inv i]
  obtain w n1 where n1: "face n1 = face ((N i)\<lparr>elections := (elections (N i))[e := (fst (elections (N i) ! e) + 1, w)]\<rparr>)"
      "rpcPool n1 = rpcPool (N i)" "n' = n1 \<or> (needed \<le> fst (elections (N i) ! e) + 1 \<and> won n1 n')"
    using c unfolding counted_def by blast
  have ff: "currentTerm n1 = currentTerm (N i)" "votedFor n1 = votedFor (N i)" "role n1 = role (N i)"
      "nodeId n1 = nodeId (N i)" "peerAddrs n1 = peerAddrs (N i)"
      "elections n1 = (elections (N i))[e := (fst (elections (N i) ! e) + 1, w)]"
    using n1(1) by (simp_all add: face_eq)
  have fine: "task_fine M L i (N i) (VoteTask p port params (currentTerm (N i)) needed e)"
    using d(6) tk by simp
  then have e: "Suc e = length (elections (N i))" and needed: "needed = int (card M div 2 + 1)"
    using cand by simp_all
  then have ne: "elections (N i) \<noteq> []" "e = length (elections (N i)) - 1" by auto
  have last0: "last (elections (N i)) = elections (N i) ! e"
    using last_conv_nth [OF ne(1)] ne(2) by simp
  have last1: "last (elections n1) = (fst (elections (N i) ! e) + 1, w)" "elections n1 \<noteq> []"
    unfolding ff(6) using last_list_update [OF ne(1)] ne by simp_all
  let ?C0 = "collected (N i) i (T i) G" and ?C1 = "collected n1 i ts' G"
  have "filter_mset (asks (currentTerm (N i)) p) ts' = {#}"
  proof -
    have "size (filter_mset (asks (currentTerm (N i)) p) (T i)) \<le> 1" using d(7) by blast
    then show ?thesis unfolding tk by (simp add: asks_def)
  qed
  then have "\<not> asks (currentTerm (N i)) p t" if "t \<in># ts'" for t
    using that by simp
  then have p1: "p \<in> ?C1" using g by (simp add: collected_def ff(1))
  have p0: "p \<notin> ?C0" unfolding tk by (simp add: collected_def asks_def)
  have "?C0 \<subseteq> ?C1" unfolding tk collected_def ff(1) by auto
  then have "insert p ?C0 \<subseteq> ?C1" using p1 by blast
  moreover have fin: "finite ?C1" by (rule finite_subset [OF collected_in [OF d(2)] d(5)])
  ultimately have "card (insert p ?C0) \<le> card ?C1" by (rule card_mono [rotated])
  moreover have "finite ?C0" by (rule finite_subset [OF collected_in [OF d(2)] d(5)])
  ultimately have card: "card ?C0 + 1 \<le> card ?C1" using p0 by simp
  have count: "fst (elections (N i) ! e) + 1 \<le> 1 + int (card ?C1)"
    using d(8) [OF cand] card last0 by simp
  have "election_inv M (N(i := n1)) (T(i := ts')) G L"
  proof (rule election_frame [OF inv i])
    show "votes_fine M (N(i := n1)) G"
      using d(2) ff by (intro votes_fine_node) (auto simp: votes_fine_def)
    show "leaders_fine M (N(i := n1)) G L"
      using d(3) ff i by (intro leaders_fine_node) (auto simp: leaders_fine_def)
    show "node_fine M i n1"
      using d(1) ff by (simp add: node_fine_def configured_def peer_ids_def self_vote_def)
    show "\<forall>t \<in># ts'. task_fine M L i n1 t"
    proof
      fix t
      assume "t \<in># ts'"
      then have "task_fine M L i (N i) t" using d(6) tk by simp
      then show "task_fine M L i n1 t" using ff by (cases t) auto
    qed
    show "\<forall>t p. size (filter_mset (asks t p) ts') \<le> 1"
      using asks_smaller [OF d(7), of ts'] tk by simp
  qed (use count last1 in auto)
  moreover have "has_quorum M G (currentTerm (N i)) i" if "needed \<le> fst (elections (N i) ! e) + 1"
    using quorum_of_count [OF d(2,5) i cand refl ff(1), of ts'] that count needed by simp
  ultimately show ?thesis
  proof (cases "n' = n1")
    case False
    assume inv1: "election_inv M (N(i := n1)) (T(i := ts')) G L"
      and q: "needed \<le> fst (elections (N i) ! e) + 1 \<Longrightarrow> has_quorum M G (currentTerm (N i)) i"
    have w1: "won n1 n'" "needed \<le> fst (elections (N i) ! e) + 1" using n1(3) False by blast+
    obtain us where us: "rpcPool n' = rpcPool n1 @ us" "role n' = LEADER" "currentTerm n' = currentTerm n1"
        "election_inv M ((N(i := n1))(i := n')) ((T(i := ts'))(i := ts' + mset us)) G (insert (currentTerm n1, i) L)"
      using inv_won [OF inv1 i, of n'] w1(1) q [OF w1(2)] ff(1) by auto
    then show ?thesis
      using n1(2) ff(1) by (intro exI [of _ us] conjI exI [of _ "insert (currentTerm n1, i) L"]) auto
  next
    case True
    assume "election_inv M (N(i := n1)) (T(i := ts')) G L"
    then show ?thesis
      using True n1(2) ff(3) cand by (intro exI [of _ "[]"] conjI exI [of _ L]) auto
  qed
qed

section \<open>The invariant of the cluster\<close>

definition outs :: "cluster \<Rightarrow> string \<Rightarrow> task multiset" where
  "outs c i =
     mset (rpcPool (cnodes c i)) + mset (map snd (filter (\<lambda>x. fst x = i) (calls c))) +
     mset (map (\<lambda>x. fst (snd x)) (filter (\<lambda>x. fst x = i) (replies c)))"

definition reply_fine :: "(int \<times> string \<times> string) set \<Rightarrow> string \<Rightarrow> task \<Rightarrow> json outcome \<Rightarrow> bool" where
  "reply_fine G i t resp \<longleftrightarrow>
     (\<forall>r. is_vote t \<longrightarrow> resp = Ok r \<longrightarrow> reply_grants r \<longrightarrow> (task_term t, task_peer t, i) \<in> G)"

definition cluster_inv :: "string set \<Rightarrow> cluster \<Rightarrow> bool" where
  "cluster_inv M c \<longleftrightarrow>
     election_inv M (cnodes c) (outs c) (granted c) (led c) \<and>
     (\<forall>x \<in> set (calls c). fst x \<in> M) \<and>
     (\<forall>x \<in> set (replies c). fst x \<in> M \<and> reply_fine (granted c) (fst x) (fst (snd x)) (snd (snd x)))"

text \<open>Two leaders of a term would have a voter in common.\<close>

lemma one_leader:
  assumes inv: "election_inv M N T G L" and ij: "(t, i) \<in> L" "(t, j) \<in> L"
  shows "i = j"
proof (rule ccontr)
  assume neq: "i \<noteq> j"
  have l: "has_quorum M G t i" "has_quorum M G t j" "\<And>x. (t, i, x) \<notin> G" "\<And>x. (t, j, x) \<notin> G" and fin: "finite M"
    using inv ij unfolding election_inv_def leaders_fine_def by blast+
  have uniq: "(t, v, x) \<in> G \<Longrightarrow> (t, v, y) \<in> G \<Longrightarrow> x = y" for v x y
    using inv unfolding election_inv_def votes_fine_def by blast
  obtain Q where Q: "Q \<subseteq> M" "card M div 2 + 1 \<le> card Q" "\<forall>v \<in> Q. v = i \<or> (t, v, i) \<in> G"
    using l(1) unfolding has_quorum_def by blast
  obtain R where R: "R \<subseteq> M" "card M div 2 + 1 \<le> card R" "\<forall>v \<in> R. v = j \<or> (t, v, j) \<in> G"
    using l(2) unfolding has_quorum_def by blast
  have "quorum M (card M div 2 + 1)" by unfold_locales (use fin in auto)
  then obtain v where v: "v \<in> Q" "v \<in> R" using quorum.intersect [OF _ Q(1) R(1) Q(2) R(2)] by blast
  have "v = i \<or> (t, v, i) \<in> G" "v = j \<or> (t, v, j) \<in> G" using Q(3) R(3) v by blast+
  then show False using l(3) [of j] l(4) [of i] uniq [of v i j] neq by auto
qed

text \<open>A change of the book of a node, and what it sends then.\<close>

definition resent :: "raft_node \<Rightarrow> raft_node \<Rightarrow> bool" where
  "resent n n' \<longleftrightarrow> (\<exists>n1. face n1 = face n \<and> rpcPool n1 = rpcPool n \<and> sent n1 n')"

lemma resent_book: "sent (n\<lparr>log := lg\<rparr>) n' \<Longrightarrow> resent n n'" "sent (n\<lparr>matchIndex := m\<rparr>) n' \<Longrightarrow> resent n n'"
  unfolding resent_def by (metis face_updates(1) pool_updates(1), metis face_updates(5) pool_updates(2))

lemma resent_sent: "sent n n' \<Longrightarrow> resent n n'"
  unfolding resent_def by blast

lemma resent_refl [simp]: "resent n n"
  by (simp add: resent_sent)

lemma resentI:
  "sent n n' \<Longrightarrow> resent n n'" "submitted c n n' \<Longrightarrow> resent n n'" "matched t n n' \<Longrightarrow> resent n n'"
  "handled req n out n' \<Longrightarrow> resent n n'"
  using resent_book resent_sent by (auto simp: submitted_def matched_def handled_def)

text \<open>What the events of a node itself do.\<close>

lemma internal_effect:
  assumes "calm env" "internal ev" "run_event env ev n = (out, n')" "alive out"
  shows "sent n n' \<or> (\<exists>c. submitted c n n') \<or>
    (currentTerm n \<noteq> INT_MAX \<and> (stood n n' \<or> (majority n \<le> 1 \<and> (\<exists>n1. stood n n1 \<and> won n1 n'))))"
proof (cases ev)
  case (ElectionTimeout k)
  define m where "m = n\<lparr>electionTimer := timer_fire k (electionTimer n)\<rparr>"
  have m: "sent n m" "stood m x = stood n x" "majority m = majority n" "currentTerm m = currentTerm n" for x
    by (auto simp: m_def stood_def peer_ids_def majority_def intro: sentI)
  show ?thesis
  proof (cases "k < length (due (electionTimer n)) \<and> role n \<noteq> LEADER")
    case True
    then have eq: "run_event env ev n = startElection env m"
      by (cases "role n") (auto simp: ElectionTimeout election_timeout_def election_callback_def m_def)
    have "currentTerm n \<noteq> INT_MAX" using eq assms(3,4) m(4) by (auto simp: startElection_def)
    moreover have "role m \<noteq> LEADER" using True by (simp add: m_def)
    moreover have "n' = snd (startElection env m)" using eq assms(3) by (metis snd_conv)
    ultimately show ?thesis
      using startElection_effect [OF assms(1), of m n'] m by auto
  next
    case False
    then have "n' = n \<or> n' = m"
      using assms(3) by (cases "role n") (auto simp: ElectionTimeout election_timeout_def election_callback_def m_def split: if_splits)
    then show ?thesis using m(1) by auto
  qed
next
  case (HeartbeatTimeout k)
  define m where "m = n\<lparr>heartbeatTimer := timer_fire k (heartbeatTimer n)\<rparr>"
  have "sent n m" by (auto simp: m_def intro: sentI)
  moreover have "n' = n \<or> n' = snd (sendHeartbeatsInternal env m)"
    using assms(3) by (auto simp: HeartbeatTimeout heartbeat_timeout_def heartbeat_callback_def m_def split: if_splits)
  ultimately show ?thesis using sends_heartbeats [of env] by (auto simp: sends_def intro: sent_trans)
next
  case (CommandSubmitted c)
  have "snd (run_event env ev n) = snd (submitCommand env c n)"
    by (cases rule: abind_snd [of "submitCommand env c" "\<lambda>_. ret ()" n])
       (simp_all add: CommandSubmitted no_result_def ret_def)
  then have n': "n' = snd (submitCommand env c n)" using assms(3) by simp
  show ?thesis
  proof (cases "role n = LEADER")
    case True
    then show ?thesis using submitted_submit [of n c env] n' by blast
  next
    case False
    then show ?thesis using n' by (simp add: submitCommand_def)
  qed
next
  case (ElectionWake k)
  have "sent n (election_wake k n)" by (simp add: election_wake_def sentI)
  then show ?thesis using assms(3) ElectionWake by (simp add: modify_def)
next
  case (HeartbeatWake k)
  have "sent n (heartbeat_wake k n)" by (simp add: heartbeat_wake_def sentI)
  then show ?thesis using assms(3) HeartbeatWake by (simp add: modify_def)
qed (use assms(2) in simp_all)

lemma inv_node_move:
  assumes inv: "election_inv M N T G L" and i: "i \<in> M"
    and move: "resent (N i) n' \<or> (currentTerm (N i) \<noteq> INT_MAX \<and>
      (stood (N i) n' \<or> (majority (N i) \<le> 1 \<and> (\<exists>n1. stood (N i) n1 \<and> won n1 n'))))"
  shows "\<exists>us. rpcPool n' = rpcPool (N i) @ us \<and>
    election_inv M (N(i := n')) (T(i := T i + mset us)) G (if role n' = LEADER then insert (currentTerm n', i) L else L)"
proof -
  have led: "(if role n' = LEADER then insert (currentTerm n', i) L else L) = L" if "election_inv M (N(i := n')) T' G L" for T'
    using election_invD(3) [OF that i] i by (auto simp: leaders_fine_def)
  consider "resent (N i) n'" | "currentTerm (N i) \<noteq> INT_MAX" "stood (N i) n'"
    | n1 where "currentTerm (N i) \<noteq> INT_MAX" "majority (N i) \<le> 1" "stood (N i) n1" "won n1 n'" using move by blast
  then show ?thesis
  proof cases
    case 1
    then obtain us where us: "rpcPool n' = rpcPool (N i) @ us" "election_inv M (N(i := n')) (T(i := T i + mset us)) G L"
      unfolding resent_def using inv_sent [OF inv i] by metis
    then have "election_inv M (N(i := n')) (T(i := T i + mset us)) G (if role n' = LEADER then insert (currentTerm n', i) L else L)"
      using led by simp
    then show ?thesis using us(1) by blast
  next
    case 2
    obtain us where us: "rpcPool n' = rpcPool (N i) @ us" "election_inv M (N(i := n')) (T(i := T i + mset us)) G L"
      using inv_stood [OF inv i 2(2,1)] by blast
    then have "election_inv M (N(i := n')) (T(i := T i + mset us)) G (if role n' = LEADER then insert (currentTerm n', i) L else L)"
      using led by simp
    then show ?thesis using us(1) by blast
  next
    case 3
    obtain ts where ts: "rpcPool n1 = rpcPool (N i) @ ts" "election_inv M (N(i := n1)) (T(i := T i + mset ts)) G L"
      using inv_stood [OF inv i 3(3,1)] by blast
    have "configured M i (N i)" using election_invD(1) [OF inv i] by (simp add: node_fine_def)
    then have "int (card M div 2 + 1) \<le> 1"
      using configured_majority [of M i "N i"] 3(2) i election_invD(5) [OF inv i] by simp
    then have "card M div 2 + 1 \<le> card {i}" by simp
    then have "has_quorum M G (currentTerm n1) i"
      unfolding has_quorum_def using i by blast
    then have "\<exists>us. rpcPool n' = rpcPool n1 @ us \<and> role n' = LEADER \<and> currentTerm n' = currentTerm n1 \<and>
        election_inv M (N(i := n')) (T(i := T i + mset ts + mset us)) G (insert (currentTerm n1, i) L)"
      using inv_won [OF ts(2) i, of n'] 3(4) by simp
    then obtain us where us: "rpcPool n' = rpcPool n1 @ us" "role n' = LEADER" "currentTerm n' = currentTerm n1"
        "election_inv M (N(i := n')) (T(i := T i + mset ts + mset us)) G (insert (currentTerm n1, i) L)"
      by blast
    then show ?thesis using ts(1) by (intro exI [of _ "ts @ us"]) (simp add: add.assoc)
  qed
qed

text \<open>What a call does at its peer.\<close>

definition votes_after :: "task \<Rightarrow> string \<Rightarrow> string \<Rightarrow> json outcome \<Rightarrow> (int \<times> string \<times> string) set \<Rightarrow> (int \<times> string \<times> string) set" where
  "votes_after t voter candidate out G =
     (case out of Ok r \<Rightarrow> if is_vote t \<and> reply_grants r then insert (task_term t, voter, candidate) G else G | _ \<Rightarrow> G)"

lemma reply_grants_simps [simp]:
  "reply_grants (vote_reply a b) = b" "reply_grants (json_norm r) = reply_grants r" "\<not> reply_grants (error_json w)"
proof -
  show "reply_grants (vote_reply a b) = b"
    by (auto simp: reply_grants_def vote_reply_def json_object_def Let_def)
  have "json_norm v = JBoolean x \<longleftrightarrow> v = JBoolean x" for v x by (cases v) auto
  then show "reply_grants (json_norm r) = reply_grants r"
    by (auto simp: reply_grants_def json_at_norm omap_eq_Ok)
  show "\<not> reply_grants (error_json w)"
    by (auto simp: reply_grants_def error_json_def json_object_def Let_def)
qed

lemma led_same: "election_inv M N T G L \<Longrightarrow> i \<in> M \<Longrightarrow> (if role (N i) = LEADER then insert (currentTerm (N i), i) L else L) = L"
  using election_invD(3) [of M N T G L i] by (auto simp: leaders_fine_def)

lemma onRequestVote_alive:
  assumes "int_at req ''term'' = Ok t" "string_at req ''candidateId'' = Ok x"
    and "onRequestVote env req n = (out, n')" "alive out"
  shows "(n' = n \<and> (\<exists>e. out = Throw e)) \<or> (\<exists>i lt. handle_vote env t x i lt n = (out, n'))"
  using assms
  by (cases "int_at req ''lastLogIndex''"; cases "int_at req ''lastLogTerm''")
     (auto simp: onRequestVote_def abind.simps lift_def)

lemma inv_vote_call:
  assumes inv: "election_inv M N T G L" and i: "i \<in> M" and t: "VoteTask j port params t needed e \<in># T i"
    and env: "calm env"
    and h: "handle_vote env t i a b (N j) = (out, n')"
  shows "election_inv M (N(j := n')) T (votes_after (VoteTask j port params t needed e) j i out G) L \<and> rpcPool n' = rpcPool (N j)"
proof -
  have fine: "j \<in> M" "j \<noteq> i" "is_int32 t" using election_invD(6) [OF inv i] t by auto
  have stay: "election_inv M (N(j := N j)) T G L" using inv by simp
  from handle_vote_effect [OF env h] consider "n' = N j" "out = Ok (vote_reply (currentTerm (N j)) False)"
    | n1 where "currentTerm (N j) \<le> t" "if currentTerm (N j) < t then stepped t (N j) n1 else n1 = N j"
        "(n' = n1 \<and> out = Ok (vote_reply t False)) \<or>
         (voted i n1 n' \<and> (votedFor n1 = [] \<or> votedFor n1 = i) \<and> out = Ok (vote_reply t True))" by blast
  then show ?thesis
  proof cases
    case 1
    then show ?thesis using stay by (simp add: votes_after_def)
  next
    case 2
    have inv1: "election_inv M (N(j := n1)) T G L" and t1: "currentTerm n1 = t" and p1: "rpcPool n1 = rpcPool (N j)"
    proof -
      show "election_inv M (N(j := n1)) T G L"
        using 2(2) inv_stepped [OF inv fine(1) _ fine(3)] stay by (auto split: if_splits)
      show "currentTerm n1 = t" "rpcPool n1 = rpcPool (N j)"
        using 2(1,2) stepped_fields by (auto split: if_splits)
    qed
    from 2(3) show ?thesis
    proof
      assume "n' = n1 \<and> out = Ok (vote_reply t False)"
      then show ?thesis using inv1 p1 by (simp add: votes_after_def)
    next
      assume v: "voted i n1 n' \<and> (votedFor n1 = [] \<or> votedFor n1 = i) \<and> out = Ok (vote_reply t True)"
      then have "election_inv M ((N(j := n1))(j := n')) T (insert (t, j, i) G) L"
        using inv_voted [OF inv1 fine(1), of i n'] i fine(2) t1 by simp
      moreover have "rpcPool n' = rpcPool (N j)" using v p1 by (simp add: voted_def)
      ultimately show ?thesis using v by (simp add: votes_after_def)
    qed
  qed
qed

lemma inv_append_call:
  assumes inv: "election_inv M N T G L" and i: "i \<in> M" and t: "t \<in># T i" "\<not> is_vote t" and env: "calm env"
    and h: "onAppendEntries env (json_norm (task_params t)) (N (task_peer t)) = (out, n')"
  shows "\<exists>us. rpcPool n' = rpcPool (N (task_peer t)) @ us \<and>
    election_inv M (N(task_peer t := n')) (T(task_peer t := T (task_peer t) + mset us)) G L"
proof -
  let ?j = "task_peer t" and ?s = "task_term t"
  have "task_fine M L i (N i) t" using election_invD(6) [OF inv i] t by blast
  then have fine: "?j \<in> M" "?j \<noteq> i" "is_int32 ?s" "(?s, i) \<in> L" "json_at (task_params t) ''term'' = Ok (JInteger ?s)"
    using t(2) by (cases t; auto)+
  have int: "int_at (json_norm (task_params t)) ''term'' = Ok ?s"
    unfolding int_at_norm using fine(3,5) by (simp add: int_at_def)
  have step: "\<exists>us. rpcPool n' = rpcPool n1 @ us \<and> election_inv M (N(?j := n')) (T(?j := T ?j + mset us)) G L"
    if s: "resent n1 n'" and inv1: "election_inv M (N(?j := n1)) T G L" for n1
  proof -
    obtain n2 where n2: "face n2 = face n1" "rpcPool n2 = rpcPool n1" "sent n2 n'" using s unfolding resent_def by blast
    have "face n2 = face ((N(?j := n1)) ?j)" using n2(1) by simp
    from inv_sent [OF inv1 fine(1) this n2(3)] show ?thesis using n2(2) by (simp only: fun_upd_upd)
  qed
  from onAppendEntries_effect [OF env int h] show ?thesis
  proof (elim disjE conjE exE)
    assume "n' = N ?j"
    then show ?thesis using inv by (intro exI [of _ "[]"]) simp
  next
    fix n1
    assume acc: "accepted ?s (N ?j) n1" and hd: "handled (json_norm (task_params t)) n1 out n'"
    have "role (N ?j) \<noteq> LEADER" if "?s = currentTerm (N ?j)"
    proof
      assume "role (N ?j) = LEADER"
      then have "(?s, ?j) \<in> L" using election_invD(3) [OF inv fine(1)] fine(1) that by (auto simp: leaders_fine_def)
      then show False using one_leader [OF inv fine(4)] fine(2) by blast
    qed
    with acc consider "still (N ?j) n1"
      | "stepped ?s (N ?j) n1" "currentTerm (N ?j) < ?s \<or> (?s = currentTerm (N ?j) \<and> role (N ?j) = CANDIDATE)"
      unfolding accepted_def by (cases "role (N ?j)") (auto simp: order.order_iff_strict)
    then have "election_inv M (N(?j := n1)) T G L \<and> rpcPool n1 = rpcPool (N ?j)"
    proof cases
      case 1
      then have "election_inv M (N(?j := n1)) (T(?j := T ?j)) G L" by (intro inv_quiet [OF inv fine(1)]) (simp_all add: still_def)
      then show ?thesis using 1 by (simp add: still_def)
    next
      case 2
      then show ?thesis using inv_stepped [OF inv fine(1) 2(1) fine(3) 2(2)] stepped_fields [OF 2(1)] by simp
    qed
    then show ?thesis using step [OF resentI(4) [OF hd]] by simp
  qed
qed

section \<open>Every step keeps it\<close>

lemma outs_alt:
  "outs c i = mset (rpcPool (cnodes c i)) + image_mset snd (filter_mset (\<lambda>x. fst x = i) (mset (calls c))) +
     image_mset (\<lambda>x. fst (snd x)) (filter_mset (\<lambda>x. fst x = i) (mset (replies c)))"
  by (simp add: outs_def)

lemma outs_answer:
  assumes "k < length (calls c)" "calls c ! k = (i, t)"
  shows "outs (c\<lparr>calls := drop_nth k (calls c), replies := (i, t, resp) # replies c\<rparr>) = outs c"
  using mset_drop_nth [OF assms(1)] assms(2) by (auto simp: outs_alt fun_eq_iff)

lemma outs_respond:
  assumes "k < length (replies c)" "replies c ! k = (i, t, resp)"
  shows "outs c = (outs (c\<lparr>replies := drop_nth k (replies c)\<rparr>))
    (i := add_mset t (outs (c\<lparr>replies := drop_nth k (replies c)\<rparr>) i))"
  using mset_drop_nth [OF assms(1)] assms(2) by (auto simp: outs_alt fun_eq_iff)

lemma outs_put:
  assumes "rpcPool n' = rpcPool (cnodes c i) @ us"
  shows "outs (put_node i n' c) = (outs c)(i := outs c i + mset us)"
  using assms by (auto simp: outs_alt put_node_def fun_eq_iff)

lemma add_vote_simps [simp]:
  "cnodes (add_vote t j i out c) = cnodes c" "calls (add_vote t j i out c) = calls c"
  "replies (add_vote t j i out c) = replies c" "led (add_vote t j i out c) = led c"
  "outs (add_vote t j i out c) = outs c" "granted (add_vote t j i out c) = votes_after t j i out (granted c)"
  by (auto simp: add_vote_def votes_after_def outs_def fun_eq_iff split: outcome.split)

lemma put_node_simps [simp]:
  "cnodes (put_node i n c) = (cnodes c)(i := n)" "calls (put_node i n c) = calls c"
  "replies (put_node i n c) = replies c" "granted (put_node i n c) = granted c"
  "led (put_node i n c) = (if role n = LEADER then insert (currentTerm n, i) (led c) else led c)"
  by (simp_all add: put_node_def)

lemma in_drop_nth: "x \<in> set (drop_nth k xs) \<Longrightarrow> x \<in> set xs"
  unfolding drop_nth_def by (auto dest: in_set_takeD in_set_dropD)

lemma reply_fine_mono: "reply_fine G i t resp \<Longrightarrow> G \<subseteq> G' \<Longrightarrow> reply_fine G' i t resp"
  unfolding reply_fine_def by blast

lemma votes_after_grows: "G \<subseteq> votes_after t j i out G"
  by (auto simp: votes_after_def split: outcome.split)

lemma reply_fine_after: "reply_of out resp \<Longrightarrow> reply_fine (votes_after t (task_peer t) i out G) i t resp"
  by (auto simp: reply_of_def reply_fine_def votes_after_def)

lemma cluster_local:
  assumes inv: "cluster_inv M c" and "i \<in> M" "calm env" "internal ev" "run_event env ev (cnodes c i) = (out, n')" "alive out"
  shows "cluster_inv M (put_node i n' c)"
proof -
  have "election_inv M (cnodes c) (outs c) (granted c) (led c)" using inv by (simp add: cluster_inv_def)
  moreover from internal_effect [OF assms(3-6)] have "resent (cnodes c i) n' \<or> (currentTerm (cnodes c i) \<noteq> INT_MAX \<and>
      (stood (cnodes c i) n' \<or> (majority (cnodes c i) \<le> 1 \<and> (\<exists>n1. stood (cnodes c i) n1 \<and> won n1 n'))))"
    using resentI(1,2) by blast
  ultimately obtain us where us: "rpcPool n' = rpcPool (cnodes c i) @ us" "election_inv M ((cnodes c)(i := n')) ((outs c)(i := outs c i + mset us))
      (granted c) (if role n' = LEADER then insert (currentTerm n', i) (led c) else led c)"
    using inv_node_move [OF _ assms(2)] by blast
  then show ?thesis using inv outs_put [OF us(1)] by (simp add: cluster_inv_def)
qed

lemma cluster_deliver:
  assumes inv: "cluster_inv M c" and k: "k < length (calls c)" "calls c ! k = (i, t)" and env: "calm env"
    and r: "receive env t (cnodes c (task_peer t)) = (out, n')" "alive out" "reply_of out resp"
  shows "cluster_inv M (add_vote t (task_peer t) i out
    (put_node (task_peer t) n' (c\<lparr>calls := drop_nth k (calls c), replies := (i, t, resp) # replies c\<rparr>)))"
proof -
  let ?j = "task_peer t" and ?c1 = "c\<lparr>calls := drop_nth k (calls c), replies := (i, t, resp) # replies c\<rparr>"
  have e: "election_inv M (cnodes c) (outs c) (granted c) (led c)" and i: "i \<in> M"
    using inv k nth_mem [OF k(1)] by (auto simp: cluster_inv_def)
  have t: "t \<in># outs c i"
    using k nth_mem [OF k(1)] by (force simp: outs_def)
  have j: "?j \<in> M" using election_invD(6) [OF e i] t by (cases t) auto
  have "\<exists>us. rpcPool n' = rpcPool (cnodes c ?j) @ us \<and>
      election_inv M ((cnodes c)(?j := n')) ((outs c)(?j := outs c ?j + mset us)) (votes_after t ?j i out (granted c)) (led c)"
  proof (cases t)
    case (VoteTask p port params tt needed el)
    have "task_fine M (led c) i (cnodes c i) t" using election_invD(6) [OF e i] t by blast
    then have req: "int_at (json_norm params) ''term'' = Ok tt" "string_at (json_norm params) ''candidateId'' = Ok i"
      unfolding int_at_norm string_at_norm by (simp_all add: VoteTask int_at_def string_at_def)
    from onRequestVote_alive [OF req, of env "cnodes c ?j" out n'] r VoteTask
    consider ex where "n' = cnodes c ?j" "out = Throw ex" | a b where "handle_vote env tt i a b (cnodes c p) = (out, n')"
      by (auto simp: receive_def)
    then show ?thesis
    proof cases
      case 1
      then show ?thesis using e by (intro exI [of _ "[]"]) (simp add: votes_after_def)
    next
      case 2
      then show ?thesis
        using inv_vote_call [OF e i _ env] t VoteTask by (intro exI [of _ "[]"]) simp
    qed
  next
    case (HeartbeatTask p port params tt a b)
    then show ?thesis using inv_append_call [OF e i t _ env] r(1) by (auto simp: receive_def votes_after_def split: outcome.split)
  next
    case (ReplicateTask p port params tt a b)
    then show ?thesis using inv_append_call [OF e i t _ env] r(1) by (auto simp: receive_def votes_after_def split: outcome.split)
  next
    case (ReplicateInternalTask p port params tt a b)
    then show ?thesis using inv_append_call [OF e i t _ env] r(1) by (auto simp: receive_def votes_after_def split: outcome.split)
  qed
  then obtain us where us: "rpcPool n' = rpcPool (cnodes c ?j) @ us"
      "election_inv M ((cnodes c)(?j := n')) ((outs c)(?j := outs c ?j + mset us)) (votes_after t ?j i out (granted c)) (led c)"
    by blast
  have o: "outs (put_node ?j n' ?c1) = (outs c)(?j := outs c ?j + mset us)"
    using outs_put [of n' ?c1 ?j us] us(1) outs_answer [OF k] by simp
  have l: "(if role n' = LEADER then insert (currentTerm n', ?j) (led c) else led c) = led c"
    using led_same [OF us(2) j] by (simp only: fun_upd_same)
  show ?thesis
    using inv us(2) o l i reply_fine_after [OF r(3)] reply_fine_mono [OF _ votes_after_grows]
    by (auto simp: cluster_inv_def dest: in_drop_nth)
qed

lemma cluster_respond:
  assumes inv: "cluster_inv M c" and k: "k < length (replies c)" "replies c ! k = (i, t, resp)" and env: "calm env"
    and r: "run_task env t resp (cnodes c i) = (out, n')"
  shows "cluster_inv M (put_node i n' (c\<lparr>replies := drop_nth k (replies c)\<rparr>))"
proof -
  let ?c1 = "c\<lparr>replies := drop_nth k (replies c)\<rparr>" and ?N = "cnodes c" and ?G = "granted c" and ?L = "led c"
  have e: "election_inv M ?N (outs c) ?G ?L" and i: "i \<in> M" and fine: "reply_fine ?G i t resp"
    using inv k nth_mem [OF k(1)] by (auto simp: cluster_inv_def)
  have T: "outs c i = add_mset t (outs ?c1 i)" and T1: "(outs c)(i := outs ?c1 i) = outs ?c1"
    using outs_respond [OF k] by (metis fun_upd_same, metis fun_upd_triv fun_upd_upd)
  have e1: "election_inv M ?N (outs ?c1) ?G ?L"
    using inv_quiet [OF e i refl, of "outs ?c1 i"] T T1 by simp
  have n': "n' = snd (run_task env t resp (?N i))" using r by simp
  have step: "\<exists>us. rpcPool n' = rpcPool (?N i) @ us \<and> election_inv M (?N(i := n')) ((outs ?c1)(i := outs ?c1 i + mset us)) ?G
      (if role n' = LEADER then insert (currentTerm n', i) ?L else ?L)"
  proof -
    have stepped_case: ?thesis if "is_int32 rt" "currentTerm (?N i) < rt" "stepped rt (?N i) n'" for rt
    proof -
      have "election_inv M (?N(i := n')) (outs ?c1) ?G ?L"
        using inv_stepped [OF e1 i that(3,1)] that(2) by blast
      then show ?thesis using stepped_fields [OF that(3)] by (intro exI [of _ "[]"]) simp
    qed
    have sent_case: ?thesis if "resent (?N i) n'"
      using inv_node_move [OF e1 i, of n'] that by blast
    show ?thesis
    proof (cases "is_vote t")
      case True
      then obtain p port params tt needed el where t: "t = VoteTask p port params tt needed el"
        by (cases t) auto
      have counted_case: ?thesis if g: "resp = Ok rr" "reply_grants rr" "role (?N i) = CANDIDATE" "currentTerm (?N i) = tt"
          "counted needed el (?N i) n'" for rr
      proof -
        have "(tt, p, i) \<in> ?G" using fine g(1,2) t by (simp add: reply_fine_def)
        moreover have "outs c i = add_mset (VoteTask p port params (currentTerm (?N i)) needed el) (outs ?c1 i)"
          using T t g(4) by simp
        ultimately obtain us L' where us: "rpcPool n' = rpcPool (?N i) @ us" "role n' = LEADER \<longrightarrow> L' = insert (currentTerm n', i) ?L"
            "role n' \<noteq> LEADER \<longrightarrow> L' = ?L" "election_inv M (?N(i := n')) ((outs c)(i := outs ?c1 i + mset us)) ?G L'"
          using inv_counted [OF e i g(5)] g(3,4) by blast
        have "(outs c)(i := outs ?c1 i + mset us) = (outs ?c1)(i := outs ?c1 i + mset us)"
          by (metis T1 fun_upd_upd)
        then show ?thesis using us by (intro exI [of _ us]) auto
      qed
      show ?thesis
        using vote_response_effect [OF env, of tt needed el resp "?N i"] counted_case stepped_case sent_case n'
        by (auto simp: t)
    next
      case False
      then show ?thesis
        using append_response_effect [OF env False, of resp "?N i"] stepped_case sent_case resentI(1,3) n'
        unfolding append_effect_def by blast
    qed
  qed
  then obtain us where us: "rpcPool n' = rpcPool (?N i) @ us" "election_inv M (?N(i := n')) ((outs ?c1)(i := outs ?c1 i + mset us)) ?G
      (if role n' = LEADER then insert (currentTerm n', i) ?L else ?L)"
    by blast
  have "outs (put_node i n' ?c1) = (outs ?c1)(i := outs ?c1 i + mset us)"
    using outs_put [of n' ?c1 i us] us(1) by simp
  then show ?thesis using inv us(2) by (auto simp: cluster_inv_def dest: in_drop_nth)
qed

lemma cluster_step_inv: "cluster_step M c c' \<Longrightarrow> cluster_inv M c \<Longrightarrow> cluster_inv M c'"
proof (induction rule: cluster_step.induct)
  case (local i env ev c out n')
  then show ?case by (simp add: cluster_local)
next
  case (take_task i c t ts)
  let ?n = "(cnodes c i)\<lparr>rpcPool := ts\<rparr>"
  let ?c' = "c\<lparr>cnodes := (cnodes c)(i := ?n), calls := (i, t) # calls c\<rparr>"
  have "election_inv M ((cnodes c)(i := ?n)) ((outs c)(i := outs c i)) (granted c) (led c)"
    using inv_quiet [of M "cnodes c" "outs c" "granted c" "led c" i ?n "outs c i"] take_task by (simp add: cluster_inv_def)
  moreover have "outs ?c' = outs c"
    using take_task(2) by (auto simp: outs_def fun_eq_iff)
  ultimately show ?case using take_task by (auto simp: cluster_inv_def)
next
  case (deliver k c i t env out n' resp)
  then show ?case by (simp add: cluster_deliver)
next
  case (lose k c i t w)
  then have "i \<in> M" using nth_mem [of k "calls c"] by (auto simp: cluster_inv_def)
  then show ?case
    using lose outs_answer [OF lose(1,2)] by (auto simp: cluster_inv_def reply_fine_def dest: in_drop_nth)
next
  case (respond k c i t resp env out n')
  then show ?case by (simp add: cluster_respond)
qed

lemma cluster_start_inv: "cluster_start M c \<Longrightarrow> cluster_inv M c"
proof -
  assume c: "cluster_start M c"
  have n: "configured M i (cnodes c i)" "currentTerm (cnodes c i) = 0" "role (cnodes c i) = FOLLOWER" "rpcPool (cnodes c i) = []"
    if i: "i \<in> M" for i
  proof -
    obtain env port peers where "cnodes c i = raft_start env (raft_node_new i port peers)" "configured M i (cnodes c i)"
      using c i unfolding cluster_start_def by blast
    then show "configured M i (cnodes c i)" "currentTerm (cnodes c i) = 0" "role (cnodes c i) = FOLLOWER" "rpcPool (cnodes c i) = []"
      by (simp_all add: raft_start_def raft_node_new_def resetElectionTimer_def Let_def)
  qed
  have s: "calls c = []" "replies c = []" "granted c = {}" "led c = {}" "finite M"
    using c by (simp_all add: cluster_start_def)
  have "node_fine M i (cnodes c i)" if "i \<in> M" for i
    using n [OF that] by (simp add: node_fine_def self_vote_def is_int32_def INT_MAX_def INT_MIN_def)
  moreover have "outs c i = {#}" if "i \<in> M" for i
    using n(4) [OF that] s by (simp add: outs_def)
  ultimately show ?thesis
    using n(3) s by (auto simp: cluster_inv_def election_inv_def votes_fine_def leaders_fine_def tasks_fine_def counts_fine_def)
qed

lemma cluster_steps_inv: "(cluster_step M)\<^sup>*\<^sup>* c0 c \<Longrightarrow> cluster_inv M c0 \<Longrightarrow> cluster_inv M c"
  by (induction rule: rtranclp_induct) (auto intro: cluster_step_inv)

lemma cluster_reachable_inv: "cluster_reachable M c \<Longrightarrow> cluster_inv M c"
  using cluster_start_inv cluster_steps_inv unfolding cluster_reachable_def by blast

section \<open>An election\<close>

text \<open>Three nodes; the first times out, asks the second for its vote, and wins.\<close>

definition node2 :: raft_node where
  "node2 = raft_start calm_env (raft_node_new ''n2'' 5002 [''n1:5001'', ''n3:5003''])"

definition node3 :: raft_node where
  "node3 = raft_start calm_env (raft_node_new ''n3'' 5003 [''n1:5001'', ''n2:5002''])"

definition cluster0 :: cluster where
  "cluster0 =
     \<lparr>cnodes = (\<lambda>i. if i = ''n2'' then node2 else if i = ''n3'' then node3 else example_node),
      calls = [], replies = [], granted = {}, led = {}\<rparr>"

definition trio :: "string set" where
  "trio = {''n1'', ''n2'', ''n3''}"

definition vote_call :: task where
  "vote_call = hd (rpcPool standing_node)"

definition voter :: raft_node where
  "voter = snd (receive calm_env vote_call node2)"

definition elected :: raft_node where
  "elected = snd (run_task calm_env vote_call (Ok (json_norm (vote_reply 1 True)))
     (standing_node\<lparr>rpcPool := tl (rpcPool standing_node)\<rparr>))"

definition cluster_elected :: cluster where
  "cluster_elected =
     (let c1 = put_node ''n1'' standing_node (put_node ''n1'' (snd (run_event calm_env (ElectionWake 0) example_node)) cluster0);
          c2 = c1\<lparr>cnodes := (cnodes c1)(''n1'' := standing_node\<lparr>rpcPool := tl (rpcPool standing_node)\<rparr>), calls := [(''n1'', vote_call)]\<rparr>;
          c3 = add_vote vote_call ''n2'' ''n1'' (Ok (vote_reply 1 True)) (put_node ''n2'' voter
                 (c2\<lparr>calls := [], replies := [(''n1'', vote_call, Ok (json_norm (vote_reply 1 True)))]\<rparr>))
      in put_node ''n1'' elected (c3\<lparr>replies := []\<rparr>))"

lemma calm_calm [simp]: "calm calm_env"
  by (simp add: calm_def)

lemma cluster0_start: "cluster_start trio cluster0"
proof -
  have ids: "peer_ids example_node = [''n2'', ''n3'']" "peer_ids node2 = [''n1'', ''n3'']" "peer_ids node3 = [''n1'', ''n2'']"
      "length (peerAddrs example_node) = 2" "length (peerAddrs node2) = 2" "length (peerAddrs node3) = 2"
      "nodeId example_node = ''n1''" "nodeId node2 = ''n2''" "nodeId node3 = ''n3''"
    by code_simp+
  have "configured trio ''n1'' example_node" "configured trio ''n2'' node2" "configured trio ''n3'' node3"
    unfolding configured_def ids trio_def by auto
  then show ?thesis
    unfolding cluster_start_def cluster0_def
    by (auto simp: trio_def) (auto simp: example_node_def node2_def node3_def)
qed

lemma cluster_elected_reachable: "cluster_reachable trio cluster_elected"
proof -
  let ?a1 = "snd (run_event calm_env (ElectionWake 0) example_node)"
  let ?c0 = "put_node ''n1'' ?a1 cluster0" let ?c1 = "put_node ''n1'' standing_node ?c0"
  let ?a3 = "standing_node\<lparr>rpcPool := tl (rpcPool standing_node)\<rparr>"
  let ?c2 = "?c1\<lparr>cnodes := (cnodes ?c1)(''n1'' := ?a3), calls := [(''n1'', vote_call)]\<rparr>"
  let ?resp = "Ok (json_norm (vote_reply 1 True))"
  let ?c3 = "add_vote vote_call ''n2'' ''n1'' (Ok (vote_reply 1 True)) (put_node ''n2'' voter
      (?c2\<lparr>calls := [], replies := [(''n1'', vote_call, ?resp)]\<rparr>))"
  have e1: "run_event calm_env (ElectionWake 0) example_node = (Ok (), ?a1)" by (rule pair_ok) code_simp
  have e2: "run_event calm_env (ElectionTimeout 0) ?a1 = (Ok (), standing_node)"
    unfolding standing_node_def by (rule pair_ok) code_simp
  have pool: "rpcPool standing_node = vote_call # tl (rpcPool standing_node)" "task_peer vote_call = ''n2''" by code_simp+
  have e4: "receive calm_env vote_call node2 = (Ok (vote_reply 1 True), voter)"
    unfolding voter_def by (rule pair_ok) code_simp
  have e5: "run_task calm_env vote_call ?resp ?a3 = (Ok (), elected)"
    unfolding elected_def by (rule pair_ok) code_simp
  have n1: "''n1'' \<in> trio" "cnodes cluster0 ''n1'' = example_node" "cnodes ?c0 ''n1'' = ?a1"
    by (simp_all add: trio_def cluster0_def)
  have short: "len (log ?a1) \<le> INT_MAX" "len (log standing_node) \<le> INT_MAX" by code_simp+
  have l1: "run_event calm_env (ElectionWake 0) (cnodes cluster0 ''n1'') = (Ok (), ?a1)" unfolding n1(2) by (rule e1)
  have l2: "run_event calm_env (ElectionTimeout 0) (cnodes ?c0 ''n1'') = (Ok (), standing_node)" unfolding n1(3) by (rule e2)
  have "cluster_step trio cluster0 ?c0"
    by (rule cluster_step.local [OF n1(1) calm_calm _ l1 _ short(1)]) simp_all
  moreover have "cluster_step trio ?c0 ?c1"
    by (rule cluster_step.local [OF n1(1) calm_calm _ l2 _ short(2)]) simp_all
  moreover have "cluster_step trio ?c1 ?c2"
    using cluster_step.take_task [of "''n1''" trio ?c1 vote_call "tl (rpcPool standing_node)"] pool(1)
    by (simp add: trio_def cluster0_def)
  moreover have "cluster_step trio ?c2 ?c3"
    using cluster_step.deliver [of 0 ?c2 "''n1''" vote_call trio calm_env "Ok (vote_reply 1 True)" voter ?resp] e4 pool(2)
    by (simp add: trio_def cluster0_def reply_of_def drop_nth_def put_node_def)
  moreover have "cluster_step trio ?c3 (put_node ''n1'' elected (?c3\<lparr>replies := []\<rparr>))"
    using cluster_step.respond [of 0 ?c3 "''n1''" vote_call ?resp calm_env "Ok ()" elected] e5
    by (simp add: drop_nth_def)
  ultimately have "(cluster_step trio)\<^sup>*\<^sup>* cluster0 (put_node ''n1'' elected (?c3\<lparr>replies := []\<rparr>))"
    by (meson rtranclp.rtrancl_into_rtrancl rtranclp.rtrancl_refl)
  moreover have "put_node ''n1'' elected (?c3\<lparr>replies := []\<rparr>) = cluster_elected"
    by (simp only: cluster_elected_def Let_def)
  ultimately show ?thesis using cluster0_start unfolding cluster_reachable_def by metis
qed

text \<open>The new leader's first heartbeat is on its way.\<close>

definition heartbeat_call :: task where
  "heartbeat_call = hd (tl (rpcPool elected))"

definition cluster_sending :: cluster where
  "cluster_sending = cluster_elected
     \<lparr>cnodes := (cnodes cluster_elected)(''n1'' := elected\<lparr>rpcPool := tl (tl (rpcPool elected))\<rparr>),
      calls := [(''n1'', heartbeat_call), (''n1'', hd (rpcPool elected))]\<rparr>"

lemma cluster_sending_reachable: "cluster_reachable trio cluster_sending"
proof -
  let ?c1 = "cluster_elected
     \<lparr>cnodes := (cnodes cluster_elected)(''n1'' := elected\<lparr>rpcPool := tl (rpcPool elected)\<rparr>),
      calls := [(''n1'', hd (rpcPool elected))]\<rparr>"
  have pool: "rpcPool elected = hd (rpcPool elected) # heartbeat_call # tl (tl (rpcPool elected))" by code_simp
  have n1: "''n1'' \<in> trio" "cnodes cluster_elected ''n1'' = elected" "calls cluster_elected = []"
    by (simp_all add: trio_def cluster_elected_def Let_def)
  have "cluster_step trio cluster_elected ?c1"
    using cluster_step.take_task [of "''n1''" trio cluster_elected "hd (rpcPool elected)" "tl (rpcPool elected)"] n1 pool
    by (metis list.sel(1) list.sel(3))
  moreover have "cluster_step trio ?c1 cluster_sending"
    using cluster_step.take_task [of "''n1''" trio ?c1 heartbeat_call "tl (tl (rpcPool elected))"] n1(1) pool
    by (simp add: cluster_sending_def) (metis list.sel(3))
  ultimately show ?thesis
    using cluster_elected_reachable unfolding cluster_reachable_def by (meson rtranclp.rtrancl_into_rtrancl)
qed

section \<open>Properties\<close>

text \<open>C2: election safety. In every reachable state of a cluster, two nodes that lead in the same
  term are the same node, although a candidate can vote a second time: that vote cannot help
  anyone to a second majority.\<close>

theorem election_safety:
  assumes "cluster_reachable M c" "i \<in> M" "j \<in> M"
    and "role (cnodes c i) = LEADER" "role (cnodes c j) = LEADER" "currentTerm (cnodes c i) = currentTerm (cnodes c j)"
  shows "i = j"
proof -
  have inv: "election_inv M (cnodes c) (outs c) (granted c) (led c)"
    using cluster_reachable_inv [OF assms(1)] by (simp add: cluster_inv_def)
  have "(currentTerm (cnodes c i), i) \<in> led c" "(currentTerm (cnodes c i), j) \<in> led c"
    using election_invD(3) [OF inv assms(2)] assms(2-6) by (auto simp: leaders_fine_def)
  then show ?thesis using one_leader [OF inv] by blast
qed

theorem election_safety_witness:
  "{j \<in> trio. role (cnodes cluster_elected j) = LEADER \<and> currentTerm (cnodes cluster_elected j) = 1} = {''n1''}"
proof -
  have "role elected = LEADER" "currentTerm elected = 1" by code_simp+
  then have n1: "''n1'' \<in> trio" "role (cnodes cluster_elected ''n1'') = LEADER" "currentTerm (cnodes cluster_elected ''n1'') = 1"
    by (simp_all add: cluster_elected_def Let_def trio_def)
  have "''n1'' = j" if "j \<in> trio" "role (cnodes cluster_elected j) = LEADER" "currentTerm (cnodes cluster_elected j) = 1" for j
    by (rule election_safety [OF cluster_elected_reachable n1(1) that(1) n1(2) that(2)]) (simp add: n1(3) that(3))
  then show ?thesis using n1 by blast
qed

text \<open>C26: the branch that the code guards with "SPLIT BRAIN DETECTED" is never reached: no
  AppendEntries call of a leader's own term is ever on its way to that leader.\<close>

theorem no_split_brain:
  assumes "cluster_reachable M c" "(i, t) \<in> set (calls c)" "\<not> is_vote t"
  shows "\<not> (role (cnodes c (task_peer t)) = LEADER \<and> task_term t = currentTerm (cnodes c (task_peer t)))"
proof
  assume *: "role (cnodes c (task_peer t)) = LEADER \<and> task_term t = currentTerm (cnodes c (task_peer t))"
  have ci: "cluster_inv M c" using cluster_reachable_inv [OF assms(1)] .
  then have inv: "election_inv M (cnodes c) (outs c) (granted c) (led c)" and i: "i \<in> M"
    using assms(2) by (auto simp: cluster_inv_def)
  have "t \<in># outs c i" using assms(2) by (force simp: outs_def)
  then have "task_fine M (led c) i (cnodes c i) t" using election_invD(6) [OF inv i] by blast
  then have fine: "task_peer t \<in> M" "task_peer t \<noteq> i" "(task_term t, i) \<in> led c"
    using assms(3) by (cases t; auto)+
  then have "(task_term t, task_peer t) \<in> led c"
    using election_invD(3) [OF inv fine(1)] * by (auto simp: leaders_fine_def)
  then show False using one_leader [OF inv fine(3)] fine(2) by blast
qed

theorem no_split_brain_witness:
  "\<not> (role (cnodes cluster_sending (task_peer heartbeat_call)) = LEADER \<and>
     task_term heartbeat_call = currentTerm (cnodes cluster_sending (task_peer heartbeat_call)))"
proof (rule no_split_brain [OF cluster_sending_reachable])
  show "(''n1'', heartbeat_call) \<in> set (calls cluster_sending)" by (simp add: cluster_sending_def)
  show "\<not> is_vote heartbeat_call" by code_simp
qed

end
