(* ===== verification/Raft_History.thy ===== *)
theory Raft_History imports Raft_Cluster "HOL-Library.Sublist" begin

text \<open>
  What the logs of a cluster have in common. A history records, for every term, its leader, the
  log of the leader, how long that log was when the leader was elected, and how much of it each
  node has acknowledged while in that term. No operation reads it. Every log of the cluster is backed by
  the logs of the leaders of its entries' terms, which is log matching; and what a node has
  acknowledged stays in its log unless some later leader was elected without it, from which
  leader completeness follows by an induction over the terms.
\<close>

record history =
  glog :: "int \<Rightarrow> log_entry list"
  gbase :: "int \<Rightarrow> nat"
  acked :: "int \<Rightarrow> string \<Rightarrow> nat"
  chief :: "int \<Rightarrow> string option"

section \<open>Backed logs\<close>

definition backed :: "history \<Rightarrow> log_entry list \<Rightarrow> bool" where
  "backed H f \<longleftrightarrow>
     (\<forall>k < length f. k < length (glog H (eterm (f ! k))) \<and> take (Suc k) f = take (Suc k) (glog H (eterm (f ! k))))"

text \<open>The first \<open>m\<close> entries of the log of term \<open>t\<close> end in an entry of this term; and a log has them.\<close>

definition own :: "history \<Rightarrow> int \<Rightarrow> nat \<Rightarrow> bool" where
  "own H t m \<longleftrightarrow> 0 < m \<and> m \<le> length (glog H t) \<and> eterm (glog H t ! (m - 1)) = t"

definition has :: "history \<Rightarrow> log_entry list \<Rightarrow> int \<Rightarrow> nat \<Rightarrow> bool" where
  "has H f t m \<longleftrightarrow> m \<le> length f \<and> take m f = take m (glog H t)"

text \<open>The leader of term \<open>w\<close> had them when it was elected; a leader between \<open>t\<close> and \<open>u\<close> had not.\<close>

definition safe :: "history \<Rightarrow> int \<Rightarrow> int \<Rightarrow> nat \<Rightarrow> bool" where
  "safe H w t m \<longleftrightarrow> has H (take (gbase H w) (glog H w)) t m"

definition lost :: "history \<Rightarrow> int set \<Rightarrow> int \<Rightarrow> int \<Rightarrow> nat \<Rightarrow> bool" where
  "lost H LT t u m \<longleftrightarrow> (\<exists>w \<in> LT. t < w \<and> w < u \<and> \<not> safe H w t m)"

text \<open>A log that has what node \<open>v\<close> has acknowledged in the terms below \<open>u\<close>.\<close>

definition keeps_acks :: "history \<Rightarrow> int set \<Rightarrow> int \<Rightarrow> string \<Rightarrow> log_entry list \<Rightarrow> bool" where
  "keeps_acks H LT u v f \<longleftrightarrow>
     (\<forall>t m. own H t m \<longrightarrow> t < u \<longrightarrow> m \<le> acked H t v \<longrightarrow> has H f t m \<or> lost H LT t u m)"

definition history_fine :: "history \<Rightarrow> int set \<Rightarrow> bool" where
  "history_fine H LT \<longleftrightarrow>
     (\<forall>t. t \<notin> LT \<longrightarrow> glog H t = [] \<and> chief H t = None) \<and>
     (\<forall>t \<in> LT. \<exists>l. chief H t = Some l \<and> acked H t l = length (glog H t)) \<and>
     (\<forall>t \<in> LT. 0 < t \<and> is_int32 t \<and> gbase H t \<le> length (glog H t) \<and> len (glog H t) \<le> INT_MAX) \<and>
     (\<forall>t. backed H (glog H t)) \<and>
     (\<forall>t k. k < length (glog H t) \<longrightarrow> eterm (glog H t ! k) \<le> t \<and> (eterm (glog H t ! k) = t \<longleftrightarrow> gbase H t \<le> k)) \<and>
     (\<forall>t v. acked H t v \<le> length (glog H t))"

lemma history_chief:
  assumes "history_fine H LT"
  shows "chief H t \<noteq> None \<longleftrightarrow> t \<in> LT" "chief H t = Some l \<Longrightarrow> acked H t l = length (glog H t)"
proof -
  have "t \<notin> LT \<longrightarrow> chief H t = None" "t \<in> LT \<longrightarrow> (\<exists>l. chief H t = Some l \<and> acked H t l = length (glog H t))"
    using assms by (simp_all add: history_fine_def)
  then show "chief H t \<noteq> None \<longleftrightarrow> t \<in> LT" "chief H t = Some l \<Longrightarrow> acked H t l = length (glog H t)" by auto
qed

lemma backed_nth:
  assumes "backed H f" "k < length f"
  shows "k < length (glog H (eterm (f ! k)))" "take (Suc k) f = take (Suc k) (glog H (eterm (f ! k)))"
  using assms unfolding backed_def by blast+

lemma backed_take: "backed H f \<Longrightarrow> backed H (take n f)"
  unfolding backed_def by (simp add: min_def)

lemma backed_same: "glog H' = glog H \<Longrightarrow> backed H' f = backed H f"
  by (simp only: backed_def)

lemma backed_matching: "backed H f \<Longrightarrow> backed H g \<Longrightarrow> log_matching f g"
  using backed_nth unfolding log_matching_def by metis

text \<open>A log is a prefix of the log of its last entry's term.\<close>

lemma prefix_take: "prefix xs ys \<Longrightarrow> m \<le> length xs \<Longrightarrow> take m ys = take m xs"
  by (auto simp: prefix_def)

lemma prefix_nth: "prefix xs ys \<Longrightarrow> k < length xs \<Longrightarrow> ys ! k = xs ! k"
  by (auto simp: prefix_def nth_append)

lemma backed_last:
  assumes "backed H f" "f \<noteq> []"
  shows "prefix f (glog H (eterm (last f)))"
proof -
  have k: "length f - 1 < length f" "Suc (length f - 1) = length f" using assms(2) by simp_all
  have l: "last f = f ! (length f - 1)" by (rule last_conv_nth [OF assms(2)])
  have "f = take (length f) (glog H (eterm (last f)))"
    using backed_nth(2) [OF assms(1) k(1)] k(2) l by simp
  then show ?thesis by (metis take_is_prefix)
qed

lemma backed_terms: "history_fine H LT \<Longrightarrow> backed H f \<Longrightarrow> e \<in> set f \<Longrightarrow> eterm e \<in> LT"
  using backed_nth(1) [of H f] unfolding history_fine_def in_set_conv_nth by (metis less_nat_zero_code list.size(3))

lemma backed_length: "history_fine H LT \<Longrightarrow> backed H f \<Longrightarrow> len f \<le> INT_MAX"
proof (cases "f = []")
  case False
  assume *: "history_fine H LT" "backed H f"
  have "eterm (last f) \<in> LT" using backed_terms [OF *] False by simp
  then have "len (glog H (eterm (last f))) \<le> INT_MAX" using *(1) by (simp add: history_fine_def)
  then show ?thesis using prefix_length_le [OF backed_last [OF *(2) False]] by linarith
qed (simp add: INT_MAX_def)

lemma has_take: "m \<le> n \<Longrightarrow> has H f t n \<Longrightarrow> has H f t m"
  unfolding has_def by (metis dual_order.trans take_eq_le)

lemma has_prefix:
  assumes "has H f t m" "prefix f g"
  shows "has H g t m"
proof -
  have "m \<le> length f" "take m f = take m (glog H t)" using assms(1) by (simp_all add: has_def)
  then show ?thesis
    using prefix_take [OF assms(2), of m] prefix_length_le [OF assms(2)] by (simp add: has_def)
qed

section \<open>Elections\<close>

text \<open>
  The comparison of the last entries: a log that is at least as up to date as one that has the
  entries has them as well, unless a later leader had been elected without them.
\<close>

lemma up_to_date_has:
  assumes H: "history_fine H LT" and f: "backed H f" "has H f t m" and o: "own H t m"
    and h: "backed H h" "\<forall>e \<in> set h. eterm e < u"
    and up: "f \<noteq> [] \<Longrightarrow> h = [] \<Longrightarrow> eterm (last f) < 0"
      "f \<noteq> [] \<Longrightarrow> h \<noteq> [] \<Longrightarrow> eterm (last f) < eterm (last h) \<or> (eterm (last f) = eterm (last h) \<and> length f \<le> length h)"
  shows "has H h t m \<or> lost H LT t u m"
proof -
  have m: "m - 1 < m" "m \<le> length f" "take m f = take m (glog H t)" "m - 1 < length (glog H t)"
    using f(2) o by (auto simp: has_def own_def)
  then have ne: "f \<noteq> []" by (cases f) simp_all
  have "eterm (last f) \<in> LT" using backed_terms [OF H f(1)] ne by simp
  then have "0 < eterm (last f)" using H by (simp add: history_fine_def)
  then have hne: "h \<noteq> []" using up(1) [OF ne] by auto
  have "f ! (m - 1) = glog H t ! (m - 1)" using m(1,3) by (metis nth_take)
  moreover note pf = backed_last [OF f(1) ne] and ph = backed_last [OF h(1) hne]
  moreover have "glog H (eterm (last f)) ! (m - 1) = f ! (m - 1)"
    by (rule prefix_nth [OF pf]) (use m(1,2) in linarith)
  ultimately have "eterm (glog H (eterm (last f)) ! (m - 1)) = t" using o by (simp add: own_def)
  moreover have "m - 1 < length (glog H (eterm (last f)))"
    using prefix_length_le [OF pf] m(1,2) by linarith
  ultimately have tf: "t \<le> eterm (last f)" using H unfolding history_fine_def by blast
  have mf: "take m f = take m (glog H (eterm (last f)))"
    using prefix_take [OF pf m(2)] by simp
  let ?w = "eterm (last h)"
  have mh: "take m h = take m (glog H ?w)" if "m \<le> length h"
    using prefix_take [OF ph that] by simp
  from up(2) [OF ne hne] show ?thesis
  proof
    assume "eterm (last f) = ?w \<and> length f \<le> length h"
    then show ?thesis using mf mh m(2,3) by (simp add: has_def)
  next
    assume less: "eterm (last f) < ?w"
    have w: "?w \<in> LT" "?w < u" using backed_terms [OF H h(1)] h(2) hne by simp_all
    show ?thesis
    proof (cases "safe H ?w t m")
      case False
      then show ?thesis using w less tf unfolding lost_def by (meson order.strict_trans1)
    next
      case True
      then have s: "m \<le> gbase H ?w" "take m (glog H ?w) = take m (glog H t)"
        by (auto simp: safe_def has_def min_def split: if_splits)
      have k: "length h - 1 < length h" using hne by simp
      have "glog H ?w ! (length h - 1) = h ! (length h - 1)" by (rule prefix_nth [OF ph k])
      then have "eterm (glog H ?w ! (length h - 1)) = ?w" by (simp add: last_conv_nth [OF hne])
      moreover have "length h - 1 < length (glog H ?w)" using prefix_length_le [OF ph] k by linarith
      ultimately have "gbase H ?w \<le> length h - 1" using H unfolding history_fine_def by blast
      then have "m \<le> length h" using s(1) by linarith
      then show ?thesis using mh s(2) by (simp add: has_def)
    qed
  qed
qed

section \<open>Leader completeness\<close>

text \<open>
  Every leader was elected by a majority, and its log had what that majority had acknowledged.
  So what is acknowledged by nodes without which there is no majority is in the logs of all
  later leaders.
\<close>

definition elected_fine :: "string set \<Rightarrow> (string \<Rightarrow> raft_node) \<Rightarrow> int set \<Rightarrow> history \<Rightarrow> bool" where
  "elected_fine M N LT H \<longleftrightarrow>
     (\<forall>w \<in> LT. \<exists>Q \<subseteq> M. card M div 2 + 1 \<le> card Q \<and>
        (\<forall>v \<in> Q. w \<le> currentTerm (N v) \<and> keeps_acks H LT w v (take (gbase H w) (glog H w))))"

definition decided :: "string set \<Rightarrow> history \<Rightarrow> int \<Rightarrow> nat \<Rightarrow> bool" where
  "decided M H t m \<longleftrightarrow>
     own H t m \<and> (\<exists>Q \<subseteq> M. card M < card Q + (card M div 2 + 1) \<and> (\<forall>v \<in> Q. m \<le> acked H t v))"

lemma blocking_meets:
  assumes "finite M" "Q \<subseteq> M" "R \<subseteq> M" "card M < card Q + r" "r \<le> card R"
  shows "\<exists>v. v \<in> Q \<and> v \<in> R"
proof (rule ccontr)
  assume "\<not> ?thesis"
  then have "card (Q \<union> R) = card Q + card R"
    using assms(1-3) by (intro card_Un_disjoint) (auto intro: finite_subset)
  moreover have "card (Q \<union> R) \<le> card M" using assms(1-3) by (intro card_mono) auto
  ultimately show False using assms(4,5) by linarith
qed

lemma decided_safe:
  assumes e: "elected_fine M N LT H" and fin: "finite M" and dec: "decided M H t m" and w: "w \<in> LT" "t < w"
  shows "safe H w t m"
  using w
proof (induction "nat (w - t)" arbitrary: w rule: less_induct)
  case less
  have "\<exists>R \<subseteq> M. card M div 2 + 1 \<le> card R \<and>
      (\<forall>v \<in> R. w \<le> currentTerm (N v) \<and> keeps_acks H LT w v (take (gbase H w) (glog H w)))"
    using e less.prems(1) by (simp add: elected_fine_def)
  then obtain R where R: "R \<subseteq> M" "card M div 2 + 1 \<le> card R"
      "\<forall>v \<in> R. keeps_acks H LT w v (take (gbase H w) (glog H w))"
    by blast
  obtain Q where o: "own H t m" and Q: "Q \<subseteq> M" "card M < card Q + (card M div 2 + 1)" "\<forall>v \<in> Q. m \<le> acked H t v"
    using dec unfolding decided_def by blast
  obtain v where v: "v \<in> Q" "v \<in> R" using blocking_meets [OF fin Q(1) R(1) Q(2) R(2)] by blast
  have "has H (take (gbase H w) (glog H w)) t m \<or> lost H LT t w m"
    using R(3) v Q(3) o less.prems(2) unfolding keeps_acks_def by blast
  moreover have "safe H x t m" if "x \<in> LT" "t < x" "x < w" for x
    using less.hyps [of x] that less.prems(2) by simp
  then have "\<not> lost H LT t w m" unfolding lost_def by blast
  ultimately show ?case by (simp add: safe_def)
qed

section \<open>Growing histories\<close>

definition grows :: "(string \<Rightarrow> raft_node) \<Rightarrow> int set \<Rightarrow> history \<Rightarrow> history \<Rightarrow> bool" where
  "grows N LT H H' \<longleftrightarrow>
     (\<forall>t. prefix (glog H t) (glog H' t)) \<and> (\<forall>w \<in> LT. gbase H' w = gbase H w \<and> chief H' w = chief H w) \<and>
     (\<forall>t v. acked H t v \<le> acked H' t v \<and> (t < currentTerm (N v) \<longrightarrow> acked H' t v = acked H t v))"

lemma grows_refl [simp]: "grows N LT H H"
  by (simp add: grows_def)

lemma grows_acked: "grows N LT H H' \<Longrightarrow> acked H t v \<le> acked H' t v"
  by (simp add: grows_def)

lemma backed_grows: "backed H f \<Longrightarrow> grows N LT H H' \<Longrightarrow> backed H' f"
  unfolding backed_def grows_def by (metis Suc_leI less_le_trans prefix_length_le prefix_take)

lemma has_grows: "m \<le> length (glog H t) \<Longrightarrow> grows N LT H H' \<Longrightarrow> has H' f t m = has H f t m"
  unfolding has_def grows_def by (metis prefix_take)

lemma own_grows: "m \<le> length (glog H t) \<Longrightarrow> grows N LT H H' \<Longrightarrow> own H' t m = own H t m"
proof (cases "0 < m")
  case True
  assume *: "m \<le> length (glog H t)" "grows N LT H H'"
  have p: "prefix (glog H t) (glog H' t)" using *(2) by (simp add: grows_def)
  have "glog H' t ! (m - 1) = glog H t ! (m - 1)" by (rule prefix_nth [OF p]) (use * True in linarith)
  moreover have "m \<le> length (glog H' t)" using prefix_length_le [OF p] *(1) by linarith
  ultimately show ?thesis using * by (simp add: own_def)
qed (simp add: own_def)

lemma safe_grows:
  assumes "m \<le> length (glog H t)" "grows N LT H H'" "history_fine H LT" "w \<in> LT"
  shows "safe H' w t m = safe H w t m"
proof -
  have "gbase H' w = gbase H w" "prefix (glog H w) (glog H' w)" "gbase H w \<le> length (glog H w)"
    using assms(2-4) by (auto simp: grows_def history_fine_def)
  then have "take (gbase H' w) (glog H' w) = take (gbase H w) (glog H w)" by (simp add: prefix_take)
  then show ?thesis using has_grows [OF assms(1,2)] by (simp add: safe_def)
qed

lemma lost_grows:
  assumes "lost H LT t u m" "m \<le> length (glog H t)" "grows N LT H H'" "history_fine H LT" "LT \<subseteq> LT'"
  shows "lost H' LT' t u m"
  using assms(1,5) safe_grows [OF assms(2-4)] unfolding lost_def by blast

lemma keeps_acks_grows:
  assumes "keeps_acks H LT u v f" "grows N LT H H'" "history_fine H LT" "LT \<subseteq> LT'"
    and "\<And>t. t < u \<Longrightarrow> acked H' t v = acked H t v"
  shows "keeps_acks H' LT' u v f"
  unfolding keeps_acks_def
proof (intro allI impI)
  fix t m
  assume *: "own H' t m" "t < u" "m \<le> acked H' t v"
  then have m: "m \<le> acked H t v" using assms(5) by simp
  then have l: "m \<le> length (glog H t)" using assms(3) unfolding history_fine_def by (meson order_trans)
  then have "has H f t m \<or> lost H LT t u m"
    using assms(1) * m own_grows [OF l assms(2)] unfolding keeps_acks_def by blast
  then show "has H' f t m \<or> lost H' LT' t u m"
    using has_grows [OF l assms(2)] lost_grows [OF _ l assms(2-4)] by blast
qed

section \<open>Storing entries\<close>

text \<open>A batch of a log \<open>g\<close> at a place up to which \<open>f\<close> agrees with \<open>g\<close>: nothing changes, or the log becomes a prefix of \<open>g\<close>.\<close>

lemma merge_cases:
  assumes "take i f = take i g" "i \<le> length f" "i \<le> length g" "es = take (length es) (drop i g)" "log_matching f g"
  shows "merge_entries i es f = f \<or>
    (merge_entries i es f = take (i + length es) g \<and> i + length es \<le> length g \<and>
     (\<exists>j < i + length es. j < length f \<longrightarrow> f ! j \<noteq> g ! j))"
  using assms(1-4)
proof (induction es arbitrary: i)
  case (Cons e es)
  then have "drop i g \<noteq> []" by auto
  then have p: "i < length g" by simp
  then have "drop i g = g ! i # drop (Suc i) g" by (simp add: Cons_nth_drop_Suc)
  then have e: "e = g ! i" "es = take (length es) (drop (Suc i) g)" using Cons.prems(4) by auto
  show ?case
  proof (cases "i < length f \<and> eterm (f ! i) = eterm e")
    case True
    then have "take (Suc i) f = take (Suc i) g"
      using assms(5) p e(1) by (simp add: log_matching_def)
    then show ?thesis
      using Cons.IH [of "Suc i"] True e(2) p by simp
  next
    case False
    then have "merge_entries i (e # es) f = take i g @ e # es"
      using Cons.prems(1) by auto
    also have "\<dots> = take (i + length (e # es)) g"
      using Cons.prems(4) by (simp only: take_add)
    finally have "merge_entries i (e # es) f = take (i + length (e # es)) g" .
    moreover have "i < length f \<longrightarrow> f ! i \<noteq> g ! i" using False e(1) by auto
    moreover have "length (e # es) \<le> length (drop i g)" using Cons.prems(4) by (metis length_take min.cobounded1)
    then have "i + length (e # es) \<le> length g" using p by simp
    ultimately show ?thesis by (intro disjI2 conjI exI [of _ i]) simp_all
  qed
qed simp

text \<open>What the two logs have in common stays.\<close>

lemma merge_common:
  assumes "take i f = take i g" "i \<le> length f" "i \<le> length g" "es = take (length es) (drop i g)" "log_matching f g"
    and "m \<le> length f" "take m f = take m g"
  shows "m \<le> length (merge_entries i es f) \<and> take m (merge_entries i es f) = take m g"
  using merge_cases [OF assms(1-5)]
proof (elim disjE conjE exE)
  fix j
  assume *: "merge_entries i es f = take (i + length es) g" "i + length es \<le> length g"
    "j < i + length es" "j < length f \<longrightarrow> f ! j \<noteq> g ! j"
  have "m \<le> j"
  proof (rule ccontr)
    assume "\<not> m \<le> j"
    then have "j < m" "j < length f" using assms(6) by simp_all
    then show False using *(4) assms(7) by (metis nth_take)
  qed
  then show ?thesis using *(1-3) by (simp add: min_def)
qed (use assms(6,7) in simp)

end
