(* ===== verification/Raft_Matching.thy ===== *)
theory Raft_Matching imports Raft_History begin

text \<open>
  Log matching and leader completeness of the cluster. The invariant relates the nodes, their
  tasks and the votes to a history (\<open>Raft_History\<close>); every kind of change of one node keeps it
  for the same history or for one that grows from it, and so does every step of the cluster.
\<close>

section \<open>The invariant\<close>

text \<open>The log and the match indices of a node; a leader's are those of its term in the history.\<close>

definition book_fine :: "history \<Rightarrow> string \<Rightarrow> raft_node \<Rightarrow> bool" where
  "book_fine H i n \<longleftrightarrow>
     backed H (log n) \<and> (\<forall>e \<in> set (log n). eterm e \<le> currentTerm n) \<and>
     0 \<le> currentTerm n \<and> (role n \<noteq> FOLLOWER \<longrightarrow> 0 < currentTerm n) \<and>
     distinct (map fst (matchIndex n)) \<and> fst ` set (matchIndex n) \<subseteq> set (peer_ids n) \<and>
     (role n = LEADER \<longrightarrow> log n = glog H (currentTerm n) \<and> acked H (currentTerm n) i = length (log n) \<and>
        chief H (currentTerm n) = Some i \<and>
        (\<forall>p m. (p, m) \<in> set (matchIndex n) \<longrightarrow> nat (m + 1) \<le> acked H (currentTerm n) p))"

definition acks_fine :: "history \<Rightarrow> int set \<Rightarrow> string \<Rightarrow> raft_node \<Rightarrow> bool" where
  "acks_fine H LT i n \<longleftrightarrow>
     keeps_acks H LT (currentTerm n + 1) i (log n) \<and> (\<forall>t. 0 < acked H t i \<longrightarrow> t \<le> currentTerm n) \<and>
     (\<forall>k < length (log n). eterm (log n ! k) = currentTerm n \<longrightarrow> k < acked H (currentTerm n) i)"

text \<open>A vote request shows the log of its candidate, an AppendEntries request a piece of its leader's log.\<close>

definition task_log :: "history \<Rightarrow> raft_node \<Rightarrow> task \<Rightarrow> bool" where
  "task_log H n t \<longleftrightarrow>
     (if is_vote t
      then role n = CANDIDATE \<longrightarrow> currentTerm n = task_term t \<longrightarrow>
             json_at (task_params t) ''lastLogIndex'' = Ok (JInteger (lastLogIndex n)) \<and>
             json_at (task_params t) ''lastLogTerm'' = Ok (JInteger (lastLogTerm n))
      else carried (glog H (task_term t)) t)"

definition votes_log :: "(string \<Rightarrow> raft_node) \<Rightarrow> (int \<times> string \<times> string) set \<Rightarrow> int set \<Rightarrow> history \<Rightarrow> bool" where
  "votes_log N G LT H \<longleftrightarrow>
     (\<forall>u v x. (u, v, x) \<in> G \<longrightarrow> u \<le> currentTerm (N x) \<and>
        (role (N x) = CANDIDATE \<longrightarrow> currentTerm (N x) = u \<longrightarrow> u \<notin> LT \<longrightarrow> keeps_acks H LT u v (log (N x))))"

definition log_inv ::
    "string set \<Rightarrow> (string \<Rightarrow> raft_node) \<Rightarrow> (string \<Rightarrow> task multiset) \<Rightarrow> (int \<times> string \<times> string) set \<Rightarrow>
     int set \<Rightarrow> history \<Rightarrow> bool" where
  "log_inv M N T G LT H \<longleftrightarrow>
     history_fine H LT \<and>
     (\<forall>i \<in> M. book_fine H i (N i) \<and> acks_fine H LT i (N i) \<and> (\<forall>t \<in># T i. task_log H (N i) t)) \<and>
     votes_log N G LT H \<and> elected_fine M N LT H"

lemma log_invD:
  assumes "log_inv M N T G LT H"
  shows "history_fine H LT" "i \<in> M \<Longrightarrow> book_fine H i (N i)" "i \<in> M \<Longrightarrow> acks_fine H LT i (N i)"
    "i \<in> M \<Longrightarrow> t \<in># T i \<Longrightarrow> task_log H (N i) t" "votes_log N G LT H" "elected_fine M N LT H"
  using assms by (auto simp: log_inv_def)

section \<open>What a change of one node keeps\<close>

lemma carried_prefix:
  assumes "carried lg t" "prefix lg lg'"
  shows "carried lg' t"
proof -
  obtain i pt es where c: "task_next t = int i" "task_count t = len es"
      "json_at (task_params t) ''prevLogIndex'' = Ok (JInteger (int i - 1))"
      "json_at (task_params t) ''prevLogTerm'' = Ok (JInteger pt)"
      "json_at (task_params t) ''entries'' = Ok (JArray (map entry_json es))"
      "es = [] \<or> (i \<le> length lg \<and> es = take (length es) (drop i lg) \<and> (0 < i \<longrightarrow> pt = eterm (lg ! (i - 1))))"
    using assms(1) unfolding carried_def by blast
  have "es = [] \<or> (i \<le> length lg' \<and> es = take (length es) (drop i lg') \<and> (0 < i \<longrightarrow> pt = eterm (lg' ! (i - 1))))"
  proof (cases "es = []")
    case False
    then have i: "i \<le> length lg" and es: "es = take (length es) (drop i lg)" and pt: "0 < i \<longrightarrow> pt = eterm (lg ! (i - 1))"
      using c(6) by blast+
    have "length es \<le> length (drop i lg)" using es by (metis length_take min.cobounded1)
    moreover have "prefix (drop i lg) (drop i lg')" using assms(2) i by (auto simp: prefix_def)
    ultimately have "take (length es) (drop i lg') = take (length es) (drop i lg)" by (rule prefix_take [rotated])
    moreover have "0 < i \<longrightarrow> lg' ! (i - 1) = lg ! (i - 1)" using prefix_nth [OF assms(2), of "i - 1"] i by auto
    moreover have "i \<le> length lg'" using i prefix_length_le [OF assms(2)] by simp
    ultimately show ?thesis using es pt by simp
  qed simp
  then show ?thesis using c(1-5) unfolding carried_def by blast
qed

lemma task_log_grows:
  assumes "task_log H n t" "grows N LT H H'"
  shows "task_log H' n t"
  using assms carried_prefix [of "glog H (task_term t)" t "glog H' (task_term t)"]
  by (auto simp: task_log_def grows_def)

lemma book_grows:
  assumes "book_fine H j n" "grows N LT H H'"
    and "role n = LEADER \<Longrightarrow> glog H' (currentTerm n) = glog H (currentTerm n) \<and> acked H' (currentTerm n) j = acked H (currentTerm n) j"
    and "history_fine H LT"
  shows "book_fine H' j n"
proof -
  have "nat (m + 1) \<le> acked H' (currentTerm n) p" if "nat (m + 1) \<le> acked H (currentTerm n) p" for m p
    using that assms(2) unfolding grows_def by (meson order_trans)
  moreover have "chief H' (currentTerm n) = chief H (currentTerm n)" if "role n = LEADER"
  proof -
    have "chief H (currentTerm n) \<noteq> None" using assms(1) that by (simp add: book_fine_def)
    then have "currentTerm n \<in> LT" using history_chief(1) [OF assms(4)] by blast
    then show ?thesis using assms(2) by (simp add: grows_def)
  qed
  ultimately show ?thesis using assms(1,3) backed_grows [OF _ assms(2)] by (simp add: book_fine_def)
qed

lemma acks_grows:
  assumes "acks_fine H LT j n" "grows N LT H H'" "history_fine H LT" "LT \<subseteq> LT'" "\<And>t. acked H' t j = acked H t j"
  shows "acks_fine H' LT' j n"
  using assms keeps_acks_grows [OF _ assms(2-4)] by (simp add: acks_fine_def)

lemma elected_grows:
  assumes "elected_fine M N LT H" "grows N LT H H'" "history_fine H LT" "LT \<subseteq> LT'"
    and "\<And>v. currentTerm (N v) \<le> currentTerm (N' v)" "w \<in> LT"
  shows "\<exists>Q \<subseteq> M. card M div 2 + 1 \<le> card Q \<and>
    (\<forall>v \<in> Q. w \<le> currentTerm (N' v) \<and> keeps_acks H' LT' w v (take (gbase H' w) (glog H' w)))"
proof -
  obtain Q where Q: "Q \<subseteq> M" "card M div 2 + 1 \<le> card Q"
      "\<forall>v \<in> Q. w \<le> currentTerm (N v) \<and> keeps_acks H LT w v (take (gbase H w) (glog H w))"
    using assms(1,6) unfolding elected_fine_def by blast
  have "gbase H' w = gbase H w" "prefix (glog H w) (glog H' w)" "gbase H w \<le> length (glog H w)"
    using assms(2,3,6) by (auto simp: grows_def history_fine_def)
  then have eq: "take (gbase H' w) (glog H' w) = take (gbase H w) (glog H w)" by (simp add: prefix_take)
  have "w \<le> currentTerm (N' v) \<and> keeps_acks H' LT' w v (take (gbase H' w) (glog H' w))" if v: "v \<in> Q" for v
  proof
    have w: "w \<le> currentTerm (N v)" using Q(3) v by blast
    then show "w \<le> currentTerm (N' v)" using assms(5) [of v] by linarith
    have "acked H' t v = acked H t v" if "t < w" for t
      using assms(2) that w unfolding grows_def by (meson order.strict_trans2)
    then show "keeps_acks H' LT' w v (take (gbase H' w) (glog H' w))"
      unfolding eq using Q(3) v by (intro keeps_acks_grows [OF _ assms(2-4)]) blast+
  qed
  then show ?thesis using Q(1,2) by blast
qed

lemma log_frame:
  assumes inv: "log_inv M N T G LT H" and v: "votes_fine M N G" and i: "i \<in> M"
    and g: "grows N LT H H'" and LT: "LT \<subseteq> LT'" and H': "history_fine H' LT'"
    and up: "currentTerm (N i) \<le> currentTerm n'"
    and node: "book_fine H' i n'" "acks_fine H' LT' i n'" "\<forall>t \<in># ts'. task_log H' n' t"
    and others: "\<And>j. j \<in> M \<Longrightarrow> j \<noteq> i \<Longrightarrow> role (N j) = LEADER \<Longrightarrow> glog H' (currentTerm (N j)) = glog H (currentTerm (N j))"
    and acks: "\<And>j t. j \<noteq> i \<Longrightarrow> acked H' t j = acked H t j"
    and cand: "role n' = CANDIDATE \<Longrightarrow> currentTerm n' = currentTerm (N i) \<Longrightarrow> role (N i) = CANDIDATE \<and> log n' = log (N i)"
    and new: "\<And>w. w \<in> LT' \<Longrightarrow> w \<notin> LT \<Longrightarrow> \<exists>Q \<subseteq> M. card M div 2 + 1 \<le> card Q \<and>
        (\<forall>v \<in> Q. w \<le> currentTerm ((N(i := n')) v) \<and> keeps_acks H' LT' w v (take (gbase H' w) (glog H' w)))"
  shows "log_inv M (N(i := n')) (T(i := ts')) G LT' H'"
proof -
  note d = log_invD [OF inv]
  have others': "book_fine H' j (N j) \<and> acks_fine H' LT' j (N j) \<and> (\<forall>t \<in># T j. task_log H' (N j) t)" if "j \<in> M" "j \<noteq> i" for j
    using that book_grows [OF d(2) g _ d(1)] acks_grows [OF d(3) g d(1) LT] task_log_grows [OF d(4) g] others acks by metis
  have up': "currentTerm (N v) \<le> currentTerm ((N(i := n')) v)" for v using up by simp
  have "elected_fine M (N(i := n')) LT' H'"
    unfolding elected_fine_def using elected_grows [OF d(6) g d(1) LT up'] new by blast
  moreover have "votes_log (N(i := n')) G LT' H'"
    unfolding votes_log_def
  proof (intro allI impI)
    fix u v x
    assume G: "(u, v, x) \<in> G"
    let ?m = "(N(i := n')) x"
    have o: "u \<le> currentTerm (N x)" "role (N x) = CANDIDATE \<Longrightarrow> currentTerm (N x) = u \<Longrightarrow> u \<notin> LT \<Longrightarrow> keeps_acks H LT u v (log (N x))"
      using d(5) G unfolding votes_log_def by blast+
    have u: "u \<le> currentTerm (N v)" using assms(2) G unfolding votes_fine_def by blast
    have "keeps_acks H' LT' u v (log ?m)" if c: "role ?m = CANDIDATE" "currentTerm ?m = u" "u \<notin> LT'"
    proof -
      have "role (N x) = CANDIDATE \<and> currentTerm (N x) = u \<and> log ?m = log (N x)"
      proof (cases "x = i")
        case True
        then have "currentTerm n' = currentTerm (N i)" using c(2) up o(1) by simp
        then show ?thesis using cand c(1,2) True by simp
      qed (use c in simp)
      moreover have "acked H' t v = acked H t v" if "t < u" for t
        using g that u unfolding grows_def by (meson order.strict_trans2)
      moreover have "u \<notin> LT" using c(3) LT by blast
      ultimately show ?thesis using keeps_acks_grows [OF o(2) g d(1) LT] by metis
    qed
    moreover have "u \<le> currentTerm ?m" using o(1) up' [of x] by linarith
    ultimately show "u \<le> currentTerm ?m \<and>
        (role ?m = CANDIDATE \<longrightarrow> currentTerm ?m = u \<longrightarrow> u \<notin> LT' \<longrightarrow> keeps_acks H' LT' u v (log ?m))"
      by blast
  qed
  ultimately show ?thesis using H' others' node by (auto simp: log_inv_def)
qed

text \<open>The same history, for a change in other fields, or of the ballot.\<close>

lemma log_frame_same:
  assumes "log_inv M N T G LT H" "votes_fine M N G" "i \<in> M" "currentTerm (N i) \<le> currentTerm n'"
    and "book_fine H i n'" "keeps_acks H LT (currentTerm n' + 1) i (log n')" "\<forall>t \<in># ts'. task_log H n' t"
    and "\<forall>k < length (log n'). eterm (log n' ! k) = currentTerm n' \<longrightarrow> k < acked H (currentTerm n') i"
    and "role n' = CANDIDATE \<Longrightarrow> currentTerm n' = currentTerm (N i) \<Longrightarrow> role (N i) = CANDIDATE \<and> log n' = log (N i)"
  shows "log_inv M (N(i := n')) (T(i := ts')) G LT H"
proof (rule log_frame [OF assms(1-3) grows_refl order_refl _ assms(4,5) _ assms(7)])
  show "history_fine H LT" by (rule log_invD(1) [OF assms(1)])
  have "\<forall>t. 0 < acked H t i \<longrightarrow> t \<le> currentTerm (N i)" using log_invD(3) [OF assms(1,3)] by (simp add: acks_fine_def)
  then show "acks_fine H LT i n'" using assms(4,6,8) by (simp add: acks_fine_def) (meson order_trans)
qed (use assms(9) in auto)

definition view :: "raft_node \<Rightarrow> int \<times> role \<times> log_entry list \<times> (string \<times> int) list \<times> string list" where
  "view n = (currentTerm n, role n, log n, matchIndex n, peer_ids n)"

lemma view_fields:
  "view n' = view n \<longleftrightarrow>
     currentTerm n' = currentTerm n \<and> role n' = role n \<and> log n' = log n \<and> matchIndex n' = matchIndex n \<and>
     peer_ids n' = peer_ids n"
  by (simp add: view_def)

lemma task_log_view: "view n' = view n \<Longrightarrow> task_log H n' t = task_log H n t"
  by (simp add: view_fields task_log_def lastLogIndex_def lastLogTerm_def)

lemma book_view: "view n' = view n \<Longrightarrow> book_fine H i n' = book_fine H i n"
  by (simp add: view_fields book_fine_def)

lemma face_view: "face n' = face n \<Longrightarrow> book n' = book n \<Longrightarrow> view n' = view n"
  by (simp add: face_eq book_eq view_fields peer_ids_def)

lemma log_view:
  assumes "log_inv M N T G LT H" "votes_fine M N G" "i \<in> M" "view n' = view (N i)" "\<forall>t \<in># ts'. t \<in># T i \<or> task_log H n' t"
  shows "log_inv M (N(i := n')) (T(i := ts')) G LT H"
proof -
  note d = log_invD [OF assms(1)] and f = view_fields [THEN iffD1, OF assms(4)]
  have "\<forall>t \<in># ts'. task_log H n' t"
    using d(4) [OF assms(3)] assms(5) task_log_view [OF assms(4)] by blast
  then show ?thesis
    using log_frame_same [OF assms(1-3), of n' ts'] d(2,3) [OF assms(3)] f book_view [OF assms(4)]
    by (simp add: acks_fine_def)
qed

section \<open>The kinds of change\<close>

text \<open>A leader sends.\<close>

lemma log_sent:
  assumes "log_inv M N T G LT H" "votes_fine M N G" "i \<in> M" "sent (N i) n'"
  shows "\<exists>us. rpcPool n' = rpcPool (N i) @ us \<and> log_inv M (N(i := n')) (T(i := T i + mset us)) G LT H"
proof -
  obtain us where us: "rpcPool n' = rpcPool (N i) @ us" "\<forall>t \<in> set us. append_task (N i) t"
      and f: "face n' = face (N i)" "book n' = book (N i)"
    using assms(4) unfolding sent_def by blast
  have "task_log H n' t" if "t \<in> set us" for t
  proof -
    have "append_task (N i) t" using us(2) that by blast
    then show ?thesis using log_invD(2) [OF assms(1,3)] by (simp add: append_task_def task_log_def book_fine_def)
  qed
  then have "log_inv M (N(i := n')) (T(i := T i + mset us)) G LT H"
    by (intro log_view [OF assms(1-3) face_view [OF f]]) auto
  then show ?thesis using us(1) by blast
qed

text \<open>A node that moves to a later term has nothing to keep but what it had.\<close>

lemma lost_later: "lost H LT t u m \<Longrightarrow> u \<le> u' \<Longrightarrow> lost H LT t u' m"
  unfolding lost_def by (meson order.strict_trans2)

lemma keeps_acks_later:
  assumes "keeps_acks H LT u v f" "u \<le> u'" "\<And>t. 0 < acked H t v \<Longrightarrow> t < u"
  shows "keeps_acks H LT u' v f"
  unfolding keeps_acks_def
proof (intro allI impI)
  fix t m
  assume *: "own H t m" "t < u'" "m \<le> acked H t v"
  then have "t < u" using assms(3) [of t] by (auto simp: own_def)
  then have "has H f t m \<or> lost H LT t u m" using assms(1) * unfolding keeps_acks_def by blast
  then show "has H f t m \<or> lost H LT t u' m" using lost_later assms(2) by blast
qed

lemma acks_later:
  assumes "acks_fine H LT i n" "currentTerm n \<le> u"
  shows "keeps_acks H LT (u + 1) i (log n)"
proof (rule keeps_acks_later)
  show "keeps_acks H LT (currentTerm n + 1) i (log n)" using assms(1) by (simp add: acks_fine_def)
  have "\<forall>t. 0 < acked H t i \<longrightarrow> t \<le> currentTerm n" using assms(1) by (simp add: acks_fine_def)
  then show "t < currentTerm n + 1" if "0 < acked H t i" for t using that by fastforce
qed (use assms(2) in simp)

lemma acks_own:
  assumes "acks_fine H LT i n" "book_fine H i n" "currentTerm n \<le> u"
  shows "\<forall>k < length (log n). eterm (log n ! k) = u \<longrightarrow> k < acked H u i"
proof (intro allI impI)
  fix k
  assume k: "k < length (log n)" "eterm (log n ! k) = u"
  then have "log n ! k \<in> set (log n)" by simp
  then have "u \<le> currentTerm n" using assms(2) k(2) by (auto simp: book_fine_def)
  then show "k < acked H u i" using assms(1,3) k by (simp add: acks_fine_def)
qed

lemma log_stepped:
  assumes inv: "log_inv M N T G LT H" and v: "votes_fine M N G" and i: "i \<in> M" and s: "stepped t (N i) n'"
    and t: "currentTerm (N i) \<le> t"
  shows "log_inv M (N(i := n')) T G LT H"
proof -
  note f = stepped_fields [OF s] and b = log_invD(2) [OF inv i] and a = log_invD(3) [OF inv i]
  have "\<forall>e \<in> set (log n'). eterm e \<le> t" using b t f unfolding book_fine_def by (metis order_trans)
  then have "book_fine H i n'"
    using b f t by (simp add: book_fine_def peer_ids_def)
  moreover have "\<forall>tk \<in># T i. task_log H n' tk"
  proof
    fix tk
    assume "tk \<in># T i"
    then have "task_log H (N i) tk" by (rule log_invD(4) [OF inv i])
    then show "task_log H n' tk" using f by (simp add: task_log_def)
  qed
  ultimately have "log_inv M (N(i := n')) (T(i := T i)) G LT H"
    using f t acks_later [OF a t] acks_own [OF a b t] by (intro log_frame_same [OF inv v i]) simp_all
  then show ?thesis by simp
qed

text \<open>A node stands for election.\<close>

lemma log_stood:
  assumes inv: "log_inv M N T G LT H" and v: "votes_fine M N G" and i: "i \<in> M" and s: "stood (N i) n'"
    and old: "\<And>t. t \<in># T i \<Longrightarrow> is_vote t \<Longrightarrow> task_term t \<le> currentTerm (N i)"
  shows "\<exists>ts. rpcPool n' = rpcPool (N i) @ ts \<and> log_inv M (N(i := n')) (T(i := T i + mset ts)) G LT H"
proof -
  have f: "currentTerm n' = currentTerm (N i) + 1" "role n' = CANDIDATE" "peer_ids n' = peer_ids (N i)"
      "log n' = log (N i)" "matchIndex n' = matchIndex (N i)"
    using s by (simp_all add: stood_def face_def ballot_of_def book_eq peer_ids_def)
  obtain ts where ts: "rpcPool n' = rpcPool (N i) @ ts" "\<forall>t \<in> set ts. vote_task n' (length (elections (N i))) t"
    using s unfolding stood_def by blast
  note b = log_invD(2) [OF inv i] and a = log_invD(3) [OF inv i]
  have "\<forall>e \<in> set (log n'). eterm e \<le> currentTerm n'" using b f unfolding book_fine_def by (metis add_increasing2 zero_le_one)
  then have "book_fine H i n'"
    using b f by (simp add: book_fine_def)
  moreover have "task_log H n' t" if "t \<in># T i + mset ts" for t
  proof (cases "t \<in># T i")
    case True
    then show ?thesis using log_invD(4) [OF inv i True] old [OF True] f by (auto simp: task_log_def)
  next
    case False
    then have "vote_task n' (length (elections (N i))) t" using that ts(2) by simp
    then show ?thesis by (auto simp: vote_task_def task_log_def vote_params_at)
  qed
  ultimately have "log_inv M (N(i := n')) (T(i := T i + mset ts)) G LT H"
    using f acks_later [OF a, of "currentTerm n'"] acks_own [OF a b, of "currentTerm n'"]
    by (intro log_frame_same [OF inv v i]) simp_all
  then show ?thesis using ts(1) by blast
qed

text \<open>A vote is given.\<close>

lemma log_grant:
  assumes "log_inv M N T G LT H" "u \<le> currentTerm (N x)"
    and "role (N x) = CANDIDATE \<Longrightarrow> currentTerm (N x) = u \<Longrightarrow> u \<notin> LT \<Longrightarrow> keeps_acks H LT u v (log (N x))"
  shows "log_inv M N T (insert (u, v, x) G) LT H"
  using assms unfolding log_inv_def votes_log_def by auto

text \<open>The log of the leader of term \<open>t\<close> changes, when it is elected or takes a command.\<close>

definition lead :: "int \<Rightarrow> string \<Rightarrow> log_entry list \<Rightarrow> nat \<Rightarrow> history \<Rightarrow> history" where
  "lead t i lg b H =
     \<lparr>glog = (glog H)(t := lg), gbase = (gbase H)(t := b), acked = (acked H)(t := (acked H t)(i := length lg)),
      chief = (chief H)(t := Some i)\<rparr>"

lemma lead_simps [simp]:
  "glog (lead t i lg b H) t' = (if t' = t then lg else glog H t')"
  "gbase (lead t i lg b H) t' = (if t' = t then b else gbase H t')"
  "acked (lead t i lg b H) t' v = (if t' = t \<and> v = i then length lg else acked H t' v)"
  "chief (lead t i lg b H) t' = (if t' = t then Some i else chief H t')"
  by (simp_all add: lead_def)

lemma lead_grows:
  assumes "history_fine H LT" "prefix (glog H t) lg" "t \<in> LT \<Longrightarrow> b = gbase H t \<and> chief H t = Some i" "currentTerm (N i) \<le> t"
  shows "grows N LT H (lead t i lg b H)"
proof -
  have "acked H t i \<le> length lg"
    using assms(1,2) prefix_length_le [OF assms(2)] unfolding history_fine_def by (meson order_trans)
  then show ?thesis using assms(2-4) by (auto simp: grows_def)
qed

lemma lead_fine:
  assumes H: "history_fine H LT" and g: "grows N LT H (lead t i lg b H)" and p: "prefix (glog H t) lg"
    and t: "0 < t" "is_int32 t" and b: "b \<le> length lg" "len lg \<le> INT_MAX" and lg: "backed (lead t i lg b H) lg"
    and terms: "\<And>k. k < length lg \<Longrightarrow> eterm (lg ! k) \<le> t \<and> (eterm (lg ! k) = t \<longleftrightarrow> b \<le> k)"
  shows "history_fine (lead t i lg b H) (insert t LT)"
proof -
  let ?H = "lead t i lg b H"
  have "\<forall>u. u \<notin> insert t LT \<longrightarrow> glog ?H u = [] \<and> chief ?H u = None"
    using H by (simp add: history_fine_def)
  moreover have "\<forall>u \<in> insert t LT. \<exists>l. chief ?H u = Some l \<and> acked ?H u l = length (glog ?H u)"
    using H by (simp add: history_fine_def)
  moreover have "\<forall>u \<in> insert t LT. 0 < u \<and> is_int32 u \<and> gbase ?H u \<le> length (glog ?H u) \<and> len (glog ?H u) \<le> INT_MAX"
    using H t b by (simp add: history_fine_def)
  moreover have "\<forall>u k. k < length (glog ?H u) \<longrightarrow> eterm (glog ?H u ! k) \<le> u \<and> (eterm (glog ?H u ! k) = u \<longleftrightarrow> gbase ?H u \<le> k)"
    using H terms by (simp add: history_fine_def)
  moreover have "\<forall>u. backed ?H (glog ?H u)"
    using lg H backed_grows [OF _ g] by (simp add: history_fine_def)
  moreover have "\<forall>u v. acked ?H u v \<le> length (glog ?H u)"
  proof -
    have "acked H t v \<le> length lg" for v using H prefix_length_le [OF p] unfolding history_fine_def by (meson order_trans)
    then show ?thesis using H by (simp add: history_fine_def)
  qed
  ultimately show ?thesis unfolding history_fine_def by (intro conjI)
qed

lemma lead_acks:
  assumes a: "acks_fine H LT i n" and H: "history_fine H LT" and g: "grows N LT H H'" and LT: "LT \<subseteq> LT'"
    and H': "history_fine H' LT'" and p: "prefix (log n) lg" "glog H' (currentTerm n) = lg"
    and acks: "\<And>t. t < currentTerm n \<Longrightarrow> acked H' t i = acked H t i"
  shows "keeps_acks H' LT' (currentTerm n + 1) i lg"
  unfolding keeps_acks_def
proof (intro allI impI)
  fix t m
  assume *: "own H' t m" "t < currentTerm n + 1" "m \<le> acked H' t i"
  show "has H' lg t m \<or> lost H' LT' t (currentTerm n + 1) m"
  proof (cases "t = currentTerm n")
    case True
    then have "m \<le> length lg" using * H' p(2) unfolding history_fine_def by (metis order_trans)
    then show ?thesis using True p(2) by (simp add: has_def)
  next
    case False
    then have m: "m \<le> acked H t i" using * acks [of t] by simp
    then have l: "m \<le> length (glog H t)" using H unfolding history_fine_def by (meson order_trans)
    then have "has H (log n) t m \<or> lost H LT t (currentTerm n + 1) m"
      using a * m own_grows [OF l g] unfolding acks_fine_def keeps_acks_def by blast
    moreover have "has H' lg t m" if "has H (log n) t m"
      using has_prefix [OF that p(1)] has_grows [OF l g] by simp
    ultimately show ?thesis using lost_grows [OF _ l g H LT] by blast
  qed
qed

text \<open>A leader takes a command.\<close>

lemma log_submitted:
  assumes inv: "log_inv M N T G LT H" and v: "votes_fine M N G" and i: "i \<in> M" and lead: "role (N i) = LEADER"
    and t: "currentTerm (N i) \<in> LT" and n': "view n' = view ((N i)\<lparr>log := log (N i) @ [\<lparr>eterm = currentTerm (N i), command = c\<rparr>]\<rparr>)"
    and len: "len (log n') \<le> INT_MAX"
    and one: "\<And>j. j \<in> M \<Longrightarrow> j \<noteq> i \<Longrightarrow> role (N j) = LEADER \<Longrightarrow> currentTerm (N j) \<noteq> currentTerm (N i)"
  shows "\<exists>H'. grows N LT H H' \<and> log_inv M (N(i := n')) T G LT H'"
proof -
  let ?t = "currentTerm (N i)"
  note d = log_invD [OF inv] and b = log_invD(2) [OF inv i]
  have f: "currentTerm n' = ?t" "role n' = LEADER" "log n' = log (N i) @ [\<lparr>eterm = ?t, command = c\<rparr>]"
      "matchIndex n' = matchIndex (N i)" "peer_ids n' = peer_ids (N i)"
    using n' lead by (simp_all add: view_fields peer_ids_def)
  have lg: "log (N i) = glog H ?t" "acked H ?t i = length (log (N i))" "backed H (log (N i))" "0 < ?t"
    using b lead by (auto simp: book_fine_def)
  have p: "prefix (glog H ?t) (log n')" using f(3) lg(1) by simp
  let ?H = "lead ?t i (log n') (gbase H ?t) H"
  have ch: "chief H ?t = Some i" using b lead by (simp add: book_fine_def)
  have g: "grows N LT H ?H" by (rule lead_grows [OF d(1) p]) (simp_all add: ch)
  have bk: "backed ?H (log n')"
    unfolding backed_def
  proof (intro allI impI)
    fix k
    assume k: "k < length (log n')"
    show "k < length (glog ?H (eterm (log n' ! k))) \<and> take (Suc k) (log n') = take (Suc k) (glog ?H (eterm (log n' ! k)))"
    proof (cases "k < length (log (N i))")
      case True
      then have "log n' ! k = log (N i) ! k" "take (Suc k) (log n') = take (Suc k) (log (N i))" using f(3) by (simp_all add: nth_append)
      then show ?thesis using backed_nth [OF backed_grows [OF lg(3) g] True] by simp
    next
      case False
      then have "log n' ! k = \<lparr>eterm = ?t, command = c\<rparr>" using k f(3) by (simp add: nth_append)
      then show ?thesis using k by simp
    qed
  qed
  have terms: "eterm (log n' ! k) \<le> ?t \<and> (eterm (log n' ! k) = ?t \<longleftrightarrow> gbase H ?t \<le> k)" if k: "k < length (log n')" for k
  proof (cases "k < length (log (N i))")
    case True
    then show ?thesis using d(1) f(3) lg(1) by (simp add: history_fine_def nth_append)
  next
    case False
    then have "log n' ! k = \<lparr>eterm = ?t, command = c\<rparr>" using k f(3) by (simp add: nth_append)
    moreover have "gbase H ?t \<le> length (glog H ?t)" using d(1) t by (simp add: history_fine_def)
    ultimately show ?thesis using False lg(1) by simp
  qed
  have base: "gbase H ?t \<le> length (log n')" "is_int32 ?t"
    using d(1) t prefix_length_le [OF p] unfolding history_fine_def by (meson order_trans, blast)
  have H': "history_fine ?H LT"
    using lead_fine [OF d(1) g p lg(4) base(2,1) len bk terms] t by (simp add: insert_absorb)
  have "book_fine ?H i n'"
  proof -
    have "nat (m + 1) \<le> acked ?H ?t q" if "(q, m) \<in> set (matchIndex (N i))" for q m
    proof -
      have "nat (m + 1) \<le> acked H ?t q" using b lead that by (simp add: book_fine_def)
      also have "\<dots> \<le> acked ?H ?t q" by (rule grows_acked [OF g])
      finally show ?thesis .
    qed
    moreover have "\<forall>e \<in> set (log n'). eterm e \<le> ?t" using b f(3) by (simp add: book_fine_def)
    ultimately show ?thesis using b bk f lg(4) by (simp add: book_fine_def)
  qed
  moreover have "acks_fine ?H LT i n'"
  proof -
    have "keeps_acks ?H LT (?t + 1) i (log n')"
      by (rule lead_acks [OF d(3) [OF i] d(1) g order_refl H']) (use f lg(1) p in simp_all)
    then show ?thesis using d(3) [OF i] f by (simp add: acks_fine_def)
  qed
  moreover have "\<forall>tk \<in># T i. task_log ?H n' tk"
  proof
    fix tk
    assume "tk \<in># T i"
    then have "task_log ?H (N i) tk" using task_log_grows [OF d(4) [OF i] g] by blast
    then show "task_log ?H n' tk" using f(1,2) by (auto simp: task_log_def)
  qed
  ultimately have "log_inv M (N(i := n')) (T(i := T i)) G LT ?H"
    using one f by (intro log_frame [OF inv v i g order_refl H']) simp_all
  then show ?thesis using g by (intro exI [of _ ?H]) simp
qed

text \<open>A peer's match index is set to what it has acknowledged.\<close>

lemma in_update: "(q, v) \<in> set (AList.update p m al) \<Longrightarrow> (q = p \<and> v = m) \<or> (q, v) \<in> set al"
  by (induction al) (auto split: if_splits)

lemma log_matched:
  assumes inv: "log_inv M N T G LT H" and v: "votes_fine M N G" and i: "i \<in> M"
    and p: "p \<in> set (peer_ids (N i))" "nat (m + 1) \<le> acked H (currentTerm (N i)) p"
  shows "log_inv M (N(i := (N i)\<lparr>matchIndex := AList.update p m (matchIndex (N i))\<rparr>)) T G LT H"
proof -
  let ?n = "(N i)\<lparr>matchIndex := AList.update p m (matchIndex (N i))\<rparr>"
  note b = log_invD(2) [OF inv i] and a = log_invD(3) [OF inv i]
  have pi: "peer_ids ?n = peer_ids (N i)" by (simp add: peer_ids_def)
  have "distinct (map fst (matchIndex ?n))" using b by (simp add: book_fine_def distinct_update)
  moreover have "fst ` set (matchIndex ?n) \<subseteq> set (peer_ids (N i))"
    using b p(1) by (simp add: book_fine_def update_keys)
  moreover have "nat (k + 1) \<le> acked H (currentTerm (N i)) q" if "role (N i) = LEADER" "(q, k) \<in> set (matchIndex ?n)" for q k
    using in_update [of q k p m "matchIndex (N i)"] that p(2) b by (auto simp: book_fine_def)
  ultimately have "book_fine H i ?n" using b pi by (simp add: book_fine_def)
  moreover have "task_log H ?n t" if "t \<in># T i" for t
    using log_invD(4) [OF inv i that] by (simp add: task_log_def lastLogIndex_def lastLogTerm_def)
  ultimately have "log_inv M (N(i := ?n)) (T(i := T i)) G LT H"
    using a by (intro log_frame_same [OF inv v i]) (simp_all add: acks_fine_def)
  then show ?thesis by simp
qed

text \<open>A follower stores a batch of its leader's log.\<close>

lemma log_stored:
  assumes inv: "log_inv M N T G LT H" and v: "votes_fine M N G" and i: "i \<in> M" and fol: "role (N i) = FOLLOWER"
    and t: "currentTerm (N i) = t" "t \<in> LT"
    and es: "es \<noteq> []" "k \<le> length (glog H t)" "es = take (length es) (drop k (glog H t))"
    and conf: "0 < k \<Longrightarrow> k \<le> length (log (N i)) \<and> eterm (log (N i) ! (k - 1)) = eterm (glog H t ! (k - 1))"
  shows "\<exists>H'. grows N LT H H' \<and> k + length es \<le> acked H' t i \<and>
    log_inv M (N(i := (N i)\<lparr>log := merge_entries k es (log (N i))\<rparr>)) T G LT H'"
proof -
  let ?f = "log (N i)" and ?g = "glog H t" and ?lg = "merge_entries k es (log (N i))"
  let ?n = "(N i)\<lparr>log := ?lg\<rparr>" and ?m = "k + length es"
  note d = log_invD [OF inv] and b = log_invD(2) [OF inv i] and a = log_invD(3) [OF inv i]
  let ?H = "H\<lparr>acked := (acked H)(t := (acked H t)(i := max (acked H t i) ?m))\<rparr>"
  have acked: "acked ?H u w = (if u = t \<and> w = i then max (acked H t i) ?m else acked H u w)" for u w by simp
  have bf: "backed H ?f" and bg: "backed H ?g" using b d(1) by (simp_all add: book_fine_def history_fine_def)
  have match: "log_matching ?f ?g" by (rule backed_matching [OF bf bg])
  have kf: "k \<le> length ?f" using conf by (cases "k = 0") simp_all
  have common: "take k ?f = take k ?g"
  proof (cases "k = 0")
    case False
    then have "k - 1 < length ?f" "k - 1 < length ?g" "Suc (k - 1) = k" using kf es(2) by linarith+
    moreover have "eterm (?f ! (k - 1)) = eterm (?g ! (k - 1))" using conf False by simp
    ultimately show ?thesis using match unfolding log_matching_def by metis
  qed simp
  note mc = merge_common [OF common kf es(2,3) match]
  have "length es \<le> length (drop k ?g)" using es(3) by (metis length_take min.cobounded1)
  then have ml: "?m \<le> length ?g" using es(2) by simp
  have new: "has H ?lg t ?m"
    unfolding has_def using merge_length [OF kf] merge_agrees [OF common kf es(3) match] by blast
  have g: "grows N LT H ?H" using t(1) by (simp add: grows_def)
  have "\<forall>u \<in> LT. \<exists>l. chief ?H u = Some l \<and> acked ?H u l = length (glog ?H u)"
  proof
    fix u
    assume "u \<in> LT"
    then obtain l where "chief H u = Some l" "acked H u l = length (glog H u)"
      using history_chief [OF d(1)] by blast
    then show "\<exists>l. chief ?H u = Some l \<and> acked ?H u l = length (glog ?H u)"
      using ml by (intro exI [of _ l]) auto
  qed
  then have H': "history_fine ?H LT" using d(1) ml backed_same [of ?H H] by (simp add: history_fine_def)
  have lg: "?lg = ?f \<or> ?lg = take ?m ?g" using merge_cases [OF common kf es(2,3) match] by blast
  have own: "k' < acked ?H t i" if "k' < length ?lg" "eterm (?lg ! k') = t" for k'
    using lg
  proof
    assume "?lg = ?f"
    then have "k' < acked H t i" using a that t(1) by (simp add: acks_fine_def)
    then show ?thesis by simp
  next
    assume "?lg = take ?m ?g"
    then have "length ?lg \<le> ?m" by simp
    then have "k' < ?m" using that(1) by linarith
    then show ?thesis by simp
  qed
  have "book_fine ?H i ?n"
  proof -
    have "backed H ?lg" using lg bf backed_take [OF bg] by metis
    then have "backed ?H ?lg" by (rule backed_grows [OF _ g])
    moreover have "eterm e \<le> t" if "e \<in> set ?g" for e
      using that d(1) unfolding history_fine_def in_set_conv_nth by blast
    then have "\<forall>e \<in> set ?lg. eterm e \<le> t"
      using lg b t(1) by (metis book_fine_def in_set_takeD)
    ultimately show ?thesis using b fol t(1) by (simp add: book_fine_def peer_ids_def)
  qed
  moreover have "keeps_acks ?H LT (t + 1) i ?lg"
    unfolding keeps_acks_def
  proof (intro allI impI)
    fix u m
    assume *: "own ?H u m" "u < t + 1" "m \<le> acked ?H u i"
    have same: "has ?H x u m = has H x u m" "own ?H u m = own H u m" for x by (simp_all add: has_def own_def)
    have keep: "has H ?lg u m" if "has H ?f u m" "take m ?g = take m (glog H u)"
      using mc [of m] that unfolding has_def by metis
    have old: "has H ?f u m \<or> lost H LT u (t + 1) m" if "m \<le> acked H u i"
      using a * that t(1) same(2) unfolding acks_fine_def keeps_acks_def by blast
    have lost': "lost H LT u (t + 1) m \<Longrightarrow> lost ?H LT u (t + 1) m"
      by (simp add: lost_def safe_def has_def)
    show "has ?H ?lg u m \<or> lost ?H LT u (t + 1) m"
    proof (cases "u = t")
      case True
      then have no: "\<not> lost H LT u (t + 1) m" by (auto simp: lost_def)
      have "has H ?lg u m"
      proof (cases "m \<le> ?m")
        case False
        then have "has H ?f u m" using * True old no by (simp split: if_splits)
        then show ?thesis using keep True by blast
      qed (use has_take [OF _ new] True in blast)
      then show ?thesis using same(1) by blast
    next
      case False
      then have "has H ?f u m \<or> lost H LT u (t + 1) m" using * old by simp
      moreover have "has H ?lg u m \<or> lost H LT u (t + 1) m" if h: "has H ?f u m"
      proof (cases "safe H t u m")
        case True
        then have "m \<le> gbase H t" "take m ?g = take m (glog H u)" by (auto simp: safe_def has_def min_def split: if_splits)
        then show ?thesis using keep h by blast
      next
        case False
        then show ?thesis using t(2) \<open>u \<noteq> t\<close> *(2) unfolding lost_def by (intro disjI2 bexI [of _ t]) auto
      qed
      ultimately show ?thesis using same(1) lost' by blast
    qed
  qed
  then have "acks_fine ?H LT i ?n" using a t(1) own by (auto simp: acks_fine_def)
  moreover have "\<forall>tk \<in># T i. task_log ?H ?n tk"
  proof
    fix tk
    assume "tk \<in># T i"
    then have "task_log H (N i) tk" by (rule d(4) [OF i])
    then show "task_log ?H ?n tk" using fol by (simp add: task_log_def)
  qed
  ultimately have "log_inv M (N(i := ?n)) (T(i := T i)) G LT ?H"
    using fol by (intro log_frame [OF inv v i g order_refl H']) simp_all
  then show ?thesis using g by (intro exI [of _ ?H]) simp
qed

text \<open>A candidate wins: its log is the log of its term, and no peer has acknowledged any of it.\<close>

lemma reset_match:
  assumes "distinct (map fst m)" "fst ` set m \<subseteq> D \<union> set ps" "\<And>p v. (p, v) \<in> set m \<Longrightarrow> p \<in> D \<Longrightarrow> v = -1"
  shows "distinct (map fst (fold (\<lambda>p. AList.update p (-1)) ps m)) \<and>
    fst ` set (fold (\<lambda>p. AList.update p (-1)) ps m) \<subseteq> D \<union> set ps \<and>
    (\<forall>p v. (p, v) \<in> set (fold (\<lambda>p. AList.update p (-1)) ps m) \<longrightarrow> v = (-1 :: int))"
  using assms
proof (induction ps arbitrary: m D)
  case Nil
  then show ?case by force
next
  case (Cons p ps)
  have "v = -1" if "(q, v) \<in> set (AList.update p (-1) m)" "q \<in> insert p D" for q v
  proof (cases "q = p")
    case True
    have "distinct (map fst (AList.update p (-1) m))" using Cons.prems(1) by (simp add: distinct_update)
    then show ?thesis using that True map_of_eq_Some_iff [of "AList.update p (-1) m" q v] by (simp add: map_of_update)
  next
    case False
    then have "(q, v) \<in> set m" using in_update [OF that(1)] by simp
    then show ?thesis using Cons.prems(3) that(2) False by blast
  qed
  moreover have "fst ` set (AList.update p (-1) m) \<subseteq> insert p D \<union> set ps"
    using Cons.prems(2) by (auto simp: update_keys)
  ultimately show ?case
    using Cons.IH [of "AList.update p (-1) m" "insert p D"] Cons.prems(1) by (simp add: distinct_update)
qed

lemma log_won:
  assumes inv: "log_inv M N T G LT H" and v: "votes_fine M N G" and i: "i \<in> M" and cand: "role (N i) = CANDIDATE"
    and t: "currentTerm (N i) \<notin> LT" "is_int32 (currentTerm (N i))" and q: "has_quorum M G (currentTerm (N i)) i"
    and n': "view n' = (currentTerm (N i), LEADER, log (N i),
      fold (\<lambda>p. AList.update p (-1)) (peer_ids (N i)) (matchIndex (N i)), peer_ids (N i))"
    and leaders: "\<And>j. j \<in> M \<Longrightarrow> role (N j) = LEADER \<Longrightarrow> currentTerm (N j) \<in> LT"
  shows "\<exists>H'. grows N LT H H' \<and> log_inv M (N(i := n')) T G (insert (currentTerm (N i)) LT) H'"
proof -
  let ?t = "currentTerm (N i)" and ?lg = "log (N i)"
  let ?H = "lead ?t i ?lg (length ?lg) H" and ?LT = "insert ?t LT"
  note d = log_invD [OF inv] and b = log_invD(2) [OF inv i] and a = log_invD(3) [OF inv i]
  have f: "currentTerm n' = ?t" "role n' = LEADER" "log n' = ?lg" "peer_ids n' = peer_ids (N i)"
      "matchIndex n' = fold (\<lambda>p. AList.update p (-1)) (peer_ids (N i)) (matchIndex (N i))"
    using n' by (simp_all add: view_def)
  have none: "glog H ?t = []" using d(1) t(1) by (simp add: history_fine_def)
  then have p: "prefix (glog H ?t) ?lg" by simp
  have g: "grows N LT H ?H" by (rule lead_grows [OF d(1) p]) (use t(1) in simp_all)
  have bk: "backed H ?lg" and pos: "0 < ?t" using b cand by (auto simp: book_fine_def)
  have terms: "eterm (?lg ! k) < ?t" if "k < length ?lg" for k
  proof -
    have "?lg ! k \<in> set ?lg" using that by simp
    then have "eterm (?lg ! k) \<le> ?t" "eterm (?lg ! k) \<in> LT"
      using b backed_terms [OF d(1) bk] unfolding book_fine_def by blast+
    then show ?thesis using t(1) by (metis order_le_less)
  qed
  have H': "history_fine ?H ?LT"
  proof (rule lead_fine [OF d(1) g p pos t(2)])
    show "eterm (?lg ! k) \<le> ?t \<and> (eterm (?lg ! k) = ?t \<longleftrightarrow> length ?lg \<le> k)" if "k < length ?lg" for k
      using terms [OF that] that by simp
  qed (use backed_length [OF d(1) bk] backed_grows [OF bk g] in simp_all)
  have keep: "keeps_acks ?H ?LT ?t v ?lg" if "keeps_acks H LT ?t v ?lg" for v
    by (rule keeps_acks_grows [OF that g d(1)]) auto
  have own: "keeps_acks H LT ?t i ?lg"
    unfolding keeps_acks_def
  proof (intro allI impI)
    fix u m
    assume *: "own H u m" "u < ?t" "m \<le> acked H u i"
    then have "has H ?lg u m \<or> lost H LT u (?t + 1) m" using a unfolding acks_fine_def keeps_acks_def by simp
    moreover have "lost H LT u (?t + 1) m \<Longrightarrow> lost H LT u ?t m"
      using t(1) unfolding lost_def by (metis order_le_less zle_add1_eq_le)
    ultimately show "has H ?lg u m \<or> lost H LT u ?t m" by blast
  qed
  have m: "distinct (map fst (matchIndex n'))" "fst ` set (matchIndex n') \<subseteq> set (peer_ids (N i))"
      "(p, m) \<in> set (matchIndex n') \<Longrightarrow> m = -1" for p m
    using reset_match [of "matchIndex (N i)" "{}" "peer_ids (N i)"] b f(5) by (auto simp: book_fine_def)
  have "book_fine ?H i n'"
  proof -
    have "nat (k + 1) \<le> acked ?H ?t p" if "(p, k) \<in> set (matchIndex n')" for p k
      using m(3) [OF that] by simp
    then show ?thesis
      using b f(1-4) m(1,2) backed_grows [OF bk g] pos by (simp add: book_fine_def)
  qed
  moreover have "acks_fine ?H ?LT i n'"
  proof -
    have "keeps_acks ?H ?LT (?t + 1) i ?lg"
      by (rule lead_acks [OF a d(1) g _ H']) (use f in auto)
    then show ?thesis using a f by (simp add: acks_fine_def)
  qed
  moreover have "\<forall>tk \<in># T i. task_log ?H n' tk"
  proof
    fix tk
    assume "tk \<in># T i"
    then have "task_log ?H (N i) tk" using task_log_grows [OF d(4) [OF i] g] by blast
    then show "task_log ?H n' tk" using f(1,2) by (auto simp: task_log_def)
  qed
  moreover have "\<exists>Q \<subseteq> M. card M div 2 + 1 \<le> card Q \<and>
      (\<forall>v \<in> Q. w \<le> currentTerm ((N(i := n')) v) \<and> keeps_acks ?H ?LT w v (take (gbase ?H w) (glog ?H w)))"
    if w: "w \<in> ?LT" "w \<notin> LT" for w
  proof -
    have wt: "w = ?t" using w by simp
    obtain Q where Q: "Q \<subseteq> M" "card M div 2 + 1 \<le> card Q" "\<forall>v \<in> Q. v = i \<or> (?t, v, i) \<in> G"
      using q unfolding has_quorum_def by blast
    have "?t \<le> currentTerm ((N(i := n')) v) \<and> keeps_acks ?H ?LT ?t v ?lg" if "v \<in> Q" for v
    proof (cases "v = i")
      case False
      then have "(?t, v, i) \<in> G" using Q(3) that by blast
      then show ?thesis
        using v d(5) cand t(1) keep False unfolding votes_fine_def votes_log_def by simp
    qed (use own keep f(1) in simp)
    then show ?thesis using Q(1,2) wt by (intro exI [of _ Q]) simp
  qed
  ultimately have "log_inv M (N(i := n')) (T(i := T i)) G ?LT ?H"
    using leaders t(1) f by (intro log_frame [OF inv v i g _ H']) (auto, metis)
  then show ?thesis using g by (intro exI [of _ ?H]) simp
qed

end
