(* ===== verification/Raft_Completeness.thy ===== *)
theory Raft_Completeness imports Raft_Matching begin

text \<open>
  Every step of the cluster keeps the invariant of \<open>Raft_Matching\<close> for a history that grows; so
  in every reachable state the logs match, and the leaders of later terms have what the leader
  of an earlier term committed.
\<close>

section \<open>Moves of a node\<close>

text \<open>A later history: logs and acknowledgements only grow, and leaders stay leaders of their terms.\<close>

definition older :: "history \<Rightarrow> history \<Rightarrow> bool" where
  "older H H' \<longleftrightarrow>
     (\<forall>t. prefix (glog H t) (glog H' t)) \<and> (\<forall>t v. acked H t v \<le> acked H' t v) \<and>
     (\<forall>t. chief H t \<noteq> None \<longrightarrow> gbase H' t = gbase H t \<and> chief H' t = chief H t)"

lemma older_refl [simp]: "older H H"
  by (simp add: older_def)

lemma older_trans: "older H H1 \<Longrightarrow> older H1 H2 \<Longrightarrow> older H H2"
  unfolding older_def by (metis order_trans prefix_order.order_trans)

lemma grows_older: "grows N LT H H' \<Longrightarrow> history_fine H LT \<Longrightarrow> older H H'"
  using history_chief(1) by (auto simp: grows_def older_def)

text \<open>
  What is left of a move once the book of the node has changed (to \<open>n1\<close>): it sends. The
  conclusion names the tasks it adds to its pool.
\<close>

definition moved ::
    "string set \<Rightarrow> (string \<Rightarrow> raft_node) \<Rightarrow> (string \<Rightarrow> task multiset) \<Rightarrow> (int \<times> string \<times> string) set \<Rightarrow>
     int set \<Rightarrow> string \<Rightarrow> raft_node \<Rightarrow> history \<Rightarrow> bool" where
  "moved M N T G LT i n' H \<longleftrightarrow>
     (\<exists>us H'. rpcPool n' = rpcPool (N i) @ us \<and> older H H' \<and>
        log_inv M (N(i := n')) (T(i := T i + mset us)) G LT H')"

lemma movedI: "rpcPool n' = rpcPool (N i) \<Longrightarrow> older H H' \<Longrightarrow> log_inv M (N(i := n')) T G LT H' \<Longrightarrow> moved M N T G LT i n' H"
  unfolding moved_def by (intro exI [of _ "[]"] exI [of _ H']) simp

lemma votes_fine_same:
  assumes "votes_fine M N G" "currentTerm n1 = currentTerm (N i)" "role n1 = role (N i)" "votedFor n1 = votedFor (N i)"
  shows "votes_fine M (N(i := n1)) G"
  using assms by (intro votes_fine_node) (auto simp: votes_fine_def)

lemma moved_sent:
  assumes "log_inv M (N(i := n1)) T G LT H'" "votes_fine M (N(i := n1)) G" "i \<in> M" "sent n1 n'"
    and "rpcPool n1 = rpcPool (N i)" "older H H'"
  shows "moved M N T G LT i n' H"
proof -
  obtain us where "rpcPool n' = rpcPool n1 @ us" "log_inv M ((N(i := n1))(i := n')) (T(i := T i + mset us)) G LT H'"
    using log_sent [OF assms(1-3), of n'] assms(4) by auto
  then show ?thesis using assms(5,6) unfolding moved_def by (intro exI [of _ us] exI [of _ H']) simp
qed

text \<open>The two ways in which two leaders' terms are kept apart.\<close>

lemma leader_term: "election_inv M N T G L \<Longrightarrow> i \<in> M \<Longrightarrow> role (N i) = LEADER \<Longrightarrow> (currentTerm (N i), i) \<in> L"
  by (auto simp: election_inv_def leaders_fine_def)

lemma other_leader:
  assumes "election_inv M N T G L" "i \<in> M" "j \<in> M" "i \<noteq> j" "role (N i) = LEADER" "role (N j) = LEADER"
  shows "currentTerm (N j) \<noteq> currentTerm (N i)"
  using leader_term [OF assms(1)] one_leader [OF assms(1)] assms(2-6) by metis

lemma moved_submitted:
  assumes e: "election_inv M N T G L" and inv: "log_inv M N T G (fst ` L) H" and i: "i \<in> M"
    and s: "submitted c (N i) n'" and len: "len (log n') \<le> INT_MAX"
  shows "moved M N T G (fst ` L) i n' H"
proof -
  let ?n1 = "(N i)\<lparr>log := log (N i) @ [\<lparr>eterm = currentTerm (N i), command = c\<rparr>]\<rparr>"
  have v: "votes_fine M N G" by (rule election_invD(2) [OF e i])
  have lead: "role (N i) = LEADER" and sent: "sent ?n1 n'" using s by (simp_all add: submitted_def)
  have "len (log ?n1) \<le> INT_MAX" using len sent_same [OF sent] by (simp add: book_eq)
  moreover have "currentTerm (N i) \<in> fst ` L" using leader_term [OF e i lead] by force
  ultimately obtain H' where H': "grows N (fst ` L) H H'" "log_inv M (N(i := ?n1)) T G (fst ` L) H'"
    using log_submitted [OF inv v i lead _ refl] other_leader [OF e i _ _ lead] by metis
  show ?thesis
    by (rule moved_sent [OF H'(2) _ i sent]) (use votes_fine_same [OF v] grows_older [OF H'(1) log_invD(1) [OF inv]] in simp_all)
qed

text \<open>A candidate wins; \<open>E\<close> is what the invariant of elections says of the state after it.\<close>

lemma moved_won:
  assumes v: "votes_fine M N G" and l: "leaders_fine M N G L" and fine: "is_int32 (currentTerm (N i))"
    and inv: "log_inv M N T G (fst ` L) H" and i: "i \<in> M"
    and w: "won (N i) n'" and E: "election_inv M N' T' G (insert (currentTerm (N i), i) L)"
  shows "moved M N T G (insert (currentTerm (N i)) (fst ` L)) i n' H"
proof -
  obtain n1 where n1: "face n1 = face ((N i)\<lparr>role := LEADER\<rparr>)" "rpcPool n1 = rpcPool (N i)"
      "book n1 = (log (N i), fold (\<lambda>p. AList.update p (-1)) (peer_ids (N i)) (matchIndex (N i)))" "sent n1 n'"
      and cand: "role (N i) = CANDIDATE"
    using w unfolding won_def by blast
  have q: "has_quorum M G (currentTerm (N i)) i"
    using election_invD(3) [OF E i] by (auto simp: leaders_fine_def)
  have fresh: "currentTerm (N i) \<notin> fst ` L"
  proof
    assume "currentTerm (N i) \<in> fst ` L"
    then obtain j where j: "(currentTerm (N i), j) \<in> L" by auto
    then have "j = i" using one_leader [OF E] by blast
    then show False using j cand l by (auto simp: leaders_fine_def)
  qed
  have view: "view n1 = (currentTerm (N i), LEADER, log (N i),
      fold (\<lambda>p. AList.update p (-1)) (peer_ids (N i)) (matchIndex (N i)), peer_ids (N i))"
    using n1(1,3) by (simp add: view_def face_eq book_def peer_ids_def)
  have "currentTerm (N j) \<in> fst ` L" if "j \<in> M" "role (N j) = LEADER" for j
    using l that unfolding leaders_fine_def by force
  then obtain H' where H': "grows N (fst ` L) H H'" "log_inv M (N(i := n1)) T G (insert (currentTerm (N i)) (fst ` L)) H'"
    using log_won [OF inv v i cand fresh fine q view] by blast
  have "(currentTerm (N i), i, x) \<notin> G" for x
    using v cand unfolding votes_fine_def by (metis role.distinct(1))
  then have "votes_fine M (N(i := n1)) G"
    using n1(1) by (intro votes_fine_node [OF v]) (simp_all add: face_eq)
  then show ?thesis
    by (rule moved_sent [OF H'(2) _ i n1(4,2) grows_older [OF H'(1) log_invD(1) [OF inv]]])
qed

lemma moved_stood:
  assumes e: "election_inv M N T G L" and inv: "log_inv M N T G (fst ` L) H" and i: "i \<in> M" and s: "stood (N i) n'"
  shows "moved M N T G (fst ` L) i n' H"
proof -
  have "task_term t \<le> currentTerm (N i)" if "t \<in># T i" "is_vote t" for t
  proof -
    have "task_fine M L i (N i) t" using election_invD(6) [OF e i] that(1) by blast
    then show ?thesis using that(2) by (cases t) auto
  qed
  then show ?thesis
    using log_stood [OF inv election_invD(2) [OF e i] i s] older_refl unfolding moved_def by blast
qed

text \<open>Every move of a node by itself.\<close>

lemma moved_internal:
  assumes e: "election_inv M N T G L" and inv: "log_inv M N T G (fst ` L) H" and i: "i \<in> M"
    and move: "sent (N i) n' \<or> (\<exists>c. submitted c (N i) n') \<or> (currentTerm (N i) \<noteq> INT_MAX \<and>
      (stood (N i) n' \<or> (majority (N i) \<le> 1 \<and> (\<exists>n1. stood (N i) n1 \<and> won n1 n'))))"
    and len: "len (log n') \<le> INT_MAX"
    and E: "election_inv M (N(i := n')) T' G (if role n' = LEADER then insert (currentTerm n', i) L else L)"
  shows "moved M N T G (fst ` (if role n' = LEADER then insert (currentTerm n', i) L else L)) i n' H"
proof -
  have v: "votes_fine M N G" by (rule election_invD(2) [OF e i])
  have same: "fst ` (if role n' = LEADER then insert (currentTerm n', i) L else L) = fst ` L"
    if "role n' = role (N i)" "currentTerm n' = currentTerm (N i)"
    using leader_term [OF e i] that by force
  consider "sent (N i) n'" | c where "submitted c (N i) n'" | "stood (N i) n'"
    | n1 where "currentTerm (N i) \<noteq> INT_MAX" "stood (N i) n1" "won n1 n'"
    using move by blast
  then show ?thesis
  proof cases
    case 1
    have "moved M N T G (fst ` L) i n' H"
      using log_sent [OF inv v i 1] older_refl unfolding moved_def by blast
    then show ?thesis using same sent_same [OF 1] by (simp add: face_eq)
  next
    case 2
    then have "role n' = role (N i)" "currentTerm n' = currentTerm (N i)"
      using sent_same by (auto simp: submitted_def face_eq)
    then show ?thesis using moved_submitted [OF e inv i 2 len] same by simp
  next
    case 3
    then have "role n' \<noteq> LEADER" by (simp add: stood_def face_def ballot_of_def)
    then show ?thesis using moved_stood [OF e inv i 3] by simp
  next
    case 4
    obtain ts where ts: "rpcPool n1 = rpcPool (N i) @ ts" "election_inv M (N(i := n1)) (T(i := T i + mset ts)) G L"
      using inv_stood [OF e i 4(2,1)] by blast
    obtain us H1 where us: "rpcPool n1 = rpcPool (N i) @ us" "older H H1" "log_inv M (N(i := n1)) (T(i := T i + mset us)) G (fst ` L) H1"
      using moved_stood [OF e inv i 4(2)] unfolding moved_def by blast
    have "us = ts" using ts(1) us(1) by simp
    have n': "role n' = LEADER" "currentTerm n' = currentTerm n1"
      using 4(3) sent_same by (auto simp: won_def face_eq)
    have "moved M (N(i := n1)) (T(i := T i + mset ts)) G (insert (currentTerm n1) (fst ` L)) i n' H1"
      using moved_won [OF election_invD(2,3) [OF ts(2) i] _ us(3) [unfolded \<open>us = ts\<close>] i, of n'] 4(3) E n'
        election_invD(1) [OF ts(2) i] by (simp add: node_fine_def)
    then show ?thesis
      using ts(1) n' us(2) older_trans unfolding moved_def by (fastforce simp: add.assoc)
  qed
qed

section \<open>Requests\<close>

text \<open>A vote is only given to a candidate whose log is at least as up to date.\<close>

lemma vote_up_to_date:
  assumes "calm env" "onRequestVote env req n = (Ok r, n')" "reply_grants r"
    and "int_at req ''term'' = Ok t" "string_at req ''candidateId'' = Ok c"
    and "int_at req ''lastLogIndex'' = Ok ci" "int_at req ''lastLogTerm'' = Ok ct"
  shows "lastLogTerm n < ct \<or> (ct = lastLogTerm n \<and> lastLogIndex n \<le> ci)"
proof -
  have h: "handle_vote env t c ci ct n = (Ok r, n')"
    using assms(2,4-7) by (simp add: onRequestVote_def abind.simps lift_def)
  have "log (becomeFollower env t n) = log n" using stepped_fields [OF stepped_becomeFollower [OF assms(1)]] by blast
  then have "lastLogTerm (becomeFollower env t n) = lastLogTerm n" "lastLogIndex (becomeFollower env t n) = lastLogIndex n"
    by (simp_all add: lastLogTerm_def lastLogIndex_def)
  then show ?thesis
    using h assms(3) by (auto simp: handle_vote_def Let_def split: if_splits)
qed

lemma int32_last:
  assumes "history_fine H LT" "backed H (log n)"
  shows "is_int32 (lastLogIndex n)" "is_int32 (lastLogTerm n)"
proof -
  have "len (log n) \<le> INT_MAX" by (rule backed_length [OF assms])
  then show "is_int32 (lastLogIndex n)" by (simp add: lastLogIndex_def is_int32_def INT_MIN_def INT_MAX_def)
  have "log n \<noteq> [] \<Longrightarrow> is_int32 (eterm (last (log n)))"
    using backed_terms [OF assms, of "last (log n)"] assms(1) by (simp add: history_fine_def)
  then show "is_int32 (lastLogTerm n)" by (simp add: lastLogTerm_def is_int32_def INT_MIN_def INT_MAX_def)
qed

lemma int_at_JInteger: "json_at j k = Ok (JInteger i) \<Longrightarrow> is_int32 i \<Longrightarrow> int_at j k = Ok i"
  by (simp add: int_at_def)

text \<open>The log of the candidate has what the voter has acknowledged.\<close>

lemma granted_keeps_acks:
  assumes inv: "log_inv M N T G LT H" and ij: "i \<in> M" "j \<in> M" and cand: "role (N i) = CANDIDATE" "currentTerm (N i) = u" "u \<notin> LT"
    and voter: "currentTerm (N j) \<le> u"
    and up: "lastLogTerm (N j) < lastLogTerm (N i) \<or> (lastLogTerm (N i) = lastLogTerm (N j) \<and> lastLogIndex (N j) \<le> lastLogIndex (N i))"
  shows "keeps_acks H LT u j (log (N i))"
  unfolding keeps_acks_def
proof (intro allI impI)
  fix t m
  assume *: "own H t m" "t < u" "m \<le> acked H t j"
  note d = log_invD [OF inv]
  have bj: "backed H (log (N j))" and bi: "backed H (log (N i))" using d(2) ij by (simp_all add: book_fine_def)
  have "eterm e < u" if e: "e \<in> set (log (N i))" for e
  proof -
    have "eterm e \<le> u" "eterm e \<in> LT"
      using d(2) [OF ij(1)] cand(2) e backed_terms [OF d(1) bi] unfolding book_fine_def by blast+
    then show ?thesis using cand(3) by (metis order_le_less)
  qed
  then have below: "\<forall>e \<in> set (log (N i)). eterm e < u" by blast
  have "0 < acked H t j" using * by (auto simp: own_def)
  then have "t < currentTerm (N j) + 1" using d(3) [OF ij(2)] by (fastforce simp: acks_fine_def)
  then have "has H (log (N j)) t m \<or> lost H LT t (currentTerm (N j) + 1) m"
    using d(3) [OF ij(2)] * unfolding acks_fine_def keeps_acks_def by blast
  then show "has H (log (N i)) t m \<or> lost H LT t u m"
  proof
    assume h: "has H (log (N j)) t m"
    show ?thesis
      by (rule up_to_date_has [OF d(1) bj h *(1) bi below])
         (use up in \<open>auto simp: lastLogTerm_def lastLogIndex_def split: if_splits\<close>)
  next
    assume "lost H LT t (currentTerm (N j) + 1) m"
    then obtain w where w: "w \<in> LT" "t < w" "w < currentTerm (N j) + 1" "\<not> safe H w t m" unfolding lost_def by blast
    then have "w < u" using voter cand(3) by (metis order_le_less order.trans zle_add1_eq_le)
    then show ?thesis using w unfolding lost_def by blast
  qed
qed

lemma moved_vote:
  assumes e: "election_inv M N T G L" and inv: "log_inv M N T G (fst ` L) H" and i: "i \<in> M"
    and t: "t \<in># T i" "is_vote t" and env: "calm env"
    and r: "onRequestVote env (json_norm (task_params t)) (N (task_peer t)) = (out, n')" "alive out"
  shows "moved M N T (votes_after t (task_peer t) i out G) (fst ` L) (task_peer t) n' H \<and>
    (role n' = LEADER \<longrightarrow> role (N (task_peer t)) = LEADER \<and> currentTerm n' = currentTerm (N (task_peer t)))"
proof -
  obtain j port params u needed el where tk: "t = VoteTask j port params u needed el" using t(2) by (cases t) auto
  have tf: "task_fine M L i (N i) t" using election_invD(6) [OF e i] t(1) by blast
  then have fine: "j \<in> M" "j \<noteq> i" "is_int32 u" "u \<le> currentTerm (N i)" by (simp_all add: tk)
  let ?req = "json_norm params"
  have req: "int_at ?req ''term'' = Ok u" "string_at ?req ''candidateId'' = Ok i"
    using tf unfolding int_at_norm string_at_norm by (simp_all add: tk int_at_def string_at_def)
  note v = election_invD(2) [OF e i] and d = log_invD [OF inv]
  have stay: "log_inv M (N(j := N j)) T G (fst ` L) H" using inv by simp
  have r': "onRequestVote env ?req (N j) = (out, n')" using r(1) by (simp add: tk)
  from onRequestVote_alive [OF req r' r(2)]
  consider ex where "n' = N j" "out = Throw ex" | a b where "handle_vote env u i a b (N j) = (out, n')"
    by blast
  then show ?thesis
  proof cases
    case 1
    then show ?thesis using movedI [OF _ _ stay] by (simp add: tk votes_after_def)
  next
    case 2
    from handle_vote_effect [OF env 2] consider "n' = N j" "out = Ok (vote_reply (currentTerm (N j)) False)"
      | n1 where "currentTerm (N j) \<le> u" "if currentTerm (N j) < u then stepped u (N j) n1 else n1 = N j"
          "(n' = n1 \<and> out = Ok (vote_reply u False)) \<or>
           (voted i n1 n' \<and> (votedFor n1 = [] \<or> votedFor n1 = i) \<and> out = Ok (vote_reply u True))" by blast
    then show ?thesis
    proof cases
      case 1
      then show ?thesis using movedI [OF _ _ stay] by (simp add: tk votes_after_def)
    next
      case n1: 2
      have inv1: "log_inv M (N(j := n1)) T G (fst ` L) H" and p1: "rpcPool n1 = rpcPool (N j)" and
          t1: "currentTerm n1 = u" "log n1 = log (N j)" "role n1 = LEADER \<Longrightarrow> n1 = N j"
        using n1(1,2) log_stepped [OF inv v fine(1), of u n1] stay stepped_fields [of u "N j" n1] by (auto split: if_splits)
      from n1(3) show ?thesis
      proof
        assume "n' = n1 \<and> out = Ok (vote_reply u False)"
        then show ?thesis using movedI [of n' N j H H M T G "fst ` L"] inv1 p1 t1 by (auto simp: tk votes_after_def)
      next
        assume vd: "voted i n1 n' \<and> (votedFor n1 = [] \<or> votedFor n1 = i) \<and> out = Ok (vote_reply u True)"
        have V: "votes_fine M (N(j := n1)) G"
        proof (cases "currentTerm (N j) < u")
          case True
          then show ?thesis using n1(2) t1(1) by (intro votes_fine_node [OF v]) simp_all
        next
          case False
          then show ?thesis using v n1(2) by simp
        qed
        have f: "face n' = face (n1\<lparr>votedFor := i\<rparr>)" "book n' = book n1" "rpcPool n' = rpcPool n1"
          using vd by (simp_all add: voted_def)
        have view: "view n' = view n1" using f(1,2) by (simp add: view_fields face_eq book_eq peer_ids_def)
        have "log_inv M ((N(j := n1))(j := n')) (T(j := T j)) G (fst ` L) H"
          using view by (intro log_view [OF inv1 V fine(1)]) simp_all
        then have inv2: "log_inv M (N(j := n')) T G (fst ` L) H" by simp
        have "keeps_acks H (fst ` L) u j (log (N i))"
          if c: "role (N i) = CANDIDATE" "currentTerm (N i) = u" "u \<notin> fst ` L"
        proof (rule granted_keeps_acks [OF inv i fine(1) c n1(1)])
          have "task_log H (N i) t" by (rule d(4) [OF i t(1)])
          then have p: "json_at params ''lastLogIndex'' = Ok (JInteger (lastLogIndex (N i)))"
              "json_at params ''lastLogTerm'' = Ok (JInteger (lastLogTerm (N i)))"
            using c by (simp_all add: tk task_log_def)
          have "backed H (log (N i))" using d(2) [OF i] by (simp add: book_fine_def)
          note int32_last [OF d(1) this]
          then have "int_at ?req ''lastLogIndex'' = Ok (lastLogIndex (N i))" "int_at ?req ''lastLogTerm'' = Ok (lastLogTerm (N i))"
            unfolding int_at_norm using p int_at_JInteger by blast+
          then show "lastLogTerm (N j) < lastLogTerm (N i) \<or>
              (lastLogTerm (N i) = lastLogTerm (N j) \<and> lastLogIndex (N j) \<le> lastLogIndex (N i))"
            using vote_up_to_date [OF env _ _ req, of "N j" "vote_reply u True" n'] r(1) vd by (simp add: tk)
        qed
        then have "log_inv M (N(j := n')) T (insert (u, j, i) G) (fst ` L) H"
          using fine(2,4) by (intro log_grant [OF inv2]) auto
        moreover have "role n' = LEADER \<longrightarrow> role (N j) = LEADER \<and> currentTerm n' = currentTerm (N j)"
          using t1(3) view by (auto simp: view_fields)
        ultimately show ?thesis using movedI [of n' N j H H M T "insert (u, j, i) G" "fst ` L"] vd f(3) p1
          by (simp add: tk votes_after_def)
      qed
    qed
  qed
qed

text \<open>
  What a successful reply says: the peer has stored what the task sent.
\<close>

definition acked_reply :: "history \<Rightarrow> task \<Rightarrow> json outcome \<Rightarrow> bool" where
  "acked_reply H t resp \<longleftrightarrow>
     (\<not> is_vote t \<longrightarrow> 0 < task_count t \<longrightarrow> (\<exists>r. resp = Ok r \<and> reply_success r) \<longrightarrow>
        nat (task_next t + task_count t) \<le> acked H (task_term t) (task_peer t))"

lemma acked_reply_older: "acked_reply H t resp \<Longrightarrow> older H H' \<Longrightarrow> acked_reply H' t resp"
  unfolding acked_reply_def older_def by (meson order_trans)

lemma reply_success_error [simp]: "\<not> reply_success (error_json w)"
  by (auto simp: reply_success_def error_json_def json_object_def Let_def)

lemma acked_reply_error [simp]: "acked_reply H t (Ok (error_json w))"
  by (simp add: acked_reply_def)

lemma acked_reply_of: "acked_reply H t out \<Longrightarrow> reply_of out resp \<Longrightarrow> acked_reply H t resp"
  by (auto simp: reply_of_def acked_reply_def)

lemma json_at_contains: "json_at j k = Ok v \<Longrightarrow> json_contains j k"
  by (cases j) (auto split: option.splits)

text \<open>How a follower reads a request that carries a piece of its leader's log.\<close>

lemma carried_stored:
  assumes H: "history_fine H LT" and u: "u \<in> LT" and c: "carried (glog H u) t" and req: "req = json_norm (task_params t)"
    and b: "backed H (log n)"
  obtains k es where "task_next t = int k" "task_count t = len es" "whole_request req"
    "es = [] \<Longrightarrow> stored req n lg \<Longrightarrow> lg = log n"
    "es \<noteq> [] \<Longrightarrow> k \<le> length (glog H u) \<and> es = take (length es) (drop k (glog H u))"
    "es \<noteq> [] \<Longrightarrow> stored req n lg \<Longrightarrow> lg = merge_entries k es (log n) \<and>
      (0 < k \<longrightarrow> k \<le> length (log n) \<and> eterm (log n ! (k - 1)) = eterm (glog H u ! (k - 1)))"
proof -
  obtain k pt es where t: "task_next t = int k" "task_count t = len es"
      "json_at (task_params t) ''prevLogIndex'' = Ok (JInteger (int k - 1))"
      "json_at (task_params t) ''prevLogTerm'' = Ok (JInteger pt)"
      "json_at (task_params t) ''entries'' = Ok (JArray (map entry_json es))"
      and es: "es = [] \<or> (k \<le> length (glog H u) \<and> es = take (length es) (drop k (glog H u)) \<and>
        (0 < k \<longrightarrow> pt = eterm (glog H u ! (k - 1))))"
    using c unfolding carried_def by blast
  have at: "json_at req ''entries'' = Ok (JArray (map json_norm (map entry_json es)))"
    by (simp add: req json_at_norm t(5))
  have whole: "whole_request req"
    using t(3-5) json_at_contains by (simp add: whole_request_def req)
  have empty: "lg = log n" if "es = []" "stored req n lg"
    using that(2) at unfolding stored_def by (auto simp: that(1))
  have full: "lg = merge_entries k es (log n) \<and>
      (0 < k \<longrightarrow> k \<le> length (log n) \<and> eterm (log n ! (k - 1)) = eterm (glog H u ! (k - 1)))"
    if ne: "es \<noteq> []" and st: "stored req n lg"
  proof -
    have g: "backed H (glog H u)" "len (glog H u) \<le> INT_MAX" and k: "k \<le> length (glog H u)"
        and e: "es = take (length es) (drop k (glog H u))" and pt: "0 < k \<longrightarrow> pt = eterm (glog H u ! (k - 1))"
      using H u es ne by (simp_all add: history_fine_def)
    have int: "is_int32 (eterm x)" if "x \<in> set (glog H u)" for x
      using backed_terms [OF H g(1) that] H by (simp add: history_fine_def)
    have "is_int32 (int k - 1)" using k g(2) by (simp add: is_int32_def INT_MIN_def INT_MAX_def)
    then have p: "int_at req ''prevLogIndex'' = Ok (int k - 1)" unfolding req int_at_norm using t(3) int_at_JInteger by blast
    have pt': "int_at req ''prevLogTerm'' = Ok pt" if "0 < k"
    proof -
      have "is_int32 pt" using that pt k int [of "glog H u ! (k - 1)"] by simp
      then show ?thesis unfolding req int_at_norm using t(4) int_at_JInteger by blast
    qed
    have reads: "list_all2 reads_entry (map json_norm (map entry_json es)) es"
      using int e by (intro reads_entries(2)) (metis in_set_dropD in_set_takeD)
    obtain q where q: "int_at req ''prevLogTerm'' = Ok q" "\<not> log_conflict n (int k - 1) q"
        "lg = snd (append_entries_loop (int k) (map json_norm (map entry_json es)) (log n))"
      using st p at unfolding stored_def by auto
    have conf: "k \<le> length (log n) \<and> eterm (log n ! (k - 1)) = eterm (glog H u ! (k - 1))" if "0 < k"
    proof -
      have "q = eterm (glog H u ! (k - 1))" using q(1) pt' [OF that] pt that by simp
      moreover have "nat (int k - 1) = k - 1" by simp
      ultimately show ?thesis using q(2) that by (auto simp: log_conflict_def)
    qed
    then have "k \<le> length (log n)" by (cases "k = 0") simp_all
    then show ?thesis using q(3) append_loop_merge [OF reads, of k "log n"] conf by simp
  qed
  show thesis
    by (rule that [OF t(1,2) whole empty _ full]) (use es in blast)+
qed

lemma moved_append:
  assumes e: "election_inv M N T G L" and inv: "log_inv M N T G (fst ` L) H" and i: "i \<in> M"
    and t: "t \<in># T i" "\<not> is_vote t" and env: "calm env"
    and r: "onAppendEntries env (json_norm (task_params t)) (N (task_peer t)) = (out, n')"
  shows "\<exists>H1. older H H1 \<and> moved M N T G (fst ` L) (task_peer t) n' H1 \<and> acked_reply H1 t out \<and>
    (role n' = LEADER \<longrightarrow> n' = N (task_peer t))"
proof -
  let ?j = "task_peer t" and ?u = "task_term t" and ?req = "json_norm (task_params t)" and ?LT = "fst ` L"
  have "task_fine M L i (N i) t" using election_invD(6) [OF e i] t by blast
  then have fine: "?j \<in> M" "is_int32 ?u" "?u \<in> ?LT" "json_at (task_params t) ''term'' = Ok (JInteger ?u)"
    using t(2) by (cases t; force)+
  note v = election_invD(2) [OF e i] and d = log_invD [OF inv]
  have int: "int_at ?req ''term'' = Ok ?u" unfolding int_at_norm using fine(2,4) int_at_JInteger by blast
  have car: "carried (glog H ?u) t" using d(4) [OF i t(1)] t(2) by (simp add: task_log_def)
  have refused: "acked_reply H t out" if "\<forall>r. out = Ok r \<longrightarrow> \<not> reply_success r"
    using that by (auto simp: acked_reply_def)
  from onAppendEntries_effect [OF env int r] show ?thesis
  proof (elim disjE conjE exE)
    assume n': "n' = N ?j" and no: "\<forall>r. out = Ok r \<longrightarrow> \<not> reply_success r"
    have "log_inv M (N(?j := N ?j)) T G ?LT H" using inv by simp
    then have "moved M N T G ?LT ?j n' H" using n' movedI [of n' N ?j H H M T G ?LT] by simp
    then show ?thesis using n' refused [OF no] older_refl by blast
  next
    fix n1
    assume acc: "accepted ?u (N ?j) n1" and hd: "handled ?req n1 out n'"
    have n1: "log_inv M (N(?j := n1)) T G ?LT H \<and> rpcPool n1 = rpcPool (N ?j) \<and> role n1 = FOLLOWER \<and> currentTerm n1 = ?u \<and>
        votes_fine M (N(?j := n1)) G"
      using acc unfolding accepted_def
    proof (elim disjE conjE)
      assume a: "currentTerm (N ?j) = ?u" "role (N ?j) = FOLLOWER" "still (N ?j) n1"
      then have f: "face n1 = face (N ?j)" "book n1 = book (N ?j)" by (simp_all add: still_def)
      have "log_inv M (N(?j := n1)) (T(?j := T ?j)) G ?LT H"
        by (rule log_view [OF inv v fine(1) face_view [OF f]]) simp
      then show ?thesis using a f votes_fine_same [OF v] by (simp add: still_def face_eq)
    next
      assume a: "currentTerm (N ?j) \<le> ?u" "?u = currentTerm (N ?j) \<longrightarrow> role (N ?j) \<noteq> FOLLOWER" "stepped ?u (N ?j) n1"
      have "(?u, ?j, x) \<notin> G" if "?u = currentTerm (N ?j)" for x
        using v a(2) that unfolding votes_fine_def by metis
      then have "votes_fine M (N(?j := n1)) G"
        using a(1) stepped_fields [OF a(3)] by (intro votes_fine_node [OF v]) auto
      then show ?thesis using log_stepped [OF inv v fine(1) a(3,1)] stepped_fields [OF a(3)] by simp
    qed
    then have inv1: "log_inv M (N(?j := n1)) T G ?LT H" and p1: "rpcPool n1 = rpcPool (N ?j)" and fol: "role n1 = FOLLOWER"
      and t1: "currentTerm n1 = ?u" and V: "votes_fine M (N(?j := n1)) G" by simp_all
    obtain lg where sent: "sent (n1\<lparr>log := lg\<rparr>) n'"
        and lg: "stored ?req n1 lg \<or> (lg = log n1 \<and> (whole_request ?req \<longrightarrow> (\<forall>r. out = Ok r \<longrightarrow> \<not> reply_success r)))"
      using hd unfolding handled_def by blast
    let ?n2 = "n1\<lparr>log := lg\<rparr>"
    have p2: "rpcPool ?n2 = rpcPool (N ?j)" using p1 by simp
    have V2: "votes_fine M (N(?j := ?n2)) G" using votes_fine_same [OF V, of ?n2 ?j] by simp
    have role: "role n' \<noteq> LEADER" using sent_same [OF sent] fol by (simp add: face_eq)
    have "\<exists>H1. older H H1 \<and> log_inv M (N(?j := ?n2)) T G ?LT H1 \<and> acked_reply H1 t out"
    proof -
      have "backed H (log n1)" using log_invD(2) [OF inv1 fine(1)] by (simp add: book_fine_def)
      from carried_stored [OF d(1) fine(3) car refl this]
      obtain k es where c: "task_next t = int k" "task_count t = len es" "whole_request ?req"
          "es = [] \<Longrightarrow> stored ?req n1 lg \<Longrightarrow> lg = log n1"
          "es \<noteq> [] \<Longrightarrow> k \<le> length (glog H ?u) \<and> es = take (length es) (drop k (glog H ?u))"
          "es \<noteq> [] \<Longrightarrow> stored ?req n1 lg \<Longrightarrow> lg = merge_entries k es (log n1) \<and>
            (0 < k \<longrightarrow> k \<le> length (log n1) \<and> eterm (log n1 ! (k - 1)) = eterm (glog H ?u ! (k - 1)))"
        by metis
      show ?thesis
      proof (cases "es \<noteq> [] \<and> stored ?req n1 lg")
        case True
        then have ne: "es \<noteq> []" and st: "lg = merge_entries k es (log n1)"
            "0 < k \<Longrightarrow> k \<le> length (log n1) \<and> eterm (log n1 ! (k - 1)) = eterm (glog H ?u ! (k - 1))"
          using c(6) by blast+
        obtain H' where H': "grows (N(?j := n1)) ?LT H H'" "k + length es \<le> acked H' ?u ?j"
            "log_inv M ((N(?j := n1))(?j := n1\<lparr>log := merge_entries k es (log n1)\<rparr>)) T G ?LT H'"
          using log_stored [OF inv1 V fine(1), of ?u es k] fol t1 fine(3) ne c(5) st(2) by auto
        then have "log_inv M (N(?j := ?n2)) T G ?LT H'" using st(1) by simp
        moreover have "acked_reply H' t out"
          using H'(2) c(1,2) by (simp add: acked_reply_def nat_add_distrib)
        ultimately show ?thesis using grows_older [OF H'(1) d(1)] by blast
      next
        case False
        then have same: "lg = log n1" using lg c(4) by blast
        have "acked_reply H t out" using False lg c(2,3) refused by (cases "es = []") (auto simp: acked_reply_def)
        moreover have "log_inv M (N(?j := ?n2)) T G ?LT H" using inv1 by (simp add: same)
        ultimately show ?thesis using older_refl by blast
      qed
    qed
    then obtain H1 where H1: "older H H1" "log_inv M (N(?j := ?n2)) T G ?LT H1" "acked_reply H1 t out" by blast
    have "moved M N T G ?LT ?j n' H1"
      by (rule moved_sent [of M N ?j ?n2 T G ?LT H1]) (use H1(2) V2 fine(1) sent p2 in simp_all)
    then show ?thesis using H1 role by blast
  qed
qed

section \<open>Responses\<close>

lemma moved_stepped:
  assumes "election_inv M N T G L" "log_inv M N T G (fst ` L) H" "i \<in> M" "stepped u (N i) n'" "currentTerm (N i) < u"
  shows "moved M N T G (fst ` (if role n' = LEADER then insert (currentTerm n', i) L else L)) i n' H"
proof -
  have "log_inv M (N(i := n')) T G (fst ` L) H"
    using log_stepped [OF assms(2) election_invD(2) [OF assms(1,3)] assms(3,4)] assms(5) by simp
  then show ?thesis using movedI [of n' N i H H] stepped_fields [OF assms(4)] by simp
qed

lemma moved_response:
  assumes e: "election_inv M N T G L" and inv: "log_inv M N T G (fst ` L) H" and i: "i \<in> M" and env: "calm env"
    and t: "\<not> is_vote t \<Longrightarrow> task_peer t \<in> set (peer_ids (N i))" "acked_reply H t resp"
    and n': "n' = snd (run_task env t resp (N i))"
    and E: "election_inv M (N(i := n')) T' G (if role n' = LEADER then insert (currentTerm n', i) L else L)"
  shows "moved M N T G (fst ` (if role n' = LEADER then insert (currentTerm n', i) L else L)) i n' H"
proof -
  let ?L = "if role n' = LEADER then insert (currentTerm n', i) L else L"
  note v = election_invD(2) [OF e i] and l = election_invD(3) [OF e i]
  have same: "fst ` ?L = fst ` L" if "role n' = role (N i)" "currentTerm n' = currentTerm (N i)"
    using leader_term [OF e i] that by force
  have still: ?thesis if "n' = N i"
    using movedI [of n' N i H H M T G "fst ` L"] inv that same by simp
  show ?thesis
  proof (cases "is_vote t")
    case True
    then obtain p port params u needed el where tk: "t = VoteTask p port params u needed el" by (cases t) auto
    from vote_response_effect [OF env, of u needed el resp "N i"] n'
    consider "n' = N i" | rt where "currentTerm (N i) < rt" "stepped rt (N i) n'"
      | "role (N i) = CANDIDATE" "counted needed el (N i) n'" by (auto simp: tk)
    then show ?thesis
    proof cases
      case 3
      then obtain w n1 where n1: "face n1 = face ((N i)\<lparr>elections := (elections (N i))[el := (fst (elections (N i) ! el) + 1, w)]\<rparr>)"
          "book n1 = book (N i)" "rpcPool n1 = rpcPool (N i)" "n' = n1 \<or> won n1 n'"
        unfolding counted_def by blast
      have f: "currentTerm n1 = currentTerm (N i)" "role n1 = CANDIDATE" "votedFor n1 = votedFor (N i)" "view n1 = view (N i)"
        using n1(1,2) 3(1) by (simp_all add: face_eq view_fields book_eq peer_ids_def)
      have "log_inv M (N(i := n1)) (T(i := T i)) G (fst ` L) H" by (rule log_view [OF inv v i f(4)]) simp
      then have inv1: "log_inv M (N(i := n1)) T G (fst ` L) H" by simp
      show ?thesis
      proof (cases "n' = n1")
        case True
        then show ?thesis using movedI [of n' N i H H] n1(3) inv1 f(2) by simp
      next
        case False
        then have w: "won n1 n'" using n1(4) by blast
        then have lead: "role n' = LEADER" "currentTerm n' = currentTerm (N i)"
          using sent_same f(1) by (auto simp: won_def face_eq)
        have V: "votes_fine M (N(i := n1)) G" using votes_fine_same [OF v] f(1-3) 3(1) by simp
        have "leaders_fine M (N(i := n1)) G L"
          using l f(1,2) 3(1) by (intro leaders_fine_node) auto
        moreover have "is_int32 (currentTerm (N i))" using election_invD(1) [OF e i] by (simp add: node_fine_def)
        ultimately have "moved M (N(i := n1)) T G (insert (currentTerm n1) (fst ` L)) i n' H"
          using moved_won [OF V, of L i T H n'] inv1 i w E lead f(1) by simp
        then show ?thesis using lead f(1) n1(3) by (simp add: moved_def)
      qed
    qed (use still moved_stepped [OF e inv i] in blast)+
  next
    case False
    from append_response_effect [OF env False, of resp "N i", folded n'] consider "sent (N i) n'"
      | rt where "currentTerm (N i) < rt" "stepped rt (N i) n'"
      | r where "matched t (N i) n'" "resp = Ok r" "reply_success r"
      unfolding append_effect_def by blast
    then show ?thesis
    proof cases
      case 1
      then have "moved M N T G (fst ` L) i n' H"
        using log_sent [OF inv v i 1] older_refl unfolding moved_def by blast
      then show ?thesis using same sent_same [OF 1] by (simp add: face_eq)
    next
      case 3
      let ?n1 = "(N i)\<lparr>matchIndex := AList.update (task_peer t) (task_next t + task_count t - 1) (matchIndex (N i))\<rparr>"
      have m: "sent ?n1 n'" "0 < task_count t" "currentTerm (N i) = task_term t" using 3(1) by (simp_all add: matched_def)
      have "nat (task_next t + task_count t - 1 + 1) \<le> acked H (currentTerm (N i)) (task_peer t)"
        using t(2) 3(2,3) m(2,3) False by (simp add: acked_reply_def)
      then have inv1: "log_inv M (N(i := ?n1)) T G (fst ` L) H" by (rule log_matched [OF inv v i t(1) [OF False]])
      have "votes_fine M (N(i := ?n1)) G" using votes_fine_same [OF v, of ?n1 i] by simp
      then have "moved M N T G (fst ` L) i n' H"
        by (rule moved_sent [OF inv1 _ i m(1)]) simp_all
      then show ?thesis using same sent_same [OF m(1)] by (simp add: face_eq)
    qed (use moved_stepped [OF e inv i] in blast)
  qed
qed

section \<open>Every step keeps it\<close>

definition cluster_log :: "string set \<Rightarrow> cluster \<Rightarrow> history \<Rightarrow> bool" where
  "cluster_log M c H \<longleftrightarrow>
     log_inv M (cnodes c) (outs c) (granted c) (fst ` led c) H \<and>
     (\<forall>x \<in> led c. chief H (fst x) = Some (snd x)) \<and>
     (\<forall>x \<in> set (replies c). acked_reply H (fst (snd x)) (snd (snd x)))"

text \<open>After a move, the cluster is seen with the tasks that the move added.\<close>

lemma moved_cluster:
  assumes m: "moved M (cnodes c) (outs c) G (fst ` L) i n' H" and i: "i \<in> M"
    and led: "\<And>x. x \<in> led c' \<Longrightarrow> chief H (fst x) = Some (snd x) \<or> (role n' = LEADER \<and> x = (currentTerm n', i))"
    and c': "cnodes c' = (cnodes c)(i := n')" "granted c' = G" "fst ` led c' = fst ` L" "outs c' = outs (put_node i n' c)"
    and replies: "\<And>x. x \<in> set (replies c') \<Longrightarrow> acked_reply H (fst (snd x)) (snd (snd x))"
  shows "\<exists>H'. older H H' \<and> cluster_log M c' H'"
proof -
  obtain us H' where us: "rpcPool n' = rpcPool (cnodes c i) @ us" "older H H'"
      "log_inv M ((cnodes c)(i := n')) ((outs c)(i := outs c i + mset us)) G (fst ` L) H'"
    using m unfolding moved_def by blast
  have "chief H' (fst x) = Some (snd x)" if "x \<in> led c'" for x
    using led [OF that]
  proof
    assume "chief H (fst x) = Some (snd x)"
    then show ?thesis using us(2) by (simp add: older_def)
  next
    assume "role n' = LEADER \<and> x = (currentTerm n', i)"
    then show ?thesis using log_invD(2) [OF us(3) i] by (simp add: book_fine_def)
  qed
  then have "cluster_log M c' H'"
    using us(3) c' outs_put [OF us(1)] replies acked_reply_older [OF _ us(2)] unfolding cluster_log_def by metis
  then show ?thesis using us(2) by blast
qed

lemma log_local:
  assumes inv: "cluster_inv M c" and lg: "cluster_log M c H" and s: "i \<in> M" "calm env" "internal ev"
    "run_event env ev (cnodes c i) = (out, n')" "alive out" "len (log n') \<le> INT_MAX"
  shows "\<exists>H'. older H H' \<and> cluster_log M (put_node i n' c) H'"
proof -
  have e: "election_inv M (cnodes c) (outs c) (granted c) (led c)" using inv by (simp add: cluster_inv_def)
  have E: "election_inv M ((cnodes c)(i := n')) (outs (put_node i n' c)) (granted c)
      (if role n' = LEADER then insert (currentTerm n', i) (led c) else led c)"
    using cluster_local [OF inv s(1-5)] by (simp add: cluster_inv_def)
  have l: "log_inv M (cnodes c) (outs c) (granted c) (fst ` led c) H" using lg by (simp add: cluster_log_def)
  show ?thesis
    by (rule moved_cluster [OF moved_internal [OF e l s(1) internal_effect [OF s(2-5)] s(6) E] s(1)])
       (use lg in \<open>auto simp: cluster_log_def split: if_splits\<close>)
qed

lemma log_deliver:
  assumes inv: "cluster_inv M c" and lg: "cluster_log M c H" and k: "k < length (calls c)" "calls c ! k = (i, t)" and env: "calm env"
    and r: "receive env t (cnodes c (task_peer t)) = (out, n')" "alive out" "reply_of out resp"
  shows "\<exists>H'. older H H' \<and> cluster_log M (add_vote t (task_peer t) i out
    (put_node (task_peer t) n' (c\<lparr>calls := drop_nth k (calls c), replies := (i, t, resp) # replies c\<rparr>))) H'"
proof -
  let ?j = "task_peer t" and ?c1 = "c\<lparr>calls := drop_nth k (calls c), replies := (i, t, resp) # replies c\<rparr>"
  let ?c' = "add_vote t ?j i out (put_node ?j n' ?c1)"
  have e: "election_inv M (cnodes c) (outs c) (granted c) (led c)" and i: "i \<in> M"
    using inv k nth_mem [OF k(1)] by (auto simp: cluster_inv_def)
  have t: "t \<in># outs c i"
    using k nth_mem [OF k(1)] by (force simp: outs_def)
  have j: "?j \<in> M" using election_invD(6) [OF e i] t by (cases t) auto
  have l: "log_inv M (cnodes c) (outs c) (granted c) (fst ` led c) H" using lg by (simp add: cluster_log_def)
  have outs: "outs ?c1 = outs c" by (rule outs_answer [OF k])
  have step: "\<exists>H1. older H H1 \<and> moved M (cnodes c) (outs c) (votes_after t ?j i out (granted c)) (fst ` led c) ?j n' H1 \<and>
      acked_reply H1 t out \<and> (role n' = LEADER \<longrightarrow> role (cnodes c ?j) = LEADER \<and> currentTerm n' = currentTerm (cnodes c ?j))"
  proof (cases "is_vote t")
    case True
    then have "onRequestVote env (json_norm (task_params t)) (cnodes c ?j) = (out, n')" using r(1) by (simp add: receive_def)
    from moved_vote [OF e l i t True env this r(2)] show ?thesis
      using True by (intro exI [of _ H]) (simp add: acked_reply_def)
  next
    case False
    then have a: "onAppendEntries env (json_norm (task_params t)) (cnodes c ?j) = (out, n')" using r(1) by (simp add: receive_def)
    have "votes_after t ?j i out (granted c) = granted c" using False by (auto simp: votes_after_def split: outcome.split)
    then show ?thesis using moved_append [OF e l i t False env a] by auto
  qed
  then obtain H1 where H1: "older H H1" "moved M (cnodes c) (outs c) (votes_after t ?j i out (granted c)) (fst ` led c) ?j n' H1"
      "acked_reply H1 t out" "role n' = LEADER \<longrightarrow> role (cnodes c ?j) = LEADER \<and> currentTerm n' = currentTerm (cnodes c ?j)" by blast
  have led: "fst ` led ?c' = fst ` led c" using leader_term [OF e j] H1(4) by force
  have old: "acked_reply H1 (fst (snd x)) (snd (snd x))" if "x \<in> set (replies c)" for x
    using lg that acked_reply_older [OF _ H1(1)] by (simp add: cluster_log_def)
  have "\<exists>H'. older H1 H' \<and> cluster_log M ?c' H'"
  proof (rule moved_cluster [where c = ?c1 and L = "led c"])
    show "moved M (cnodes ?c1) (outs ?c1) (votes_after t ?j i out (granted c)) (fst ` led c) ?j n' H1"
      using H1(2) by (simp add: outs)
    show "acked_reply H1 (fst (snd x)) (snd (snd x))" if "x \<in> set (replies ?c')" for x
      using that old [of x] acked_reply_of [OF H1(3) r(3)] by (cases "x = (i, t, resp)") simp_all
    show "chief H1 (fst x) = Some (snd x) \<or> (role n' = LEADER \<and> x = (currentTerm n', ?j))" if "x \<in> led ?c'" for x
    proof (cases "x \<in> led c")
      case True
      then show ?thesis using lg H1(1) by (simp add: cluster_log_def older_def)
    qed (use that in \<open>auto split: if_splits\<close>)
  qed (use led j in simp_all)
  then show ?thesis using older_trans [OF H1(1)] by blast
qed

lemma log_respond:
  assumes inv: "cluster_inv M c" and lg: "cluster_log M c H" and k: "k < length (replies c)" "replies c ! k = (i, t, resp)"
    and env: "calm env" and r: "run_task env t resp (cnodes c i) = (out, n')"
  shows "\<exists>H'. older H H' \<and> cluster_log M (put_node i n' (c\<lparr>replies := drop_nth k (replies c)\<rparr>)) H'"
proof -
  let ?c1 = "c\<lparr>replies := drop_nth k (replies c)\<rparr>"
  have mem: "(i, t, resp) \<in> set (replies c)" using k nth_mem by metis
  have e0: "election_inv M (cnodes c) (outs c) (granted c) (led c)" and i: "i \<in> M"
    using inv mem by (auto simp: cluster_inv_def)
  have T: "outs c i = add_mset t (outs ?c1 i)" and T1: "(outs c)(i := outs ?c1 i) = outs ?c1"
    using outs_respond [OF k] by (metis fun_upd_same, metis fun_upd_triv fun_upd_upd)
  have e: "election_inv M (cnodes ?c1) (outs ?c1) (granted ?c1) (led ?c1)"
    using inv_quiet [OF e0 i refl, of "outs ?c1 i"] T T1 by simp
  have l0: "log_inv M (cnodes c) (outs c) (granted c) (fst ` led c) H" using lg by (simp add: cluster_log_def)
  have "log_inv M ((cnodes c)(i := cnodes c i)) ((outs c)(i := outs ?c1 i)) (granted c) (fst ` led c) H"
    by (rule log_view [OF l0 election_invD(2) [OF e0 i] i refl]) (use T in simp)
  then have l: "log_inv M (cnodes ?c1) (outs ?c1) (granted ?c1) (fst ` led ?c1) H" using T1 by simp
  have E: "election_inv M ((cnodes ?c1)(i := n')) (outs (put_node i n' ?c1)) (granted ?c1)
      (if role n' = LEADER then insert (currentTerm n', i) (led ?c1) else led ?c1)"
    using cluster_respond [OF inv k env r] by (simp add: cluster_inv_def)
  have peer: "task_peer t \<in> set (peer_ids (cnodes ?c1 i))" if "\<not> is_vote t"
  proof -
    have "task_fine M (led c) i (cnodes c i) t" using election_invD(6) [OF e0 i] T by simp
    then have "task_peer t \<in> M - {i}" using that by (cases t) auto
    then show ?thesis using peers_other [OF election_invD(1) [OF e0 i]] by simp
  qed
  have ack: "acked_reply H t resp" using lg mem by (auto simp: cluster_log_def)
  have n': "n' = snd (run_task env t resp (cnodes ?c1 i))" using r by simp
  show ?thesis
    by (rule moved_cluster [OF moved_response [OF e l i env peer ack n' E] i])
       (use lg in \<open>auto simp: cluster_log_def dest: in_drop_nth split: if_splits\<close>)
qed

lemma cluster_step_log:
  "cluster_step M c c' \<Longrightarrow> cluster_inv M c \<Longrightarrow> cluster_log M c H \<Longrightarrow> \<exists>H'. older H H' \<and> cluster_log M c' H'"
proof (induction rule: cluster_step.induct)
  case (local i env ev c out n')
  then show ?case by (simp add: log_local)
next
  case (take_task i c t ts)
  let ?n = "(cnodes c i)\<lparr>rpcPool := ts\<rparr>"
  let ?c' = "c\<lparr>cnodes := (cnodes c)(i := ?n), calls := (i, t) # calls c\<rparr>"
  have "election_inv M (cnodes c) (outs c) (granted c) (led c)" using take_task by (simp add: cluster_inv_def)
  then have "log_inv M ((cnodes c)(i := ?n)) ((outs c)(i := outs c i)) (granted c) (fst ` led c) H"
    using take_task by (intro log_view election_invD(2)) (simp_all add: cluster_log_def view_def peer_ids_def)
  moreover have "outs ?c' = outs c"
    using take_task(2) by (auto simp: outs_def fun_eq_iff)
  ultimately have "cluster_log M ?c' H" using take_task(4) by (simp add: cluster_log_def)
  then show ?case using older_refl by blast
next
  case (deliver k c i t env out n' resp)
  then show ?case by (simp add: log_deliver)
next
  case (lose k c i t w)
  then have "cluster_log M (c\<lparr>calls := drop_nth k (calls c), replies := (i, t, Ok (error_json w)) # replies c\<rparr>) H"
    using outs_answer [OF lose(1,2)] by (simp add: cluster_log_def)
  then show ?case using older_refl by blast
next
  case (respond k c i t resp env out n')
  then show ?case by (simp add: log_respond)
qed

definition history_start :: history where
  "history_start = \<lparr>glog = (\<lambda>t. []), gbase = (\<lambda>t. 0), acked = (\<lambda>t v. 0), chief = (\<lambda>t. None)\<rparr>"

lemma cluster_start_log: "cluster_start M c \<Longrightarrow> cluster_log M c history_start"
proof -
  assume c: "cluster_start M c"
  have n: "currentTerm (cnodes c i) = 0" "role (cnodes c i) = FOLLOWER" "rpcPool (cnodes c i) = []" "log (cnodes c i) = []"
      "matchIndex (cnodes c i) = []" if i: "i \<in> M" for i
  proof -
    obtain env port peers where "cnodes c i = raft_start env (raft_node_new i port peers)"
      using c i unfolding cluster_start_def by blast
    then show "currentTerm (cnodes c i) = 0" "role (cnodes c i) = FOLLOWER" "rpcPool (cnodes c i) = []" "log (cnodes c i) = []"
        "matchIndex (cnodes c i) = []"
      by (simp_all add: raft_start_def raft_node_new_def resetElectionTimer_def Let_def)
  qed
  have s: "calls c = []" "replies c = []" "granted c = {}" "led c = {}"
    using c by (simp_all add: cluster_start_def)
  have o: "outs c i = {#}" if "i \<in> M" for i
    using n(3) [OF that] s by (simp add: outs_def)
  show ?thesis
    using n s o
    by (auto simp: cluster_log_def log_inv_def history_fine_def book_fine_def acks_fine_def votes_log_def elected_fine_def
        history_start_def backed_def keeps_acks_def own_def)
qed

lemma cluster_steps_log:
  "(cluster_step M)\<^sup>*\<^sup>* c c' \<Longrightarrow> cluster_inv M c \<Longrightarrow> cluster_log M c H \<Longrightarrow> \<exists>H'. older H H' \<and> cluster_log M c' H'"
proof (induction rule: rtranclp_induct)
  case (step c1 c2)
  then show ?case using cluster_step_log [OF step.hyps(2) cluster_steps_inv [OF step.hyps(1)]] older_trans by blast
qed (use older_refl in blast)

lemma cluster_reachable_log: "cluster_reachable M c \<Longrightarrow> \<exists>H. cluster_log M c H"
  using cluster_start_log cluster_start_inv cluster_steps_log unfolding cluster_reachable_def by blast

section \<open>What the invariant gives\<close>

lemma reachable_matching:
  assumes "cluster_reachable M c" "i \<in> M" "j \<in> M"
  shows "log_matching (log (cnodes c i)) (log (cnodes c j))"
proof -
  obtain H where "log_inv M (cnodes c) (outs c) (granted c) (fst ` led c) H"
    using cluster_reachable_log [OF assms(1)] by (auto simp: cluster_log_def)
  then show ?thesis using log_invD(2) assms(2,3) backed_matching by (metis book_fine_def)
qed

text \<open>The index that a leader may commit is acknowledged by a majority.\<close>

lemma committable_decided:
  assumes e: "election_inv M N T G L" and inv: "log_inv M N T G LT H" and i: "i \<in> M" and lead: "role (N i) = LEADER"
    and k: "k < length (log (N i))" "committable (N i) (int k)"
  shows "decided M H (currentTerm (N i)) (Suc k)"
  unfolding decided_def
proof
  let ?t = "currentTerm (N i)" and ?m = "matchIndex (N i)"
  have b: "log (N i) = glog H ?t" "acked H ?t i = length (log (N i))" "distinct (map fst ?m)" "fst ` set ?m \<subseteq> set (peer_ids (N i))"
      "\<And>p m. (p, m) \<in> set ?m \<Longrightarrow> nat (m + 1) \<le> acked H ?t p"
    using log_invD(2) [OF inv i] lead unfolding book_fine_def by blast+
  show "own H ?t (Suc k)" using k b(1) by (auto simp: own_def committable_def)
  have conf: "configured M i (N i)" using election_invD(1) [OF e i] by (simp add: node_fine_def)
  define P where "P = fst ` set (filter (\<lambda>p. int k \<le> snd p) ?m)"
  have sub: "P \<subseteq> M - {i}" using b(4) peers_other [OF election_invD(1) [OF e i]] by (auto simp: P_def)
  have "distinct (map fst (filter (\<lambda>p. int k \<le> snd p) ?m))" using b(3) by (simp add: distinct_map_filter)
  then have card: "card P = length (filter (\<lambda>p. int k \<le> snd p) ?m)"
    unfolding P_def by (metis distinct_card length_map list.set_map)
  have fin: "finite P" "i \<notin> P" using sub by (auto simp: P_def)
  have "majority (N i) \<le> 1 + int (card P)" using k(2) card by (simp add: committable_def replication_count_def)
  then have "card M div 2 + 1 \<le> card (insert i P)"
    using configured_majority [OF conf i election_invD(5) [OF e i]] fin by simp
  moreover have "Suc k \<le> acked H ?t v" if "v \<in> insert i P" for v
  proof (cases "v = i")
    case False
    then have "v \<in> P" using that by simp
    then obtain m where "(v, m) \<in> set ?m" "int k \<le> m" by (auto simp: P_def)
    then show ?thesis using b(5) [of v m] by linarith
  qed (use b(2) k(1) in simp)
  moreover have "card M < 2 * (card M div 2 + 1)" by simp
  ultimately show "\<exists>Q \<subseteq> M. card M < card Q + (card M div 2 + 1) \<and> (\<forall>v \<in> Q. Suc k \<le> acked H ?t v)"
    using sub i by (intro exI [of _ "insert i P"]) auto
qed

lemma own_older: "own H t m \<Longrightarrow> older H H' \<Longrightarrow> own H' t m"
proof -
  assume o: "own H t m" and "older H H'"
  then have p: "prefix (glog H t) (glog H' t)" by (simp add: older_def)
  have "m - 1 < length (glog H t)" using o by (auto simp: own_def)
  then show "own H' t m" using o prefix_nth [OF p] prefix_length_le [OF p] by (simp add: own_def)
qed

lemma decided_older: "decided M H t m \<Longrightarrow> older H H' \<Longrightarrow> decided M H' t m"
  using own_older unfolding decided_def older_def by (meson order_trans)

lemma committed_kept:
  assumes reach: "cluster_reachable M c" and steps: "(cluster_step M)\<^sup>*\<^sup>* c c'" and i: "i \<in> M" "j \<in> M"
    and lead: "role (cnodes c i) = LEADER" "role (cnodes c' j) = LEADER" "currentTerm (cnodes c i) < currentTerm (cnodes c' j)"
    and k: "k < length (log (cnodes c i))" "committable (cnodes c i) (int k)"
  shows "k < length (log (cnodes c' j)) \<and> take (Suc k) (log (cnodes c' j)) = take (Suc k) (log (cnodes c i))"
proof -
  let ?t = "currentTerm (cnodes c i)" and ?w = "currentTerm (cnodes c' j)"
  have ci: "cluster_inv M c" by (rule cluster_reachable_inv [OF reach])
  then have e: "election_inv M (cnodes c) (outs c) (granted c) (led c)" by (simp add: cluster_inv_def)
  have e': "election_inv M (cnodes c') (outs c') (granted c') (led c')"
    using cluster_steps_inv [OF steps ci] by (simp add: cluster_inv_def)
  obtain H where H: "cluster_log M c H" using cluster_reachable_log [OF reach] by blast
  obtain H' where H': "older H H'" "cluster_log M c' H'" using cluster_steps_log [OF steps ci H] by blast
  have inv: "log_inv M (cnodes c) (outs c) (granted c) (fst ` led c) H" and
      inv': "log_inv M (cnodes c') (outs c') (granted c') (fst ` led c') H'"
    using H H'(2) by (simp_all add: cluster_log_def)
  have dec: "decided M H ?t (Suc k)" by (rule committable_decided [OF e inv i(1) lead(1) k])
  have p: "prefix (glog H ?t) (glog H' ?t)" using H'(1) by (simp add: older_def)
  have len: "Suc k \<le> length (glog H ?t)" using dec by (simp add: decided_def own_def)
  have "?w \<in> fst ` led c'" using leader_term [OF e' i(2) lead(2)] by force
  then have "safe H' ?w ?t (Suc k)"
    by (rule decided_safe [OF log_invD(6) [OF inv'] election_invD(5) [OF e' i(2)] decided_older [OF dec H'(1)] _ lead(3)])
  moreover have "glog H' ?w = log (cnodes c' j)" "glog H ?t = log (cnodes c i)"
    using log_invD(2) [OF inv' i(2)] log_invD(2) [OF inv i(1)] lead(1,2) by (simp_all add: book_fine_def)
  moreover have "take (Suc k) (glog H' ?t) = take (Suc k) (glog H ?t)" by (rule prefix_take [OF p len])
  ultimately show ?thesis by (auto simp: safe_def has_def min_def split: if_splits)
qed

end
