(* ===== verification/Raft_Ledger.thy ===== *)
theory Raft_Ledger imports Raft_Completeness begin

text \<open>
  What the operations of a node do to its ledger: the next indices of its peers, the commit index,
  the number of entries applied and the table they made. The table of a node is always the
  replay of the entries it has applied, and a commit index only moves by the commit rule or to
  what a leader has announced.
\<close>

section \<open>The ledger of a node\<close>

definition ledger :: "raft_node \<Rightarrow> log_entry list \<times> (string \<times> int) list \<times> int \<times> int \<times> node_table" where
  "ledger n = (log n, nextIndex n, commitIndex n, lastApplied n, stateMachine n)"

lemma ledger_eq:
  "ledger n' = ledger n \<longleftrightarrow>
     log n' = log n \<and> nextIndex n' = nextIndex n \<and> commitIndex n' = commitIndex n \<and>
     lastApplied n' = lastApplied n \<and> stateMachine n' = stateMachine n"
  by (simp add: ledger_def)

text \<open>The table is the replay of the first entries of the log, each applied at some time.\<close>

definition replayed :: "log_entry list \<Rightarrow> node_table \<Rightarrow> bool" where
  "replayed es tab \<longleftrightarrow> (\<exists>times. length times = length es \<and> tab = replay (zip times (map command es)) [])"

definition ledger_fine :: "raft_node \<Rightarrow> bool" where
  "ledger_fine n \<longleftrightarrow>
     -1 \<le> commitIndex n \<and> commitIndex n < len (log n) \<and> -1 \<le> lastApplied n \<and> lastApplied n \<le> commitIndex n \<and>
     replayed (take (nat (lastApplied n + 1)) (log n)) (stateMachine n)"

lemma ledger_fine_same: "ledger n' = ledger n \<Longrightarrow> ledger_fine n' = ledger_fine n"
  by (simp add: ledger_eq ledger_fine_def)

text \<open>A log that keeps what is committed keeps the ledger in order.\<close>

lemma ledger_fine_log:
  assumes "ledger_fine n" "take (nat (commitIndex n + 1)) lg = take (nat (commitIndex n + 1)) (log n)"
  shows "ledger_fine (n\<lparr>log := lg\<rparr>)"
proof -
  have l: "nat (lastApplied n + 1) \<le> nat (commitIndex n + 1)" "nat (commitIndex n + 1) \<le> length (log n)"
    using assms(1) by (auto simp: ledger_fine_def)
  have "length (take (nat (commitIndex n + 1)) lg) = nat (commitIndex n + 1)" using assms(2) l(2) by simp
  then have "nat (commitIndex n + 1) \<le> length lg" by simp
  moreover have "take (nat (lastApplied n + 1)) lg = take (nat (lastApplied n + 1)) (log n)"
    using take_eq_le [OF assms(2) l(1)] .
  ultimately show ?thesis using assms(1) by (auto simp: ledger_fine_def)
qed

lemma replayed_snoc: "replayed es tab \<Longrightarrow> replayed (es @ [e]) (snd (sm_apply now (command e) tab))"
proof -
  assume "replayed es tab"
  then obtain times where "length times = length es" "tab = replay (zip times (map command es)) []"
    unfolding replayed_def by blast
  then show ?thesis
    unfolding replayed_def by (intro exI [of _ "times @ [now]"]) (simp add: replay_def)
qed

lemma ledger_apply_loop:
  "ledger_fine n \<Longrightarrow> ledger_fine (snd (apply_loop env n)) \<and>
   commitIndex (snd (apply_loop env n)) = commitIndex n \<and> nextIndex (snd (apply_loop env n)) = nextIndex n"
proof (induction env n rule: apply_loop.induct)
  case (1 env n)
  show ?case
  proof (cases "lastApplied n < commitIndex n")
    case False
    then show ?thesis using 1(2) by (simp add: apply_loop.simps [of env n])
  next
    case True
    let ?i = "lastApplied n + 1"
    let ?r = "sm_apply (clock env (nat ?i)) (command (log n ! nat ?i)) (stateMachine n)"
    let ?n1 = "n\<lparr>lastApplied := ?i, stateMachine := snd ?r\<rparr>"
    have i: "\<not> ?i < 0" "\<not> len (log n) \<le> ?i" "nat ?i < length (log n)" "nat (?i + 1) = Suc (nat ?i)"
      using 1(2) True by (auto simp: ledger_fine_def)
    have "replayed (take (nat ?i) (log n) @ [log n ! nat ?i]) (snd ?r)"
      using 1(2) by (intro replayed_snoc) (simp add: ledger_fine_def)
    then have "replayed (take (nat (?i + 1)) (log n)) (snd ?r)"
      unfolding i(4) using i(3) by (simp add: take_Suc_conv_app_nth)
    then have fine: "ledger_fine ?n1" using 1(2) True by (simp add: ledger_fine_def)
    have IH: "ledger_fine (snd (apply_loop env ?n1)) \<and> commitIndex (snd (apply_loop env ?n1)) = commitIndex n \<and>
        nextIndex (snd (apply_loop env ?n1)) = nextIndex n" if "fst ?r = Ok u" for u
      using 1(1) [OF True refl refl, of "Ok u" "snd ?r" u] that i fine by (simp add: prod_eq_iff)
    have "snd (apply_loop env n) = (case fst ?r of Ok u \<Rightarrow> snd (apply_loop env ?n1) | _ \<Rightarrow> ?n1)"
      using True i by (subst apply_loop.simps) (auto simp: Let_def split: prod.split outcome.split)
    then show ?thesis using IH fine by (cases "fst ?r") simp_all
  qed
qed

text \<open>The commit index stays, or moves up to an index that the rule allows.\<close>

definition commits :: "raft_node \<Rightarrow> raft_node \<Rightarrow> bool" where
  "commits n n' \<longleftrightarrow>
     commitIndex n' = commitIndex n \<or> (commitIndex n < commitIndex n' \<and> committable n (commitIndex n'))"

lemma commits_refl [simp]: "commits n n"
  by (simp add: commits_def)

lemma committable_same: "face n' = face n \<Longrightarrow> book n' = book n \<Longrightarrow> committable n' k = committable n k"
  by (simp add: committable_def replication_count_def majority_def face_eq book_eq)

lemma ledger_apply:
  assumes "ledger_fine n"
  shows "ledger_fine (snd (applyStateMachine env n)) \<and> commits n (snd (applyStateMachine env n)) \<and>
    nextIndex (snd (applyStateMachine env n)) = nextIndex n"
proof -
  have "-1 \<le> commitIndex n" using assms by (simp add: ledger_fine_def)
  then obtain c where c: "commit_scan n (len (log n) - 1) = Ok c" "highest_committable n (len (log n) - 1) c"
    using commit_scan_correct by blast
  then have "ledger_fine (n\<lparr>commitIndex := c\<rparr>)"
    using assms by (auto simp: ledger_fine_def highest_committable_def)
  from ledger_apply_loop [OF this, of env] show ?thesis
    using c by (auto simp: applyStateMachine_def commits_def highest_committable_def)
qed

section \<open>Sending\<close>

text \<open>A request that a leader has sent, as far as its ledger is concerned.\<close>

definition posted_by :: "raft_node \<Rightarrow> task \<Rightarrow> bool" where
  "posted_by n t \<longleftrightarrow>
     \<not> is_vote t \<and> role n = LEADER \<and> task_term t = currentTerm n \<and> task_peer t \<in> set (peer_ids n) \<and>
     map_of (nextIndex n) (task_peer t) = Some (task_next t) \<and> task_count t = len (batch (log n) (task_next t)) \<and>
     json_at (task_params t) ''prevLogTerm'' = Ok (JInteger (prev_term n (task_next t))) \<and>
     json_at (task_params t) ''leaderCommit'' = Ok (JInteger (commitIndex n))"

lemma posted_by_same: "ledger n' = ledger n \<Longrightarrow> face n' = face n \<Longrightarrow> posted_by n' t = posted_by n t"
  by (simp add: ledger_eq face_eq posted_by_def peer_ids_def prev_term_def)

definition posts :: "raft_node \<Rightarrow> raft_node \<Rightarrow> bool" where
  "posts n n' \<longleftrightarrow>
     ledger_fine n' \<and> commits n n' \<and> nextIndex n' = nextIndex n \<and>
     (\<exists>us. rpcPool n' = rpcPool n @ us \<and> (\<forall>t \<in> set us. posted_by n' t))"

text \<open>Every peer of the node has a next index.\<close>

definition keyed :: "raft_node \<Rightarrow> bool" where
  "keyed n \<longleftrightarrow> (\<forall>p \<in> set (peer_ids n). map_of (nextIndex n) p \<noteq> None)"

lemma posts_refl: "ledger_fine n \<Longrightarrow> posts n n"
  by (simp add: posts_def)

lemma posts_quiet:
  assumes "posts n n1" "ledger n2 = ledger n1" "face n2 = face n1" "rpcPool n2 = rpcPool n1"
  shows "posts n n2"
proof -
  have "posted_by n2 t = posted_by n1 t" for t by (rule posted_by_same [OF assms(2,3)])
  moreover have "ledger_fine n2 = ledger_fine n1" by (rule ledger_fine_same [OF assms(2)])
  ultimately show ?thesis using assms(1,4) assms(2) [unfolded ledger_eq] by (simp add: posts_def commits_def)
qed

lemma pool_apply: "rpcPool (snd (applyStateMachine env n)) = rpcPool n"
  using quiet_apply_loop [of env] by (auto simp: applyStateMachine_def split: outcome.split)

lemma posts_apply: "ledger_fine n \<Longrightarrow> posts n (snd (applyStateMachine env n))"
proof -
  assume "ledger_fine n"
  moreover have "rpcPool (snd (applyStateMachine env n)) = rpcPool n"
    by (rule pool_apply)
  ultimately show ?thesis using ledger_apply by (simp add: posts_def)
qed

text \<open>Applying twice.\<close>

lemma posts_apply_again:
  assumes "posts n n1" "sent n n1" "rpcPool n1 = rpcPool n"
  shows "posts n (snd (applyStateMachine env n1))"
proof -
  let ?n2 = "snd (applyStateMachine env n1)"
  have "posts n1 ?n2" using assms(1) by (intro posts_apply) (simp add: posts_def)
  moreover have "committable n1 k = committable n k" for k
    using sent_same [OF assms(2)] by (intro committable_same) simp_all
  ultimately have "commits n ?n2" "ledger_fine ?n2" "nextIndex ?n2 = nextIndex n"
    using assms(1) by (auto simp: posts_def commits_def)
  moreover have "rpcPool ?n2 = rpcPool n" using pool_apply assms(3) by simp
  ultimately show ?thesis by (simp add: posts_def)
qed

lemma append_loop_posts:
  "append_maker mk \<Longrightarrow> role n = LEADER \<Longrightarrow> keyed n \<Longrightarrow> set specs \<subseteq> set (peerAddrs n) \<Longrightarrow>
   \<exists>us. snd (append_loop mk specs n) = n\<lparr>rpcPool := rpcPool n @ us\<rparr> \<and> (\<forall>t \<in> set us. posted_by n t)"
proof (induction mk specs n rule: append_loop.induct)
  case (1 mk n)
  then show ?case by (intro exI [of _ "[]"]) simp
next
  case (2 mk spec specs n)
  have unchanged: ?case if "snd (append_loop mk (spec # specs) n) = n"
    using that by (intro exI [of _ "[]"]) simp
  show ?case
  proof (cases "split_peer spec")
    case None
    then show ?thesis using 2 by simp
  next
    case (Some q)
    obtain p portText where q: "q = (p, portText)" by force
    have peer: "p \<in> set (peer_ids n)" using peer_idsI [of spec n p portText] 2(6) Some q by simp
    then obtain i where i: "map_of (nextIndex n) p = Some i" using 2(5) by (auto simp: keyed_def)
    then have ref: "index_ref p (nextIndex n) = (i, nextIndex n)" by (simp add: index_ref_def)
    show ?thesis
    proof (cases "stoi portText")
      case (Ok port)
      show ?thesis
      proof (cases "collect_entries (log n) i MAX_ENTRIES_PER_RPC")
        case js: (Ok js)
        let ?t = "mk p port (append_params n i js) (currentTerm n) i (len js)"
        let ?n1 = "enqueue ?t n"
        note mk = 2(3) [unfolded append_maker_def, rule_format]
        have "0 \<le> i" using js by (cases "0 \<le> i") (auto simp: MAX_ENTRIES_PER_RPC_def numeral_nat)
        then have "js = map entry_json (batch (log n) i)"
          using js collect_entries_batch [of i "log n" MAX_ENTRIES_PER_RPC] by (simp add: batch_def)
        then have "len js = len (batch (log n) i)" by simp
        then have t: "posted_by n ?t"
          using 2(4) peer i by (simp add: posted_by_def mk append_params_at)
        have same: "posted_by ?n1 t = posted_by n t" for t
          by (rule posted_by_same) (simp_all add: enqueue_def ledger_eq)
        have "set specs \<subseteq> set (peerAddrs ?n1)" "role ?n1 = LEADER" "keyed ?n1"
          using 2(4-6) by (simp_all add: enqueue_def keyed_def peer_ids_def)
        then have "\<exists>us. snd (append_loop mk specs ?n1) = ?n1\<lparr>rpcPool := rpcPool ?n1 @ us\<rparr> \<and> (\<forall>t \<in> set us. posted_by ?n1 t)"
          using 2(2) [OF Some q [symmetric] Ok ref [symmetric] refl] 2(3) js by simp
        then obtain us where us: "snd (append_loop mk specs ?n1) = ?n1\<lparr>rpcPool := rpcPool ?n1 @ us\<rparr>"
            "\<forall>t \<in> set us. posted_by ?n1 t" by blast
        have "snd (append_loop mk (spec # specs) n) = n\<lparr>rpcPool := rpcPool n @ (?t # us)\<rparr>"
          using Some q Ok ref js us(1) by (simp add: enqueue_def)
        then show ?thesis using us(2) t same by (intro exI [of _ "?t # us"]) simp
      qed (rule unchanged, simp add: Some q Ok ref)+
    qed (rule unchanged, simp add: Some q)+
  qed
qed

lemma posts_append_loop:
  assumes "append_maker mk" "role n = LEADER" "keyed n" "ledger_fine n"
  shows "posts n (snd (append_loop mk (peerAddrs n) n))"
proof -
  obtain us where us: "snd (append_loop mk (peerAddrs n) n) = n\<lparr>rpcPool := rpcPool n @ us\<rparr>" "\<forall>t \<in> set us. posted_by n t"
    using append_loop_posts [OF assms(1-3)] by blast
  have l: "ledger (n\<lparr>rpcPool := ts\<rparr>) = ledger n" for ts by (simp add: ledger_eq)
  then have "posted_by (n\<lparr>rpcPool := ts\<rparr>) t = posted_by n t" for ts t
    by (intro posted_by_same) simp_all
  then show ?thesis
    using us assms(4) l ledger_fine_same [OF l] by (simp add: posts_def commits_def)
qed

lemma posts_heartbeats:
  assumes "keyed n" "ledger_fine n"
  shows "posts n (snd (sendHeartbeatsInternal env n))"
proof (cases "role n = LEADER")
  case True
  define m where "m = (if peerAddrs n = [] then applyStateMachine env else append_loop HeartbeatTask (peerAddrs n))"
  have p: "posts n (snd (m n))"
    using posts_apply [OF assms(2)] posts_append_loop [OF append_makers(1) True assms] by (simp add: m_def)
  have "ledger (restart_heartbeat x) = ledger x" "face (restart_heartbeat x) = face x" "rpcPool (restart_heartbeat x) = rpcPool x" for x
    by (simp_all add: restart_heartbeat_def ledger_eq)
  then have "posts n (restart_heartbeat (snd (m n)))" using posts_quiet [OF p] by blast
  moreover have "snd (sendHeartbeatsInternal env n) = snd (m n) \<or> snd (sendHeartbeatsInternal env n) = restart_heartbeat (snd (m n))"
    using True by (cases "fst (m n)") (auto simp: sendHeartbeatsInternal_def m_def [symmetric] abind.simps modify_def split: prod.splits)
  ultimately show ?thesis using p by metis
qed (use assms posts_refl in \<open>simp add: sendHeartbeatsInternal_def\<close>)

section \<open>What a node does by itself\<close>

definition booked :: "raft_node \<Rightarrow> raft_node \<Rightarrow> bool" where
  "booked n n' \<longleftrightarrow>
     ledger_fine n' \<and>
     (commitIndex n' = commitIndex n \<or> (commitIndex n < commitIndex n' \<and> committable n' (commitIndex n'))) \<and>
     prefix (log n) (log n') \<and> (log n' = log n \<or> role n' = LEADER) \<and>
     (\<exists>us. rpcPool n' = rpcPool n @ us \<and> (\<forall>t \<in> set us. is_vote t \<or> posted_by n' t))"

text \<open>The next indices of a leader stay, or start at the end of its log.\<close>

definition fresh_index :: "raft_node \<Rightarrow> bool" where
  "fresh_index n \<longleftrightarrow> (\<forall>p \<in> set (peer_ids n). map_of (nextIndex n) p = Some (len (log n)))"

definition indexed :: "raft_node \<Rightarrow> raft_node \<Rightarrow> bool" where
  "indexed n n' \<longleftrightarrow>
     (role n' = LEADER \<longrightarrow>
        (role n = LEADER \<and> currentTerm n' = currentTerm n \<and> nextIndex n' = nextIndex n) \<or> fresh_index n')"

lemma posts_booked:
  assumes "posts n n'" "sent n n'"
  shows "booked n n' \<and> indexed n n'"
proof -
  have "face n' = face n" "book n' = book n" using sent_same [OF assms(2)] by simp_all
  then show ?thesis
    using assms(1) committable_same [of n' n] by (auto simp: posts_def commits_def booked_def indexed_def face_eq book_eq)
qed

lemma booked_from:
  assumes "ledger m = ledger n" "rpcPool m = rpcPool n" "booked m n'"
  shows "booked n n'"
  using assms by (simp add: booked_def ledger_eq)

lemma booked_same:
  assumes "ledger_fine n" "ledger n' = ledger n" "rpcPool n' = rpcPool n"
  shows "booked n n'"
  using assms ledger_fine_same [OF assms(2)] by (simp add: booked_def ledger_eq)

lemma booked_submit:
  assumes "ledger_fine n" "keyed n"
  shows "booked n (snd (submitCommand env c n)) \<and> indexed n (snd (submitCommand env c n))"
proof (cases "role n = LEADER")
  case True
  let ?m = "n\<lparr>log := log n @ [\<lparr>eterm = currentTerm n, command = c\<rparr>]\<rparr>"
  let ?n1 = "snd (replicateLogInternal env ?m)" and ?n' = "snd (submitCommand env c n)"
  have fine: "ledger_fine ?m"
    using assms(1) by (intro ledger_fine_log) (auto simp: ledger_fine_def)
  have keyed: "keyed ?m" using assms(2) by (simp add: keyed_def peer_ids_def)
  have p1: "posts ?m ?n1"
    using posts_apply [OF fine] posts_append_loop [OF append_makers(3) _ keyed fine] True
    by (simp add: replicateLogInternal_def)
  have s1: "sent ?m ?n1" using sends_replicate(1) by (simp add: sends_def)
  have "?n' = ?n1 \<or> (peerAddrs n = [] \<and> ?n' = snd (applyStateMachine env ?n1))"
    using True sent_same [OF s1]
    by (cases "fst (replicateLogInternal env ?m)")
       (auto simp: submitCommand_def abind.simps modify_def ret_def face_eq split: prod.splits outcome.splits)
  moreover have "posts ?m (snd (applyStateMachine env ?n1))" if "peerAddrs n = []"
  proof (rule posts_apply_again [OF p1 s1])
    show "rpcPool ?n1 = rpcPool ?m" using that True by (simp add: replicateLogInternal_def pool_apply)
  qed
  ultimately have p: "posts ?m ?n'" using p1 by metis
  have s: "sent ?m ?n'" using submitted_submit [OF True] by (simp add: submitted_def)
  have "booked ?m ?n' \<and> indexed ?m ?n'" by (rule posts_booked [OF p s])
  moreover have "role ?n' = LEADER" "log ?n' = log ?m" using sent_same [OF s] True by (simp_all add: face_eq book_eq)
  ultimately show ?thesis by (auto simp: booked_def indexed_def)
next
  case False
  then show ?thesis
    using booked_same [OF assms(1)] by (simp add: submitCommand_def indexed_def)
qed

lemma map_of_fold_update:
  "map_of (fold (\<lambda>p. AList.update p v) ps m) q = (if q \<in> set ps then Some v else map_of m q)"
  by (induction ps arbitrary: m) (auto simp: map_of_update)

lemma booked_becomeLeader:
  assumes "calm env" "role n \<noteq> LEADER" "ledger_fine n"
  shows "booked n (snd (becomeLeaderInternal env n)) \<and> fresh_index (snd (becomeLeaderInternal env n))"
proof -
  let ?n1 = "init_leader_state (n\<lparr>electionTimer := timer_cancel (electionTimer n), role := LEADER\<rparr>)"
  let ?n2 = "snd (sendHeartbeatsInternal env ?n1)" and ?n' = "snd (becomeLeaderInternal env n)"
  have fresh: "fresh_index ?n1"
    by (simp add: fresh_index_def init_leader_state_def Let_def peer_ids_def map_of_fold_update)
  have fine: "ledger_fine ?n1" using assms(3) by (simp add: init_leader_state_def Let_def ledger_fine_def)
  have "keyed ?n1" using fresh by (simp add: keyed_def fresh_index_def)
  then have p: "posts ?n1 ?n2" using fine by (rule posts_heartbeats)
  have s: "sent ?n1 ?n2" using sends_heartbeats by (simp add: sends_def)
  have q: "ledger (startDiscoveryService env x) = ledger x" for x
    by (simp add: startDiscoveryService_def ledger_eq split: option.split)
  have "posts ?n1 (startDiscoveryService env ?n2)" by (rule posts_quiet [OF p q]) simp_all
  moreover have "sent ?n1 (startDiscoveryService env ?n2)"
    using s by (rule sent_trans) (intro sentI, simp_all)
  moreover have "?n' = ?n2 \<or> ?n' = startDiscoveryService env ?n2"
    using assms(1,2) by (cases "fst (sendHeartbeatsInternal env ?n1)")
      (auto simp: becomeLeaderInternal_def abind.simps modify_def calm_def split: prod.splits)
  ultimately have "posts ?n1 ?n' \<and> sent ?n1 ?n'" using p s by metis
  then have n': "booked ?n1 ?n' \<and> indexed ?n1 ?n'" "face ?n' = face ?n1" "book ?n' = book ?n1" "nextIndex ?n' = nextIndex ?n1"
    using posts_booked sent_same by (blast, blast, blast, simp add: posts_def)
  have same: "log ?n1 = log n" "commitIndex ?n1 = commitIndex n" "rpcPool ?n1 = rpcPool n"
    by (simp_all add: init_leader_state_def Let_def)
  have "booked n ?n'" using n'(1) same by (simp add: booked_def)
  moreover have "fresh_index ?n'"
    using fresh n'(2-4) by (simp add: fresh_index_def face_eq book_eq peer_ids_def)
  ultimately show ?thesis by blast
qed

lemma booked_startElection:
  assumes "calm env" "role n \<noteq> LEADER" "ledger_fine n"
  shows "booked n (snd (startElection env n)) \<and> indexed n (snd (startElection env n))"
proof (cases "currentTerm n = INT_MAX")
  case True
  then show ?thesis using assms booked_same [of n n] by (simp add: startElection_def indexed_def)
next
  case False
  define n2 where "n2 = resetElectionTimer env (n\<lparr>role := CANDIDATE, currentTerm := currentTerm n + 1, votedFor := nodeId n\<rparr>)"
  define n3 where "n3 = n2\<lparr>elections := elections n2 @ [(1, False)]\<rparr>"
  have n3: "ledger n3 = ledger n" "rpcPool n3 = rpcPool n" "role n3 = CANDIDATE"
    by (simp_all add: n3_def n2_def ledger_eq resetElectionTimer_def Let_def)
  have eq: "startElection env n = (if 1 \<ge> majority n3 then becomeLeaderInternal env n3
      else vote_loop (length (elections n2)) (peerAddrs n3) n3)"
    using False by (simp add: startElection_def Let_def n3_def n2_def)
  have fine: "ledger_fine n3" using assms(3) ledger_fine_same [OF n3(1)] by simp
  show ?thesis
  proof (cases "1 \<ge> majority n3")
    case True
    then show ?thesis
      using booked_becomeLeader [OF assms(1) _ fine] n3 eq booked_from [OF n3(1,2)] by (simp add: indexed_def)
  next
    case False
    obtain ts zs where ts: "snd (vote_loop (length (elections n2)) (peerAddrs n3) n3) = n3\<lparr>rpcPool := rpcPool n3 @ ts\<rparr>"
        "\<forall>t \<in> set ts. vote_task n3 (length (elections n2)) t"
      using vote_loop_sends [of "peerAddrs n3" n3 "length (elections n2)"] by auto
    have "ledger (n3\<lparr>rpcPool := rpcPool n3 @ ts\<rparr>) = ledger n" using n3(1) by (simp add: ledger_eq)
    moreover have "\<forall>t \<in> set ts. is_vote t" using ts(2) by (auto simp: vote_task_def)
    ultimately have "booked n (n3\<lparr>rpcPool := rpcPool n3 @ ts\<rparr>)"
      using assms(3) ledger_fine_same [of "n3\<lparr>rpcPool := rpcPool n3 @ ts\<rparr>" n] n3(2) by (simp add: booked_def ledger_eq)
    then show ?thesis using False eq ts(1) n3(3) by (simp add: indexed_def)
  qed
qed

text \<open>Every event that the node meets by itself.\<close>

lemma booked_internal:
  assumes "calm env" "internal ev" "run_event env ev n = (out, n')" "ledger_fine n" "role n = LEADER \<Longrightarrow> keyed n"
  shows "booked n n' \<and> indexed n n'"
proof -
  have quiet: ?thesis if "ledger n' = ledger n" "rpcPool n' = rpcPool n" "face n' = face n"
    using booked_same [OF assms(4) that(1,2)] that(1,3) by (simp add: indexed_def ledger_eq face_eq)
  show ?thesis
  proof (cases ev)
    case (ElectionTimeout k)
    define m where "m = n\<lparr>electionTimer := timer_fire k (electionTimer n)\<rparr>"
    have m: "ledger m = ledger n" "rpcPool m = rpcPool n" "role m = role n" "face m = face n"
      by (simp_all add: m_def ledger_eq)
    show ?thesis
    proof (cases "k < length (due (electionTimer n)) \<and> role n \<noteq> LEADER")
      case True
      then have "n' = snd (startElection env m)"
        using assms(3) by (cases "role n") (auto simp: ElectionTimeout election_timeout_def election_callback_def m_def)
      moreover have "ledger_fine m" using assms(4) ledger_fine_same [OF m(1)] by simp
      ultimately show ?thesis
        using booked_startElection [OF assms(1), of m] True m booked_from [OF m(1,2)] by (auto simp: indexed_def)
    next
      case False
      then have "n' = n \<or> n' = m"
        using assms(3) by (cases "role n") (auto simp: ElectionTimeout election_timeout_def election_callback_def m_def split: if_splits)
      then show ?thesis using quiet m by auto
    qed
  next
    case (HeartbeatTimeout k)
    define m where "m = n\<lparr>heartbeatTimer := timer_fire k (heartbeatTimer n)\<rparr>"
    have m: "ledger m = ledger n" "rpcPool m = rpcPool n" "role m = role n" "face m = face n" "nextIndex m = nextIndex n"
        "currentTerm m = currentTerm n"
      by (simp_all add: m_def ledger_eq)
    show ?thesis
    proof (cases "k < length (due (heartbeatTimer n)) \<and> role n = LEADER")
      case True
      then have n': "n' = snd (sendHeartbeatsInternal env m)"
        using assms(3) by (auto simp: HeartbeatTimeout heartbeat_timeout_def heartbeat_callback_def m_def)
      have "ledger_fine m" using assms(4) ledger_fine_same [OF m(1)] by simp
      moreover have "keyed m" using assms(5) True m(4,5) by (simp add: keyed_def peer_ids_def face_eq)
      ultimately have "posts m n'" using n' posts_heartbeats by simp
      moreover have "sent m n'" using n' sends_heartbeats by (simp add: sends_def)
      ultimately have "booked m n' \<and> indexed m n'" by (rule posts_booked)
      then show ?thesis using booked_from [OF m(1,2)] m by (simp add: indexed_def)
    next
      case False
      then have "n' = n \<or> n' = m"
        using assms(3)
        by (auto simp: HeartbeatTimeout heartbeat_timeout_def heartbeat_callback_def sendHeartbeatsInternal_def m_def split: if_splits)
      then show ?thesis using quiet m by auto
    qed
  next
    case (CommandSubmitted c)
    then have n': "n' = snd (submitCommand env c n)"
      using assms(3) by (auto simp: no_result_def ret_def abind.simps split: prod.splits outcome.splits)
    show ?thesis
    proof (cases "role n = LEADER")
      case True
      then show ?thesis using booked_submit [OF assms(4) assms(5)] n' by blast
    qed (use n' quiet in \<open>simp add: submitCommand_def\<close>)
  qed (use assms(2,3) quiet in \<open>auto simp: modify_def election_wake_def heartbeat_wake_def ledger_eq\<close>)
qed

section \<open>Responses\<close>

lemma ledger_becomeFollower:
  assumes "calm env"
  shows "ledger (becomeFollower env t n) = ledger n" "rpcPool (becomeFollower env t n) = rpcPool n"
    "role (becomeFollower env t n) = FOLLOWER"
  using assms
  by (simp_all add: calm_def becomeFollower_def Let_def resetElectionTimer_def stopDiscoveryService_def ledger_eq)

lemma booked_stepped:
  assumes "calm env" "ledger_fine n"
  shows "booked n (becomeFollower env t n) \<and> indexed n (becomeFollower env t n)"
  using booked_same [OF assms(2)] ledger_becomeFollower [OF assms(1)] by (simp add: indexed_def)

lemma booked_stay: "ledger_fine n \<Longrightarrow> booked n n \<and> indexed n n"
  using booked_same [of n n] by (simp add: indexed_def)

lemma booked_count_vote:
  assumes "calm env" "role n = CANDIDATE" "ledger_fine n"
  shows "booked n (snd (count_vote env needed e n)) \<and> indexed n (snd (count_vote env needed e n))"
proof -
  obtain v w where vw: "elections n ! e = (v, w)" by force
  have l: "ledger (n\<lparr>elections := es\<rparr>) = ledger n" for es by (simp add: ledger_eq)
  have fine: "ledger_fine (n\<lparr>elections := es\<rparr>)" for es using assms(3) ledger_fine_same [OF l] by simp
  have lead: "booked n (snd (becomeLeaderInternal env (n\<lparr>elections := es\<rparr>))) \<and>
      fresh_index (snd (becomeLeaderInternal env (n\<lparr>elections := es\<rparr>)))" for es
    using booked_becomeLeader [OF assms(1) _ fine, of es] assms(2) by (auto intro: booked_from [OF l])
  have "booked n (n\<lparr>elections := es\<rparr>) \<and> indexed n (n\<lparr>elections := es\<rparr>)" for es
    using booked_same [OF assms(3) l] assms(2) by (simp add: indexed_def)
  then show ?thesis using lead vw by (simp add: count_vote_def indexed_def Let_def)
qed

lemma booked_vote_response:
  assumes "calm env" "ledger_fine n"
  shows "booked n (snd (vote_response env t needed e resp n)) \<and> indexed n (snd (vote_response env t needed e resp n))"
proof -
  have out: "booked n (snd (vote_outcome env t needed e rt g n)) \<and> indexed n (snd (vote_outcome env t needed e rt g n))" for rt g
    using booked_stepped [OF assms] booked_stay [OF assms(2)] booked_count_vote [OF assms(1) _ assms(2)]
    by (simp add: vote_outcome_def)
  then show ?thesis
    using booked_stay [OF assms(2)] unfolding vote_response_def snd_swallow
    by (auto simp: abind.simps lift_def ret_def split: prod.split outcome.split)
qed

text \<open>What a leader makes of the answer to a request of its term.\<close>

definition answered_by :: "task \<Rightarrow> json \<Rightarrow> raft_node \<Rightarrow> raft_node \<Rightarrow> bool" where
  "answered_by t r n n' \<longleftrightarrow>
     role n = LEADER \<and> role n' = LEADER \<and> currentTerm n' = currentTerm n \<and> currentTerm n = task_term t \<and>
     (\<exists>rt. int_at r ''term'' = Ok rt \<and> rt \<le> task_term t) \<and>
     (if reply_success r
      then 0 < task_count t \<and> nextIndex n' = AList.update (task_peer t) (task_next t + task_count t) (nextIndex n)
      else nextIndex n' = nextIndex n \<or> \<not> json_contains r ''conflictIndex'' \<or>
        (\<exists>ci. int_at r ''conflictIndex'' = Ok ci \<and> nextIndex n' = AList.update (task_peer t) (max 0 ci) (nextIndex n)))"

definition responded :: "task \<Rightarrow> json \<Rightarrow> raft_node \<Rightarrow> raft_node \<Rightarrow> bool" where
  "responded t r n n' \<longleftrightarrow> booked n n' \<and> (indexed n n' \<or> answered_by t r n n')"

lemma booked_replicated:
  assumes "ledger_fine n" "role n = LEADER"
  shows "booked n (snd (replicated env p i c n)) \<and> role (snd (replicated env p i c n)) = LEADER \<and>
    currentTerm (snd (replicated env p i c n)) = currentTerm n \<and>
    nextIndex (snd (replicated env p i c n)) = AList.update p (i + c) (nextIndex n)"
proof -
  let ?n1 = "n\<lparr>matchIndex := AList.update p (i + c - 1) (matchIndex n), nextIndex := AList.update p (i + c) (nextIndex n)\<rparr>"
  let ?n' = "snd (applyStateMachine env ?n1)"
  have "ledger_fine ?n1" using assms(1) by (simp add: ledger_fine_def)
  then have p: "posts ?n1 ?n'" by (rule posts_apply)
  have s: "sent ?n1 ?n'" using sends_apply by (simp add: sends_def)
  have "booked ?n1 ?n'" using posts_booked [OF p s] by blast
  then have "booked n ?n'" by (simp add: booked_def)
  then show ?thesis
    using p sent_same [OF s] assms(2) by (simp add: replicated_def Let_def posts_def face_eq)
qed

lemma backtrack_effect:
  assumes "ledger_fine n" "role n = LEADER" "map_of (nextIndex n) p \<noteq> None"
    and n': "n' = snd (backtrack p r n)"
  shows "booked n n' \<and> role n' = LEADER \<and> currentTerm n' = currentTerm n \<and>
    (nextIndex n' = nextIndex n \<or> \<not> json_contains r ''conflictIndex'' \<or>
     (\<exists>ci. int_at r ''conflictIndex'' = Ok ci \<and> nextIndex n' = AList.update p (max 0 ci) (nextIndex n)))"
proof -
  obtain i where i: "map_of (nextIndex n) p = Some i" using assms(3) by blast
  have b: "booked n (n\<lparr>nextIndex := m\<rparr>)" for m
    using assms(1) by (simp add: booked_def ledger_fine_def)
  then have "booked n n" using b [of "nextIndex n"] by simp
  then show ?thesis
    using b assms(2) i unfolding n'
    by (cases "int_at r ''conflictIndex''")
       (auto simp: backtrack_def index_ref_def Let_def abind.simps lift_def modify_def)
qed

lemma responded_lift:
  assumes "ledger_fine n" "\<And>a. x = Ok a \<Longrightarrow> responded t r n (snd (f a n))"
  shows "responded t r n (snd (abind (lift x) f n))"
  using assms booked_stay by (cases x) (auto simp: abind.simps lift_def responded_def)

lemma success_value:
  assumes "reply_success r"
  shows "value_bool r ''success'' False = Ok s \<Longrightarrow> s" "obind (json_at r ''success'') get_bool = Ok s \<Longrightarrow> s"
  using assms by (cases r; auto simp: reply_success_def split: option.splits)+

lemma responded_outcomes:
  assumes "calm env" "ledger_fine n" "role n = LEADER \<Longrightarrow> map_of (nextIndex n) p \<noteq> None"
    and "int_at r ''term'' = Ok rt" "s \<longleftrightarrow> reply_success r"
    and t: "task_peer t = p" "task_term t = u" "task_next t = i" "task_count t = c"
  shows "responded t r n (snd (heartbeat_outcome env p u i c r rt s n))"
    "responded t r n (snd (replicate_outcome env p u i c r rt s n))"
proof -
  have stay: "responded t r n n" using booked_stay [OF assms(2)] by (simp add: responded_def)
  have step: "responded t r n (becomeFollower env rt n)" using booked_stepped [OF assms(1,2)] by (simp add: responded_def)
  have rep: "responded t r n (snd (replicated env p i c n))" if "role n = LEADER" "currentTerm n = u" "rt \<le> u" "s" "0 < c"
    using booked_replicated [OF assms(2) that(1)] that assms(4,5) t by (auto simp: responded_def answered_by_def)
  have bt: "responded t r n (snd (backtrack p r n))" if "role n = LEADER" "currentTerm n = u" "rt \<le> u" "\<not> s"
    using backtrack_effect [OF assms(2) that(1) assms(3) [OF that(1)] refl, of r] that assms(4,5) t
    by (auto simp: responded_def answered_by_def)
  show "responded t r n (snd (heartbeat_outcome env p u i c r rt s n))"
    "responded t r n (snd (replicate_outcome env p u i c r rt s n))"
    using stay step rep bt by (auto simp: heartbeat_outcome_def replicate_outcome_def)
qed

lemma booked_response:
  assumes "calm env" "ledger_fine n" "\<not> is_vote t" "role n = LEADER \<Longrightarrow> map_of (nextIndex n) (task_peer t) \<noteq> None"
    and n': "n' = snd (run_task env t resp n)"
  shows "booked n n' \<and> (indexed n n' \<or> (\<exists>r. resp = Ok r \<and> answered_by t r n n'))"
proof (cases resp)
  case (Ok r)
  have stay: "responded t r n n" using booked_stay [OF assms(2)] by (simp add: responded_def)
  note out = responded_outcomes [OF assms(1,2)]
  have succ: "s \<longleftrightarrow> reply_success r" if "value_bool r ''success'' False = Ok s" for s
    using reads_success(1) [of r] success_value(1) [of r s] that by (cases s) auto
  have succ': "s \<longleftrightarrow> reply_success r" if "obind (json_at r ''success'') get_bool = Ok s" for s
    using reads_success(2) [of r] success_value(2) [of r s] that by (cases s) auto
  have ok: "abind (lift (Ok r)) f n = f r n" for f :: "json \<Rightarrow> (raft_node, unit) action"
    by (simp add: abind.simps lift_def)
  have "responded t r n n'"
  proof (cases t)
    case (HeartbeatTask p port params tt i c)
    have "responded t r n (snd (abind (lift (int_at r ''term'')) (\<lambda>respTerm.
      abind (lift (value_bool r ''success'' False)) (\<lambda>success.
      heartbeat_outcome env p tt i c r respTerm success)) n))"
      using HeartbeatTask succ assms(4) by (intro responded_lift [OF assms(2)] out(1)) auto
    then show ?thesis
      using stay unfolding n' HeartbeatTask Ok run_task.simps heartbeat_response_def snd_swallow ok by (auto simp: ret_def)
  next
    case (ReplicateTask p port params tt i c)
    have "responded t r n (snd (abind (lift (int_at r ''term'')) (\<lambda>respTerm.
      abind (lift (obind (json_at r ''success'') get_bool)) (\<lambda>success.
      replicate_outcome env p tt i c r respTerm success)) n))"
      using ReplicateTask succ' assms(4) by (intro responded_lift [OF assms(2)] out(2)) auto
    then show ?thesis
      using stay unfolding n' ReplicateTask Ok run_task.simps replicate_response_def snd_swallow ok by (auto simp: ret_def)
  next
    case (ReplicateInternalTask p port params tt i c)
    have "responded t r n (snd (abind (lift (int_at r ''term'')) (\<lambda>respTerm.
      abind (lift (obind (json_at r ''success'') get_bool)) (\<lambda>success.
      replicate_outcome env p tt i c r respTerm success)) n))"
      using ReplicateInternalTask succ' assms(4) by (intro responded_lift [OF assms(2)] out(2)) auto
    then show ?thesis
      using stay unfolding n' ReplicateInternalTask Ok run_task.simps replicate_internal_response_def snd_swallow ok
      by (auto simp: ret_def)
  qed (use assms(3) in simp)
  then show ?thesis using Ok by (auto simp: responded_def)
qed (use assms(3) booked_stay [OF assms(2)] in \<open>cases t; auto simp: n' heartbeat_response_def replicate_response_def
  replicate_internal_response_def abind.simps lift_def\<close>)+

section \<open>Requests\<close>

lemma ledger_vote:
  assumes "calm env" "onRequestVote env req n = (out, n')"
  shows "ledger n' = ledger n \<and> rpcPool n' = rpcPool n \<and>
    (role n' = LEADER \<longrightarrow> role n = LEADER \<and> currentTerm n' = currentTerm n)"
proof -
  define same where "same = (\<lambda>x. ledger x = ledger n \<and> rpcPool x = rpcPool n \<and>
    (role x = LEADER \<longrightarrow> role n = LEADER \<and> currentTerm x = currentTerm n))"
  have voted: "ledger (resetElectionTimer env (x\<lparr>votedFor := c\<rparr>)) = ledger x" for x c
    by (simp add: resetElectionTimer_def Let_def ledger_eq)
  have h: "same (snd (handle_vote env t c i lt n))" for t c i lt
    using ledger_becomeFollower [OF assms(1), of t n] voted
    by (simp add: same_def handle_vote_def Let_def)
  have keep: "same (snd (abind (lift x) f n))" if "\<And>a. same (snd (f a n))"
    for x :: "'x outcome" and f :: "'x \<Rightarrow> (raft_node, json) action"
    using that by (cases x) (simp_all add: abind.simps lift_def same_def)
  have "same (snd (onRequestVote env req n))"
    unfolding onRequestVote_def by (intro keep h)
  then show ?thesis using assms(2) by (simp add: same_def)
qed

text \<open>A request as the handler reads it: entries \<open>es\<close> for the log from index \<open>k\<close> on.\<close>

definition reads_request :: "json \<Rightarrow> int \<Rightarrow> nat \<Rightarrow> int \<Rightarrow> log_entry list \<Rightarrow> int \<Rightarrow> bool" where
  "reads_request req u k pt es lc \<longleftrightarrow>
     int_at req ''term'' = Ok u \<and> int_at req ''prevLogIndex'' = Ok (int k - 1) \<and> int_at req ''prevLogTerm'' = Ok pt \<and>
     (\<exists>js. json_at req ''entries'' = Ok (JArray js) \<and> list_all2 reads_entry js es) \<and>
     int_at req ''leaderCommit'' = Ok lc"

text \<open>The request is refused, finds a conflict, or is stored.\<close>

definition refused :: "int \<Rightarrow> raft_node \<Rightarrow> json outcome \<Rightarrow> raft_node \<Rightarrow> bool" where
  "refused u n out n' \<longleftrightarrow>
     n' = n \<and> (\<forall>r. out = Ok r \<longrightarrow> r = append_reply (currentTerm n) False \<and>
       (u < currentTerm n \<or> (role n = LEADER \<and> currentTerm n = u)))"

definition took :: "env \<Rightarrow> json \<Rightarrow> int \<Rightarrow> nat \<Rightarrow> int \<Rightarrow> log_entry list \<Rightarrow> raft_node \<Rightarrow> json outcome \<Rightarrow> raft_node \<Rightarrow> bool" where
  "took env req u k pt es n out n' \<longleftrightarrow>
     currentTerm n \<le> u \<and>
     (\<exists>n1. ledger n1 = ledger n \<and> rpcPool n1 = rpcPool n \<and> role n1 = FOLLOWER \<and> currentTerm n1 = u \<and>
        (if log_conflict n (int k - 1) pt
         then n' = resetElectionTimer env n1 \<and> out = Ok (conflict_reply (currentTerm n) (min (int k - 1) (len (log n))))
         else n' = snd (update_commit env req (n1\<lparr>log := merge_entries k es (log n)\<rparr>)) \<and>
           (\<forall>r. out = Ok r \<longrightarrow> r = append_reply u True)))"

lemma ledger_accept:
  assumes "calm env" "accept_leader env t l n = Some n1" "currentTerm n \<le> t"
  shows "ledger n1 = ledger n \<and> rpcPool n1 = rpcPool n \<and> role n1 = FOLLOWER \<and> currentTerm n1 = t"
proof -
  have "ledger (resetElectionTimer env n) = ledger n" "role (resetElectionTimer env n) = role n"
      "currentTerm (resetElectionTimer env n) = currentTerm n"
    by (simp_all add: resetElectionTimer_def Let_def ledger_eq)
  moreover have "currentTerm (becomeFollower env t n) = t"
    using stepped_fields [OF stepped_becomeFollower [OF assms(1)]] by blast
  ultimately show ?thesis
    using assms ledger_becomeFollower [OF assms(1), of t n]
    by (cases "role n") (auto simp: accept_leader_def split: if_splits)
qed

lemma update_commit_face: "currentTerm (snd (update_commit env req n)) = currentTerm n"
proof -
  have "sent n (snd (update_commit env req n))" using sends_update_commit [of env req] by (simp add: sends_def)
  then show ?thesis using sent_same by (simp add: face_eq)
qed

lemma append_cases:
  assumes "calm env" "reads_request req u k pt es lc" "onAppendEntries env req n = (out, n')"
  shows "refused u n out n' \<or> took env req u k pt es n out n'"
proof (cases "string_at req ''leaderId''")
  case (Ok l)
  obtain js where req: "int_at req ''term'' = Ok u" "int_at req ''prevLogIndex'' = Ok (int k - 1)"
      "int_at req ''prevLogTerm'' = Ok pt" "json_at req ''entries'' = Ok (JArray js)" "list_all2 reads_entry js es"
    using assms(2) unfolding reads_request_def by blast
  have eq: "onAppendEntries env req n =
      (if u < currentTerm n then (Ok (append_reply (currentTerm n) False), n)
       else case accept_leader env u l n of
              None \<Rightarrow> (Ok (append_reply (currentTerm n) False), n)
            | Some n1 \<Rightarrow> handle_append env req (currentTerm n) n1)"
    by (simp add: onAppendEntries_def req(1) Ok abind.simps lift_def)
  show ?thesis
  proof (cases "u < currentTerm n")
    case True
    then show ?thesis using eq assms(3) by (auto simp: refused_def)
  next
    case False
    then have le: "currentTerm n \<le> u" by simp
    show ?thesis
    proof (cases "accept_leader env u l n")
      case None
      then have "role n = LEADER \<and> currentTerm n = u" using le by (auto simp: accept_leader_def split: if_splits)
      then show ?thesis using None eq assms(3) by (auto simp: refused_def)
    next
      case (Some n1)
      note n1 = ledger_accept [OF assms(1) Some le]
      have "json_contains req ''prevLogIndex''" "json_contains req ''prevLogTerm''" "json_contains req ''entries''"
        using req(2-4) json_at_contains by (auto simp: int_at_def obind_eq_Ok)
      then have h: "store_entries env req (int k - 1) pt (JArray js) (currentTerm n) n1 = (out, n')"
        using eq False Some assms(3) req by (simp add: handle_append_def abind.simps lift_def)
      have c: "log_conflict n1 p q = log_conflict n p q" for p q
        using n1 by (simp add: log_conflict_def ledger_eq)
      show ?thesis
      proof (cases "log_conflict n (int k - 1) pt")
        case True
        then have "took env req u k pt es n out n'"
          using h c n1 le unfolding took_def by (intro conjI exI [of _ n1]) (simp_all add: store_entries_def ledger_eq)
        then show ?thesis by blast
      next
        case no: False
        let ?m = "n1\<lparr>log := merge_entries k es (log n)\<rparr>"
        have "k \<le> length (log n1)" using no n1 by (auto simp: log_conflict_def ledger_eq)
        then have "append_entries_loop (int k) js (log n1) = (Ok (), merge_entries k es (log n))"
          using append_loop_merge [OF req(5)] n1 by (simp add: ledger_eq)
        then have "store_entries env req (int k - 1) pt (JArray js) (currentTerm n) n1 =
            abind (update_commit env req) (\<lambda>_ n. (Ok (append_reply (currentTerm n) True), n)) ?m"
          using no c by (simp add: store_entries_def on_log_def abind.simps)
        then have "abind (update_commit env req) (\<lambda>_ n. (Ok (append_reply (currentTerm n) True), n)) ?m = (out, n')"
          using h by simp
        then have "n' = snd (update_commit env req ?m) \<and> (\<forall>r. out = Ok r \<longrightarrow> r = append_reply (currentTerm n') True)"
          by (auto simp: abind.simps split: prod.splits outcome.splits)
        moreover from this have "currentTerm n' = u" using update_commit_face [of env req ?m] n1 by simp
        ultimately have "took env req u k pt es n out n'"
          using no n1 le unfolding took_def by (intro conjI exI [of _ n1]) simp_all
        then show ?thesis by blast
      qed
    qed
  qed
qed (use assms in \<open>auto simp: onAppendEntries_def abind.simps lift_def reads_request_def refused_def\<close>)

text \<open>The commit index after a request was stored: as before, as announced, or by the rule.\<close>

lemma update_commit_ledger:
  assumes "ledger_fine m" "int_at req ''leaderCommit'' = Ok lc"
    and n': "n' = snd (update_commit env req m)"
  shows "ledger_fine n' \<and> face n' = face m \<and> book n' = book m \<and> rpcPool n' = rpcPool m \<and>
    (commitIndex n' = commitIndex m \<or> (commitIndex m < lc \<and> commitIndex n' = min lc (len (log m) - 1)) \<or>
     (commitIndex m < commitIndex n' \<and> committable n' (commitIndex n')))"
proof -
  have c: "json_contains req ''leaderCommit''" using assms(2) json_at_contains by (auto simp: int_at_def obind_eq_Ok)
  let ?m = "m\<lparr>commitIndex := min lc (len (log m) - 1)\<rparr>"
  have eq: "n' = (if commitIndex m < lc then snd (applyStateMachine env ?m) else m)"
    unfolding n' using c assms(2) by (simp add: update_commit_def abind.simps lift_def)
  show ?thesis
  proof (cases "commitIndex m < lc")
    case True
    have fine: "ledger_fine ?m" using assms(1) True by (auto simp: ledger_fine_def)
    have s: "sent ?m (snd (applyStateMachine env ?m))" using sends_apply by (simp add: sends_def)
    have "booked ?m (snd (applyStateMachine env ?m))" using posts_booked [OF posts_apply [OF fine] s] by blast
    then show ?thesis
      using True eq sent_same [OF s] pool_apply [of env ?m] assms(1) by (auto simp: booked_def ledger_fine_def)
  qed (use eq assms(1) in simp)
qed

end
