(* ===== verification/Raft_Commit.thy ===== *)
theory Raft_Commit imports Raft_Ledger begin

text \<open>
  Which entries the nodes of a cluster of at most four nodes commit: only those that every later
  leader has. An entry counts as decided once the nodes that have acknowledged it meet every
  majority; with at most four nodes the leader and one follower are enough, so that not even a
  follower that counts what it sent in an earlier term can commit anything else.
\<close>

section \<open>Where the log of a node leaves that of its leader\<close>

text \<open>Two logs agree at most on their first \<open>x\<close> entries.\<close>

definition parts :: "log_entry list \<Rightarrow> log_entry list \<Rightarrow> nat \<Rightarrow> bool" where
  "parts f g x \<longleftrightarrow> (\<forall>m \<le> length f. m \<le> length g \<longrightarrow> take m f = take m g \<longrightarrow> m \<le> x)"

text \<open>
  An index from which the leader of term \<open>u\<close> may send its log to a node: not before the place
  where the node's log leaves the leader's, unless there is no such place.
\<close>

definition aims :: "history \<Rightarrow> raft_node \<Rightarrow> int \<Rightarrow> int \<Rightarrow> bool" where
  "aims H n u x \<longleftrightarrow>
     0 \<le> x \<and> x \<le> len (glog H u) \<and>
     ((currentTerm n < u \<and> int (gbase H u) \<le> x) \<or>
      (currentTerm n = u \<and> (prefix (log n) (glog H u) \<or> parts (log n) (glog H u) (nat x))) \<or>
      u < currentTerm n)"

lemma parts_grows:
  assumes "parts f g x" "prefix g g'" "length g < length f \<Longrightarrow> length g < length g' \<Longrightarrow> f ! length g \<noteq> g' ! length g"
  shows "parts f g' x"
  unfolding parts_def
proof (intro allI impI)
  fix m
  assume m: "m \<le> length f" "m \<le> length g'" "take m f = take m g'"
  show "m \<le> x"
  proof (cases "m \<le> length g")
    case True
    then have "take m g' = take m g" by (rule prefix_take [OF assms(2)])
    then show ?thesis using assms(1) m True by (simp add: parts_def)
  next
    case False
    then have "length g < m" by simp
    then have "f ! length g = g' ! length g" using m(3) by (metis nth_take)
    then show ?thesis using assms(3) m(1,2) \<open>length g < m\<close> by simp
  qed
qed

lemma parts_base:
  assumes "history_fine H LT" "\<forall>e \<in> set f. eterm e < u" "gbase H u \<le> x"
  shows "parts f (glog H u) x"
  unfolding parts_def
proof (intro allI impI, rule ccontr)
  fix m
  assume m: "m \<le> length f" "m \<le> length (glog H u)" "take m f = take m (glog H u)" "\<not> m \<le> x"
  then have x: "x < m" by simp
  then have "f ! x = glog H u ! x" using m(3) by (metis nth_take)
  moreover have "f ! x \<in> set f" using x m(1) by simp
  moreover have "eterm (glog H u ! x) = u" using assms(1,3) x m(2) by (simp add: history_fine_def)
  ultimately show False using assms(2) by force
qed

lemma older_base: "older H H' \<Longrightarrow> history_fine H LT \<Longrightarrow> u \<in> LT \<Longrightarrow> gbase H' u = gbase H u"
  using history_chief(1) [of H LT u] by (simp add: older_def)

lemma older_prefix: "older H H' \<Longrightarrow> prefix (glog H u) (glog H' u)"
  by (simp add: older_def)

text \<open>How a node may change: its log stays, or becomes a piece of the log of its term.\<close>

definition evolves :: "history \<Rightarrow> raft_node \<Rightarrow> raft_node \<Rightarrow> bool" where
  "evolves H n n' \<longleftrightarrow>
     currentTerm n \<le> currentTerm n' \<and> (log n' = log n \<or> prefix (log n') (glog H (currentTerm n')))"

lemma evolves_refl [simp]: "evolves H n n"
  by (simp add: evolves_def)

lemma aims_evolves:
  assumes a: "aims H n u x" and o: "older H H'" and H: "history_fine H LT" and H': "history_fine H' LT'" and u: "u \<in> LT"
    and b: "backed H (log n)" "\<forall>e \<in> set (log n). eterm e \<le> currentTerm n" and ev: "evolves H' n n'"
  shows "aims H' n' u x"
proof -
  note p = older_prefix [OF o, of u] and base = older_base [OF o H u]
  have x: "0 \<le> x" "x \<le> len (glog H' u)"
    using a prefix_length_le [OF p] by (auto simp: aims_def)
  have step: "currentTerm n \<le> currentTerm n'" using ev by (simp add: evolves_def)
  show ?thesis
  proof (cases "currentTerm n' = u")
    case False
    then show ?thesis using a x step base by (auto simp: aims_def)
  next
    case True
    show ?thesis
    proof (cases "prefix (log n') (glog H' u)")
      case no: False
      then have l: "log n' = log n" using ev True by (simp add: evolves_def)
      have "parts (log n) (glog H' u) (nat x)"
      proof (cases "currentTerm n < u")
        case lt: True
        then have "gbase H' u \<le> nat x" using a base True by (auto simp: aims_def)
        moreover have "\<forall>e \<in> set (log n). eterm e < u" using b(2) lt by force
        ultimately show ?thesis by (intro parts_base [OF H']) simp_all
      next
        case ge: False
        then have n: "currentTerm n = u" using step True by simp
        have "\<not> prefix (log n) (glog H u)" using no l p prefix_order.order_trans by metis
        then have ps: "parts (log n) (glog H u) (nat x)" using a n by (simp add: aims_def)
        show ?thesis
        proof (rule parts_grows [OF ps p])
          let ?q = "length (glog H u)"
          assume q: "?q < length (log n)" "?q < length (glog H' u)"
          show "log n ! ?q \<noteq> glog H' u ! ?q"
          proof
            assume eq: "log n ! ?q = glog H' u ! ?q"
            have "gbase H u \<le> ?q" using H u by (simp add: history_fine_def)
            then have "eterm (glog H' u ! ?q) = u" using H' q(2) base by (simp add: history_fine_def)
            then show False using backed_nth(1) [OF b(1) q(1)] eq by simp
          qed
        qed
      qed
      then show ?thesis using True l x by (simp add: aims_def)
    qed (use True x in \<open>simp add: aims_def\<close>)
  qed
qed

lemma aims_end: "history_fine H LT \<Longrightarrow> u \<in> LT \<Longrightarrow> aims H n u (len (glog H u))"
  by (auto simp: aims_def history_fine_def parts_def)

section \<open>Decided entries\<close>

text \<open>The log \<open>f\<close> of a node in term \<open>u\<close> is decided up to index \<open>c\<close>.\<close>

definition fixed :: "string set \<Rightarrow> history \<Rightarrow> int \<Rightarrow> log_entry list \<Rightarrow> int \<Rightarrow> bool" where
  "fixed M H u f c \<longleftrightarrow>
     c = -1 \<or> (0 \<le> c \<and> c < len f \<and>
       (\<exists>t m. t \<le> u \<and> decided M H t m \<and> nat c < m \<and> take (Suc (nat c)) f = take (Suc (nat c)) (glog H t)))"

lemma fixed_none [simp]: "fixed M H u f (-1)"
  by (simp add: fixed_def)

lemma decided_length: "decided M H t m \<Longrightarrow> m \<le> length (glog H t)"
  by (simp add: decided_def own_def)

lemma decided_term: "decided M H t m \<Longrightarrow> history_fine H LT \<Longrightarrow> t \<in> LT"
  unfolding decided_def own_def history_fine_def by (metis le_zero_eq less_numeral_extra(3) list.size(3))

lemma fixed_older:
  assumes "fixed M H u f c" "older H H'" "u \<le> u'" "prefix f f'"
  shows "fixed M H' u' f' c"
proof (cases "c = -1")
  case False
  then obtain t m where c: "0 \<le> c" "c < len f" "t \<le> u" "decided M H t m" "nat c < m"
      "take (Suc (nat c)) f = take (Suc (nat c)) (glog H t)"
    using assms(1) unfolding fixed_def by blast
  have "take (Suc (nat c)) f' = take (Suc (nat c)) f" by (rule prefix_take [OF assms(4)]) (use c(1,2) in auto)
  moreover have "take (Suc (nat c)) (glog H' t) = take (Suc (nat c)) (glog H t)"
    by (rule prefix_take [OF older_prefix [OF assms(2)]]) (use c(5) decided_length [OF c(4)] in simp)
  moreover have "c < len f'" using c(2) prefix_length_le [OF assms(4)] by linarith
  moreover have "t \<le> u'" using c(3) assms(3) by simp
  ultimately show ?thesis
    using c decided_older [OF c(4) assms(2)] unfolding fixed_def by (intro disjI2 conjI exI [of _ t] exI [of _ m]) simp_all
qed simp

lemma fixed_take:
  assumes "fixed M H u f c" "-1 \<le> d" "d \<le> c" "take (nat (d + 1)) f' = take (nat (d + 1)) f"
  shows "fixed M H u f' d"
proof (cases "d = -1")
  case False
  then obtain t m where c: "0 \<le> c" "c < len f" "t \<le> u" "decided M H t m" "nat c < m"
      "take (Suc (nat c)) f = take (Suc (nat c)) (glog H t)"
    using assms(1-3) unfolding fixed_def by force
  have d: "0 \<le> d" "nat (d + 1) = Suc (nat d)" "Suc (nat d) \<le> Suc (nat c)" using False assms(2,3) by auto
  have "take (Suc (nat d)) f' = take (Suc (nat d)) (glog H t)"
    using assms(4) d(2) take_eq_le [OF c(6) d(3)] by metis
  moreover have "length (take (Suc (nat d)) f) = Suc (nat d)" using c(2) d(1) assms(3) by simp
  then have "Suc (nat d) \<le> length f'" using assms(4) d(2) by (metis length_take min.cobounded1)
  ultimately show ?thesis
    using c(3-5) d(1) assms(3) unfolding fixed_def by (intro disjI2 conjI exI [of _ t] exI [of _ m]) simp_all
qed simp

text \<open>The leaders from term \<open>u\<close> on have what is decided.\<close>

lemma fixed_leader:
  assumes "fixed M H u f c" "elected_fine M N LT H" "finite M" "w \<in> LT" "u \<le> w"
  shows "nat (c + 1) \<le> length (glog H w) \<and> take (nat (c + 1)) (glog H w) = take (nat (c + 1)) f"
proof (cases "c = -1")
  case False
  then obtain t m where c: "0 \<le> c" "t \<le> u" "decided M H t m" "nat c < m"
      "take (Suc (nat c)) f = take (Suc (nat c)) (glog H t)"
    using assms(1) unfolding fixed_def by blast
  have s: "nat (c + 1) = Suc (nat c)" "Suc (nat c) \<le> m" using c(1,4) by auto
  show ?thesis
  proof (cases "t = w")
    case True
    then show ?thesis using c(5) s decided_length [OF c(3)] by simp
  next
    case no: False
    then have "t < w" using c(2) assms(5) by simp
    then have "safe H w t m" by (rule decided_safe [OF assms(2,3) c(3) assms(4)])
    then have "m \<le> length (glog H w)" "take m (glog H w) = take m (glog H t)"
      by (auto simp: safe_def has_def min_def split: if_splits)
    then have "Suc (nat c) \<le> length (glog H w)" "take (Suc (nat c)) (glog H w) = take (Suc (nat c)) (glog H t)"
      using s(2) take_eq_le by (linarith, blast)
    then show ?thesis using c(5) s(1) by simp
  qed
qed simp

lemma fixed_agree:
  assumes f: "fixed M H u f c" and g: "fixed M H w g d" and e: "elected_fine M N LT H" "finite M" "history_fine H LT"
    and k: "0 \<le> k" "k \<le> c" "k \<le> d"
  shows "take (Suc (nat k)) f = take (Suc (nat k)) g"
proof -
  have main: "take (Suc (nat k)) f = take (Suc (nat k)) g"
    if f: "fixed M H t f c" and t': "decided M H t' m'" "nat d < m'" "take (Suc (nat d)) g = take (Suc (nat d)) (glog H t')"
      and le: "t \<le> t'" and k: "0 \<le> k" "k \<le> c" "k \<le> d" for t t' m' c d f g
  proof -
    have "take (nat (c + 1)) (glog H t') = take (nat (c + 1)) f"
      using fixed_leader [OF f e(1,2) decided_term [OF t'(1) e(3)] le] by blast
    moreover have "Suc (nat k) \<le> nat (c + 1)" "Suc (nat k) \<le> Suc (nat d)" using k by auto
    ultimately show ?thesis using take_eq_le t'(3) by metis
  qed
  obtain t m where t: "decided M H t m" "nat c < m" "take (Suc (nat c)) f = take (Suc (nat c)) (glog H t)" "c < len f"
    using f k unfolding fixed_def by force
  obtain t' m' where t': "decided M H t' m'" "nat d < m'" "take (Suc (nat d)) g = take (Suc (nat d)) (glog H t')" "d < len g"
    using g k unfolding fixed_def by force
  have "fixed M H t f c" "fixed M H t' g d"
    using t t' k unfolding fixed_def by (metis order_refl order_trans)+
  then show ?thesis using main t t' k by (metis linear)
qed

section \<open>The commit rule with at most four nodes\<close>

text \<open>
  What the rule lets a node commit is decided: for a leader by the majority it counts, for any
  other node because the leader of its term and the node itself have the entry.
\<close>

lemma commit_fixed:
  assumes e: "election_inv M N T G L" and inv: "log_inv M N T G (fst ` L) H"
    and L: "\<And>x. x \<in> L \<Longrightarrow> chief H (fst x) = Some (snd x)" and i: "i \<in> M" and four: "card M \<le> 4"
    and k: "0 \<le> k" "k < len (log (N i))" "committable (N i) k"
  shows "fixed M H (currentTerm (N i)) (log (N i)) k"
proof -
  let ?t = "currentTerm (N i)" and ?f = "log (N i)"
  note d = log_invD [OF inv]
  have kl: "nat k < length ?f" and t: "eterm (?f ! nat k) = ?t" using k by (auto simp: committable_def)
  have bk: "backed H ?f" using d(2) [OF i] by (simp add: book_fine_def)
  then have g: "nat k < length (glog H ?t)" "take (Suc (nat k)) ?f = take (Suc (nat k)) (glog H ?t)"
    using backed_nth [OF bk kl] t by simp_all
  have "decided M H ?t (Suc (nat k))"
  proof (cases "role (N i) = LEADER")
    case True
    then show ?thesis using committable_decided [OF e inv i True kl] k(1,3) by simp
  next
    case False
    have LT: "?t \<in> fst ` L" using backed_terms [OF d(1) bk, of "?f ! nat k"] kl t by simp
    then obtain l where l: "(?t, l) \<in> L" by auto
    have lM: "l \<in> M" "l \<noteq> i"
      using election_invD(3) [OF e i] l False unfolding leaders_fine_def by blast+
    have "acked H ?t l = length (glog H ?t)" using history_chief(2) [OF d(1)] L [OF l] by simp
    then have al: "Suc (nat k) \<le> acked H ?t l" using g(1) by simp
    have ai: "Suc (nat k) \<le> acked H ?t i" using d(3) [OF i] kl t by (simp add: acks_fine_def Suc_le_eq)
    have "f ! n = g ! n" if "take (Suc n) f = take (Suc n) g" for f g :: "log_entry list" and n
      using that by (metis lessI nth_take)
    then have "eterm (glog H ?t ! nat k) = ?t" using g(2) t by metis
    then have "own H ?t (Suc (nat k))" using g(1) by (simp add: own_def)
    moreover have "card M < card {i, l} + (card M div 2 + 1)" using four lM(2) by simp
    ultimately show ?thesis
      using i lM(1) al ai unfolding decided_def by (intro conjI exI [of _ "{i, l}"]) auto
  qed
  then show ?thesis
    using k(1,2) g(2) unfolding fixed_def by (intro disjI2 conjI exI [of _ ?t] exI [of _ "Suc (nat k)"]) simp_all
qed

section \<open>The invariant\<close>

definition index_fine :: "string set \<Rightarrow> history \<Rightarrow> (string \<Rightarrow> raft_node) \<Rightarrow> string \<Rightarrow> raft_node \<Rightarrow> bool" where
  "index_fine M H N i n \<longleftrightarrow>
     (role n = LEADER \<longrightarrow> (\<forall>p \<in> M - {i}. \<exists>x. map_of (nextIndex n) p = Some x \<and> aims H (N p) (currentTerm n) x))"

definition node_commit :: "string set \<Rightarrow> history \<Rightarrow> (string \<Rightarrow> raft_node) \<Rightarrow> string \<Rightarrow> raft_node \<Rightarrow> bool" where
  "node_commit M H N i n \<longleftrightarrow>
     ledger_fine n \<and> fixed M H (currentTerm n) (log n) (commitIndex n) \<and> index_fine M H N i n"

text \<open>A request names an entry before its batch, and announces only what is decided.\<close>

definition request_fine :: "string set \<Rightarrow> history \<Rightarrow> (string \<Rightarrow> raft_node) \<Rightarrow> task \<Rightarrow> bool" where
  "request_fine M H N t \<longleftrightarrow>
     (\<not> is_vote t \<longrightarrow>
        aims H (N (task_peer t)) (task_term t) (task_next t) \<and>
        task_next t + task_count t \<le> len (glog H (task_term t)) \<and>
        (\<exists>pt lc. json_at (task_params t) ''prevLogTerm'' = Ok (JInteger pt) \<and>
           is_int32 pt \<and> (0 < task_next t \<longrightarrow> pt = eterm (glog H (task_term t) ! nat (task_next t - 1))) \<and>
           json_at (task_params t) ''leaderCommit'' = Ok (JInteger lc) \<and>
           fixed M H (task_term t) (glog H (task_term t)) lc \<and> (task_count t = 0 \<longrightarrow> lc < task_next t)))"

text \<open>An answer of the request's term leads to an index that may be sent next.\<close>

definition answer_fine :: "history \<Rightarrow> (string \<Rightarrow> raft_node) \<Rightarrow> task \<Rightarrow> json outcome \<Rightarrow> bool" where
  "answer_fine H N t resp \<longleftrightarrow>
     (\<forall>r rt. \<not> is_vote t \<longrightarrow> resp = Ok r \<longrightarrow> int_at r ''term'' = Ok rt \<longrightarrow> rt \<le> task_term t \<longrightarrow>
        (if reply_success r
         then 0 < task_count t \<longrightarrow> aims H (N (task_peer t)) (task_term t) (task_next t + task_count t)
         else \<exists>ci. int_at r ''conflictIndex'' = Ok ci \<and> aims H (N (task_peer t)) (task_term t) ci))"

definition commit_inv ::
    "string set \<Rightarrow> (string \<Rightarrow> raft_node) \<Rightarrow> (string \<Rightarrow> task multiset) \<Rightarrow> (string \<times> task \<times> json outcome) list \<Rightarrow>
     history \<Rightarrow> bool" where
  "commit_inv M N T R H \<longleftrightarrow>
     (\<forall>i \<in> M. node_commit M H N i (N i) \<and> (\<forall>t \<in># T i. request_fine M H N t)) \<and>
     (\<forall>x \<in> set R. answer_fine H N (fst (snd x)) (snd (snd x)))"

text \<open>What was an aim stays one when a node evolves.\<close>

lemma aims_frame:
  assumes lg: "log_inv M N T G LT H" and H': "history_fine H' LT'" "older H H'" and ev: "evolves H' (N i) n'"
    and p: "p \<in> M" "u \<in> LT" "aims H (N p) u x"
  shows "aims H' ((N(i := n')) p) u x"
proof -
  note d = log_invD [OF lg]
  have "evolves H' (N p) ((N(i := n')) p)" using ev by simp
  moreover have "backed H (log (N p))" "\<forall>e \<in> set (log (N p)). eterm e \<le> currentTerm (N p)"
    using d(2) [OF p(1)] by (simp_all add: book_fine_def)
  ultimately show ?thesis using aims_evolves [OF p(3) H'(2) d(1) H'(1) p(2)] by blast
qed

lemma commit_frame:
  assumes inv: "commit_inv M N T R H" and e: "election_inv M N T G L" and lg: "log_inv M N T G (fst ` L) H"
    and H': "history_fine H' LT'" "older H H'" and i: "i \<in> M" and ev: "evolves H' (N i) n'"
    and N': "N' = N(i := n')" and node: "node_commit M H' N' i n'"
    and tasks: "\<And>j t. j \<in> M \<Longrightarrow> t \<in># T' j \<Longrightarrow> t \<in># T j \<or> request_fine M H' N' t"
    and replies: "\<And>j t resp. (j, t, resp) \<in> set R' \<Longrightarrow>
      ((j, t, resp) \<in> set R \<and> j \<in> M \<and> t \<in># T j) \<or> answer_fine H' N' t resp"
  shows "commit_inv M N' T' R' H'"
proof -
  note d = log_invD [OF lg]
  have aims: "aims H' (N' p) u x" if "p \<in> M" "u \<in> fst ` L" "aims H (N p) u x" for p u x
    unfolding N' by (rule aims_frame [OF lg H' ev that])
  have task: "task_peer t \<in> M \<and> task_term t \<in> fst ` L" if "j \<in> M" "t \<in># T j" "\<not> is_vote t" for j t
  proof -
    have "task_fine M L j (N j) t" using election_invD(6) [OF e that(1)] that(2) by blast
    then show ?thesis using that(3) by (cases t) force+
  qed
  have "node_commit M H' N' j (N' j)" if j: "j \<in> M" for j
  proof (cases "j = i")
    case False
    then have n: "N' j = N j" using N' by simp
    have old: "ledger_fine (N j)" "fixed M H (currentTerm (N j)) (log (N j)) (commitIndex (N j))" "index_fine M H N j (N j)"
      using inv j by (auto simp: commit_inv_def node_commit_def)
    have "index_fine M H' N' j (N j)"
      unfolding index_fine_def
    proof (intro impI ballI)
      fix p
      assume lead: "role (N j) = LEADER" and p: "p \<in> M - {j}"
      have "currentTerm (N j) \<in> fst ` L" using leader_term [OF e j lead] by force
      then show "\<exists>x. map_of (nextIndex (N j)) p = Some x \<and> aims H' (N' p) (currentTerm (N j)) x"
        using old(3) lead p aims [of p] unfolding index_fine_def by blast
    qed
    then show ?thesis using n old(1) fixed_older [OF old(2) H'(2)] by (simp add: node_commit_def)
  qed (use node N' in simp)
  moreover have "request_fine M H' N' t" if j: "j \<in> M" and t: "t \<in># T' j" for j t
  proof (cases "t \<in># T j \<and> \<not> is_vote t")
    case True
    then have old: "request_fine M H N t" using inv j by (simp add: commit_inv_def)
    let ?u = "task_term t" and ?x = "task_next t"
    obtain pt lc where r: "json_at (task_params t) ''prevLogTerm'' = Ok (JInteger pt) \<and> is_int32 pt"
        "0 < ?x \<longrightarrow> pt = eterm (glog H ?u ! nat (?x - 1))"
        "json_at (task_params t) ''leaderCommit'' = Ok (JInteger lc)" "fixed M H ?u (glog H ?u) lc" "task_count t = 0 \<longrightarrow> lc < ?x"
      and a: "aims H (N (task_peer t)) ?u ?x" "?x + task_count t \<le> len (glog H ?u)"
      using old True unfolding request_fine_def by blast
    note p = older_prefix [OF H'(2), of ?u]
    have "aims H' (N' (task_peer t)) ?u ?x" using aims task [OF j] True a(1) by blast
    moreover have "?x + task_count t \<le> len (glog H' ?u)" using a(2) prefix_length_le [OF p] by linarith
    moreover have "0 < ?x \<longrightarrow> pt = eterm (glog H' ?u ! nat (?x - 1))"
    proof
      assume "0 < ?x"
      then have "nat (?x - 1) < length (glog H ?u)" using a(1) by (auto simp: aims_def)
      then show "pt = eterm (glog H' ?u ! nat (?x - 1))" using r(2) \<open>0 < ?x\<close> prefix_nth [OF p] by simp
    qed
    moreover have "fixed M H' ?u (glog H' ?u) lc" by (rule fixed_older [OF r(4) H'(2) order_refl p])
    ultimately show ?thesis using r(1,3,5) unfolding request_fine_def by blast
  next
    case False
    then show ?thesis using tasks [OF j t] by (auto simp: request_fine_def)
  qed
  moreover have "answer_fine H' N' t resp" if x: "(j, t, resp) \<in> set R'" for j t resp
    using replies [OF x]
  proof
    assume old: "(j, t, resp) \<in> set R \<and> j \<in> M \<and> t \<in># T j"
    then have "answer_fine H N t resp" using inv by (auto simp: commit_inv_def)
    then show ?thesis
      unfolding answer_fine_def using aims task old by (metis (no_types, lifting))
  qed
  ultimately show ?thesis unfolding commit_inv_def by force
qed

end
