(* ===== verification/Raft_Agreement.thy ===== *)
theory Raft_Agreement imports Raft_Commit begin

text \<open>
  Every step of a cluster of at most four nodes keeps the invariant of \<open>Raft_Commit\<close>. So the nodes
  agree on what they apply: state machine safety.
\<close>

section \<open>A step that changes one node\<close>

definition cluster_commit :: "string set \<Rightarrow> cluster \<Rightarrow> history \<Rightarrow> bool" where
  "cluster_commit M c H \<longleftrightarrow> commit_inv M (cnodes c) (outs c) (replies c) H"

text \<open>What is known before and after a step in which node \<open>i\<close> becomes \<open>n'\<close>.\<close>

definition step_to :: "string set \<Rightarrow> cluster \<Rightarrow> history \<Rightarrow> string \<Rightarrow> raft_node \<Rightarrow> cluster \<Rightarrow> history \<Rightarrow> bool" where
  "step_to M c H i n' c' H' \<longleftrightarrow>
     card M \<le> 4 \<and> cluster_inv M c \<and> cluster_log M c H \<and> cluster_commit M c H \<and>
     cluster_inv M c' \<and> cluster_log M c' H' \<and> older H H' \<and> i \<in> M \<and> cnodes c' = (cnodes c)(i := n') \<and>
     currentTerm (cnodes c i) \<le> currentTerm n'"

lemma step_toD:
  assumes "step_to M c H i n' c' H'"
  shows "election_inv M (cnodes c) (outs c) (granted c) (led c)"
    "log_inv M (cnodes c) (outs c) (granted c) (fst ` led c) H"
    "election_inv M (cnodes c') (outs c') (granted c') (led c')"
    "log_inv M (cnodes c') (outs c') (granted c') (fst ` led c') H'"
    "i \<in> M" "cnodes c' = (cnodes c)(i := n')" "older H H'" "currentTerm (cnodes c i) \<le> currentTerm n'"
    "history_fine H (fst ` led c)" "history_fine H' (fst ` led c')"
    "node_commit M H (cnodes c) i (cnodes c i)" "book_fine H i (cnodes c i)" "book_fine H' i n'"
    "set (peer_ids n') = M - {i}" "set (peer_ids (cnodes c i)) = M - {i}"
    "role n' = LEADER \<Longrightarrow> currentTerm n' \<in> fst ` led c'" "role (cnodes c i) = LEADER \<Longrightarrow> currentTerm (cnodes c i) \<in> fst ` led c"
proof -
  show e: "election_inv M (cnodes c) (outs c) (granted c) (led c)" "election_inv M (cnodes c') (outs c') (granted c') (led c')"
    and l: "log_inv M (cnodes c) (outs c) (granted c) (fst ` led c) H" "log_inv M (cnodes c') (outs c') (granted c') (fst ` led c') H'"
    and i: "i \<in> M" and n: "cnodes c' = (cnodes c)(i := n')"
    and "older H H'" "currentTerm (cnodes c i) \<le> currentTerm n'"
    using assms unfolding step_to_def cluster_inv_def cluster_log_def by blast+
  show "history_fine H (fst ` led c)" "history_fine H' (fst ` led c')" "book_fine H i (cnodes c i)" "book_fine H' i n'"
    using log_invD(1,2) [OF l(1)] log_invD(1,2) [OF l(2)] i n by (blast, blast, blast, metis fun_upd_same)
  show "node_commit M H (cnodes c) i (cnodes c i)"
    using assms i by (simp add: step_to_def cluster_commit_def commit_inv_def)
  show "set (peer_ids n') = M - {i}" "set (peer_ids (cnodes c i)) = M - {i}"
    using peers_other [OF election_invD(1) [OF e(2) i]] peers_other [OF election_invD(1) [OF e(1) i]] n by simp_all
  show "currentTerm n' \<in> fst ` led c'" if "role n' = LEADER"
    using leader_term [OF e(2) i] n that by force
  show "currentTerm (cnodes c i) \<in> fst ` led c" if "role (cnodes c i) = LEADER"
    using leader_term [OF e(1) i that] by force
qed

lemma step_evolves:
  assumes s: "step_to M c H i n' c' H'" and b: "booked (cnodes c i) n'"
  shows "evolves H' (cnodes c i) n'"
proof -
  have "log n' = glog H' (currentTerm n')" if "role n' = LEADER"
    using step_toD(13) [OF s] that by (simp add: book_fine_def)
  then show ?thesis using b step_toD(8) [OF s] by (auto simp: booked_def evolves_def)
qed

lemma step_committable:
  assumes s: "step_to M c H i n' c' H'" and k: "0 \<le> k" "k < len (log n')" "committable n' k"
  shows "fixed M H' (currentTerm n') (log n') k"
proof -
  have "chief H' (fst x) = Some (snd x)" if "x \<in> led c'" for x
    using s that by (simp add: step_to_def cluster_log_def)
  moreover have "card M \<le> 4" using s by (simp add: step_to_def)
  ultimately have "fixed M H' (currentTerm (cnodes c' i)) (log (cnodes c' i)) k"
    using k step_toD(6) [OF s] by (intro commit_fixed [OF step_toD(3,4) [OF s] _ step_toD(5) [OF s]]) simp_all
  then show ?thesis using step_toD(6) [OF s] by simp
qed

lemma step_fixed:
  assumes s: "step_to M c H i n' c' H'" and b: "booked (cnodes c i) n'"
  shows "fixed M H' (currentTerm n') (log n') (commitIndex n')"
proof (cases "commitIndex n' = commitIndex (cnodes c i)")
  case True
  have "fixed M H (currentTerm (cnodes c i)) (log (cnodes c i)) (commitIndex n')"
    using step_toD(11) [OF s] True by (simp add: node_commit_def)
  then show ?thesis
    by (rule fixed_older [OF _ step_toD(7,8) [OF s]]) (use b in \<open>simp add: booked_def\<close>)
next
  case False
  then have "committable n' (commitIndex n')" "ledger_fine n'" "commitIndex (cnodes c i) < commitIndex n'"
    using b by (auto simp: booked_def)
  moreover have "-1 \<le> commitIndex (cnodes c i)"
    using step_toD(11) [OF s] by (simp add: node_commit_def ledger_fine_def)
  ultimately show ?thesis by (intro step_committable [OF s]) (simp_all add: ledger_fine_def)
qed

lemma step_aims:
  assumes s: "step_to M c H i n' c' H'" and ev: "evolves H' (cnodes c i) n'"
    and p: "p \<in> M" "u \<in> fst ` led c" "aims H (cnodes c p) u x"
  shows "aims H' (cnodes c' p) u x"
  unfolding step_toD(6) [OF s] by (rule aims_frame [OF step_toD(2) [OF s] step_toD(10,7) [OF s] ev p])

lemma step_index:
  assumes s: "step_to M c H i n' c' H'" and ev: "evolves H' (cnodes c i) n'" and x: "indexed (cnodes c i) n'"
  shows "index_fine M H' (cnodes c') i n'"
  unfolding index_fine_def
proof (intro impI ballI)
  fix p
  assume lead: "role n' = LEADER" and p: "p \<in> M - {i}"
  have old: "index_fine M H (cnodes c) i (cnodes c i)" using step_toD(11) [OF s] by (simp add: node_commit_def)
  from x lead consider "role (cnodes c i) = LEADER" "currentTerm n' = currentTerm (cnodes c i)" "nextIndex n' = nextIndex (cnodes c i)"
    | "fresh_index n'" unfolding indexed_def by blast
  then show "\<exists>x. map_of (nextIndex n') p = Some x \<and> aims H' (cnodes c' p) (currentTerm n') x"
  proof cases
    case 1
    then obtain x where "map_of (nextIndex n') p = Some x" "aims H (cnodes c p) (currentTerm n') x"
      using old p unfolding index_fine_def by auto
    then show ?thesis using step_aims [OF s ev _ step_toD(17) [OF s 1(1)]] p 1(2) by auto
  next
    case 2
    then have "map_of (nextIndex n') p = Some (len (log n'))"
      using p step_toD(14) [OF s] by (simp add: fresh_index_def)
    moreover have "log n' = glog H' (currentTerm n')" using step_toD(13) [OF s] lead by (simp add: book_fine_def)
    ultimately show ?thesis using aims_end [OF step_toD(10) [OF s] step_toD(16) [OF s lead]] by auto
  qed
qed

text \<open>What a leader sends is a request in order.\<close>

lemma posted_request:
  assumes n: "node_commit M H N i n" and p: "posted_by n t" and b: "book_fine H i n" and ids: "set (peer_ids n) = M - {i}"
    and H: "history_fine H LT"
  shows "request_fine M H N t"
proof -
  have lead: "role n = LEADER" and t: "task_term t = currentTerm n" "task_peer t \<in> M - {i}"
      "map_of (nextIndex n) (task_peer t) = Some (task_next t)" "task_count t = len (batch (log n) (task_next t))"
      "json_at (task_params t) ''prevLogTerm'' = Ok (JInteger (prev_term n (task_next t)))"
      "json_at (task_params t) ''leaderCommit'' = Ok (JInteger (commitIndex n))"
    using p ids by (simp_all add: posted_by_def)
  have g: "log n = glog H (currentTerm n)" using b lead by (simp add: book_fine_def)
  have a: "aims H (N (task_peer t)) (currentTerm n) (task_next t)"
  proof -
    have "index_fine M H N i n" using n by (simp add: node_commit_def)
    then obtain x where "map_of (nextIndex n) (task_peer t) = Some x" "aims H (N (task_peer t)) (currentTerm n) x"
      using lead t(2) unfolding index_fine_def by blast
    then show ?thesis using t(3) by simp
  qed
  then have x: "0 \<le> task_next t" "task_next t \<le> len (log n)" using g by (simp_all add: aims_def)
  have pt: "0 < task_next t \<longrightarrow> prev_term n (task_next t) = eterm (log n ! nat (task_next t - 1))"
    using x by (simp add: prev_term_def)
  have "is_int32 (prev_term n (task_next t))"
  proof (cases "0 < task_next t")
    case True
    then have "log n ! nat (task_next t - 1) \<in> set (log n)" using x by simp
    moreover have "backed H (log n)" using b by (simp add: book_fine_def)
    ultimately have "eterm (log n ! nat (task_next t - 1)) \<in> LT" using backed_terms [OF H] by blast
    then show ?thesis using pt True H by (simp add: history_fine_def)
  qed (use x in \<open>simp add: prev_term_def is_int32_def INT_MIN_def INT_MAX_def\<close>)
  moreover have "task_next t + task_count t \<le> len (log n)"
    using x t(4) by (simp add: batch_def)
  moreover have "task_count t = 0 \<longrightarrow> commitIndex n < task_next t"
    using x t(4) n by (auto simp: batch_def MAX_ENTRIES_PER_RPC_def node_commit_def ledger_fine_def)
  moreover have "fixed M H (currentTerm n) (log n) (commitIndex n)" using n by (simp add: node_commit_def)
  ultimately show ?thesis
    using a t(1,5,6) pt g unfolding request_fine_def by simp
qed

lemma step_commit:
  assumes s: "step_to M c H i n' c' H'" and ev: "evolves H' (cnodes c i) n'" and node: "node_commit M H' (cnodes c') i n'"
    and tasks: "\<And>j t. j \<in> M \<Longrightarrow> t \<in># outs c' j \<Longrightarrow> t \<in># outs c j \<or> (j = i \<and> (is_vote t \<or> posted_by n' t))"
    and replies: "\<And>j t resp. (j, t, resp) \<in> set (replies c') \<Longrightarrow>
      (j, t, resp) \<in> set (replies c) \<or> answer_fine H' (cnodes c') t resp"
  shows "cluster_commit M c' H'"
proof -
  have inv: "commit_inv M (cnodes c) (outs c) (replies c) H" using s by (simp add: step_to_def cluster_commit_def)
  have "request_fine M H' (cnodes c') t" if "is_vote t \<or> posted_by n' t" for t
    using that posted_request [OF node _ step_toD(13,14,10) [OF s]] by (auto simp: request_fine_def)
  moreover have "j \<in> M \<and> t \<in># outs c j" if "(j, t, resp) \<in> set (replies c)" for j t resp
  proof
    show "j \<in> M" using s that by (auto simp: step_to_def cluster_inv_def)
    show "t \<in># outs c j" using that by (force simp: outs_def)
  qed
  ultimately have "commit_inv M (cnodes c') (outs c') (replies c') H'"
    using tasks replies
    by (intro commit_frame [OF inv step_toD(1,2,10,7,5) [OF s] ev step_toD(6) [OF s] node]) blast+
  then show ?thesis by (simp add: cluster_commit_def)
qed

text \<open>A node that sends, stands or wins.\<close>

lemma step_booked:
  assumes s: "step_to M c H i n' c' H'" and b: "booked (cnodes c i) n'" and x: "index_fine M H' (cnodes c') i n'"
    and o: "outs c' = outs (put_node i n' c1)" "cnodes c1 = cnodes c" "\<And>j t. t \<in># outs c1 j \<Longrightarrow> t \<in># outs c j"
    and r: "set (replies c') \<subseteq> set (replies c)"
  shows "cluster_commit M c' H'"
proof -
  obtain us where us: "rpcPool n' = rpcPool (cnodes c i) @ us" "\<forall>t \<in> set us. is_vote t \<or> posted_by n' t"
    using b unfolding booked_def by blast
  have "outs c' = (outs c1)(i := outs c1 i + mset us)"
    using o(1) outs_put [of n' c1 i us] us(1) o(2) by simp
  then have tasks: "t \<in># outs c j \<or> (j = i \<and> (is_vote t \<or> posted_by n' t))" if "t \<in># outs c' j" for j t
    using that o(3) us(2) by (auto split: if_splits)
  have "node_commit M H' (cnodes c') i n'"
    using x step_fixed [OF s b] b by (simp add: node_commit_def booked_def)
  then show ?thesis
    using tasks r by (intro step_commit [OF s step_evolves [OF s b]]) auto
qed

section \<open>The steps\<close>

lemma calm_ballot: "calm env \<Longrightarrow> ballot_env env"
  by (simp add: calm_def ballot_env_def)

lemma event_term:
  assumes "calm env" "run_event env ev n = (out, n')"
  shows "currentTerm n \<le> currentTerm n'"
  using ballot_steps_term [OF movesD [OF moves_event [OF calm_ballot [OF assms(1)]] assms(2)]] by simp

lemma keyed_leader:
  assumes "node_commit M H N i n" "set (peer_ids n) = M - {i}" "role n = LEADER"
  shows "keyed n"
  unfolding keyed_def
proof
  fix p
  assume "p \<in> set (peer_ids n)"
  then have "p \<in> M - {i}" using assms(2) by simp
  then show "map_of (nextIndex n) p \<noteq> None" using assms(1,3) by (auto simp: node_commit_def index_fine_def)
qed

lemma commit_local:
  assumes s: "step_to M c H i n' c' H'" and c': "c' = put_node i n' c"
    and ev: "calm env" "internal ev" "run_event env ev (cnodes c i) = (out, n')"
  shows "cluster_commit M c' H'"
proof -
  have n: "node_commit M H (cnodes c) i (cnodes c i)" by (rule step_toD(11) [OF s])
  then have "ledger_fine (cnodes c i)" by (simp add: node_commit_def)
  then have b: "booked (cnodes c i) n'" "indexed (cnodes c i) n'"
    using booked_internal [OF ev] keyed_leader [OF n step_toD(15) [OF s]] by blast+
  show ?thesis
    by (rule step_booked [OF s b(1) step_index [OF s step_evolves [OF s b(1)] b(2)], of c]) (simp_all add: c')
qed

lemma commit_respond:
  assumes s: "step_to M c H i n' c' H'" and k: "k < length (replies c)" "replies c ! k = (i, t, resp)"
    and c': "c' = put_node i n' (c\<lparr>replies := drop_nth k (replies c)\<rparr>)"
    and r: "calm env" "run_task env t resp (cnodes c i) = (out, n')"
  shows "cluster_commit M c' H'"
proof -
  let ?n = "cnodes c i" and ?c1 = "c\<lparr>replies := drop_nth k (replies c)\<rparr>"
  have mem: "(i, t, resp) \<in> set (replies c)" using k nth_mem by metis
  have n: "node_commit M H (cnodes c) i ?n" by (rule step_toD(11) [OF s])
  then have fine: "ledger_fine ?n" and ix: "index_fine M H (cnodes c) i ?n" by (simp_all add: node_commit_def)
  have T: "t \<in># outs c i" using mem by (force simp: outs_def)
  have tf: "task_fine M (led c) i ?n t" using election_invD(6) [OF step_toD(1,5) [OF s]] T by blast
  have n': "n' = snd (run_task env t resp ?n)" using r(2) by simp
  have fin: "cluster_commit M c' H'" if b: "booked ?n n'" and x: "index_fine M H' (cnodes c') i n'"
  proof (rule step_booked [OF s b x, of ?c1])
    show "t \<in># outs c j" if "t \<in># outs ?c1 j" for j t
      using that outs_respond [OF k] by (metis fun_upd_apply insert_iff set_mset_add_mset_insert)
  qed (auto simp: c' dest: in_drop_nth)
  show ?thesis
  proof (cases "is_vote t")
    case True
    then obtain p port params u needed el where "t = VoteTask p port params u needed el" by (cases t) auto
    then have b: "booked ?n n'" "indexed ?n n'"
      using booked_vote_response [OF r(1) fine] n' by simp_all
    then show ?thesis using fin step_index [OF s step_evolves [OF s b(1)] b(2)] by blast
  next
    case False
    then have p: "task_peer t \<in> M - {i}" "task_term t \<in> fst ` led c" using tf by (cases t; force)+
    have key: "map_of (nextIndex ?n) (task_peer t) \<noteq> None" if "role ?n = LEADER"
      using keyed_leader [OF n step_toD(15) [OF s] that] p(1) step_toD(15) [OF s] by (simp add: keyed_def)
    from booked_response [OF r(1) fine False key n']
    have b: "booked ?n n'" and "indexed ?n n' \<or> (\<exists>r. resp = Ok r \<and> answered_by t r ?n n')" by blast+
    note ev = step_evolves [OF s b]
    from \<open>indexed ?n n' \<or> _\<close> show ?thesis
    proof (elim disjE exE conjE)
      assume "indexed ?n n'"
      then show ?thesis using fin b step_index [OF s ev] by blast
    next
      fix r
      assume rr: "resp = Ok r" and a: "answered_by t r ?n n'"
      then have lead: "role ?n = LEADER" "currentTerm n' = currentTerm ?n" "currentTerm ?n = task_term t"
        by (simp_all add: answered_by_def)
      obtain rt where rt: "int_at r ''term'' = Ok rt" "rt \<le> task_term t" using a by (auto simp: answered_by_def)
      have ans: "answer_fine H (cnodes c) t (Ok r)"
        using s mem rr by (auto simp: step_to_def cluster_commit_def commit_inv_def)
      have "nextIndex n' = nextIndex ?n \<or>
          (\<exists>x. nextIndex n' = AList.update (task_peer t) x (nextIndex ?n) \<and> aims H (cnodes c (task_peer t)) (task_term t) x)"
      proof (cases "reply_success r")
        case True
        then show ?thesis using a ans rt False unfolding answered_by_def answer_fine_def by auto
      next
        case no: False
        then obtain ci where ci: "int_at r ''conflictIndex'' = Ok ci" "aims H (cnodes c (task_peer t)) (task_term t) ci"
          using ans rt False unfolding answer_fine_def by auto
        then have "json_contains r ''conflictIndex''" using json_at_contains by (auto simp: int_at_def obind_eq_Ok)
        moreover have "max 0 ci = ci" using ci(2) by (simp add: aims_def)
        ultimately show ?thesis using a no ci unfolding answered_by_def by auto
      qed
      moreover have "\<exists>x. map_of (nextIndex ?n) q = Some x \<and> aims H (cnodes c q) (task_term t) x" if "q \<in> M - {i}" for q
        using ix lead that unfolding index_fine_def by simp
      ultimately have "\<exists>x. map_of (nextIndex n') q = Some x \<and> aims H (cnodes c q) (task_term t) x" if "q \<in> M - {i}" for q
        using that by (auto simp: map_of_update)
      then have "index_fine M H' (cnodes c') i n'"
        unfolding index_fine_def using step_aims [OF s ev _ p(2)] lead(2,3) by (metis DiffD1)
      then show ?thesis using fin b by blast
    qed
  qed
qed

text \<open>Where the batch goes: a follower that has what comes before it.\<close>

definition request_at :: "string set \<Rightarrow> history \<Rightarrow> int \<Rightarrow> nat \<Rightarrow> int \<Rightarrow> log_entry list \<Rightarrow> int \<Rightarrow> raft_node \<Rightarrow> bool" where
  "request_at M H u k pt es lc n \<longleftrightarrow>
     aims H n u (int k) \<and> k + length es \<le> length (glog H u) \<and> es = take (length es) (drop k (glog H u)) \<and>
     (0 < k \<longrightarrow> pt = eterm (glog H u ! (k - 1))) \<and> fixed M H u (glog H u) lc \<and> (es = [] \<longrightarrow> lc < int k)"

lemma conflict_aims:
  assumes c: "log_conflict n (int k - 1) pt" and q: "request_at M H u k pt es lc n" and le: "currentTerm n \<le> u"
    and n': "log n' = log n" "currentTerm n' = u"
  shows "aims H n' u (min (int k - 1) (len (log n)))"
proof -
  let ?f = "log n" and ?g = "glog H u"
  have k: "0 < k" "k \<le> length ?g" "pt = eterm (?g ! (k - 1))"
    using c q by (auto simp: log_conflict_def request_at_def)
  have "parts ?f ?g (nat (min (int k - 1) (len ?f)))"
    unfolding parts_def
  proof (intro allI impI, rule ccontr)
    fix m
    assume m: "m \<le> length ?f" "m \<le> length ?g" "take m ?f = take m ?g" "\<not> m \<le> nat (min (int k - 1) (len ?f))"
    then have lt: "k - 1 < m" "k - 1 < length ?f" using k(1) by auto
    then have "?f ! (k - 1) = ?g ! (k - 1)" using m(3) by (metis nth_take)
    moreover have "nat (int k - 1) = k - 1" by simp
    ultimately show False using c k lt(2) by (auto simp: log_conflict_def)
  qed
  then show ?thesis using n' k(1,2) by (auto simp: aims_def)
qed

lemma stored_prefix:
  assumes H: "history_fine H LT" and b: "backed H (log n)" "\<forall>e \<in> set (log n). eterm e \<le> currentTerm n"
    and q: "request_at M H u k pt es lc n" and le: "currentTerm n \<le> u" and c: "\<not> log_conflict n (int k - 1) pt"
  shows "take k (log n) = take k (glog H u)" "k \<le> length (log n)" "k \<le> length (glog H u)"
    "log_matching (log n) (glog H u)" "es \<noteq> [] \<Longrightarrow> prefix (merge_entries k es (log n)) (glog H u)"
proof -
  let ?f = "log n" and ?g = "glog H u" and ?lg = "merge_entries k es (log n)"
  have k: "k + length es \<le> length ?g" "es = take (length es) (drop k ?g)" and a: "aims H n u (int k)"
    and pt: "0 < k \<longrightarrow> pt = eterm (?g ! (k - 1))"
    using q by (simp_all add: request_at_def)
  show kg: "k \<le> length ?g" using k(1) by simp
  have "backed H ?g" using H by (simp add: history_fine_def)
  then show match: "log_matching ?f ?g" using backed_matching b(1) by blast
  have conf: "k \<le> length ?f \<and> eterm (?f ! (k - 1)) = eterm (?g ! (k - 1))" if "0 < k"
  proof -
    have "nat (int k - 1) = k - 1" by simp
    then show ?thesis using c pt that by (auto simp: log_conflict_def)
  qed
  then show kf: "k \<le> length ?f" by (cases "k = 0") simp_all
  show common: "take k ?f = take k ?g"
  proof (cases "k = 0")
    case False
    then have "k - 1 < length ?f" "k - 1 < length ?g" "Suc (k - 1) = k" using kf kg by linarith+
    then show ?thesis using match conf False unfolding log_matching_def by (metis neq0_conv)
  qed simp
  assume ne: "es \<noteq> []"
  have cases: "?lg = ?f \<or> ?lg = take (k + length es) ?g"
    using merge_cases [OF common kf kg k(2) match] by blast
  have agree: "k + length es \<le> length ?lg" "take (k + length es) ?lg = take (k + length es) ?g"
    using merge_length [OF kf] merge_agrees [OF common kf k(2) match] by blast+
  have no: "?lg \<noteq> ?f" if "parts ?f ?g k"
    using that agree k(1) ne unfolding parts_def by force
  from a le consider "currentTerm n < u" "gbase H u \<le> k" | "prefix ?f ?g" | "parts ?f ?g k"
    by (auto simp: aims_def)
  then show "prefix ?lg ?g"
  proof cases
    case 1
    then have "parts ?f ?g k" using b(2) by (intro parts_base [OF H]) force+
    then show ?thesis using no cases take_is_prefix by metis
  next
    case 2
    then show ?thesis using cases take_is_prefix by metis
  next
    case 3
    then show ?thesis using no cases take_is_prefix by metis
  qed
qed

text \<open>What a follower may commit after it has stored a batch.\<close>

lemma stored_commit:
  assumes H: "history_fine H LT" and b: "backed H (log n)" "\<forall>e \<in> set (log n). eterm e \<le> currentTerm n"
    and q: "request_at M H u k pt es lc n" and le: "currentTerm n \<le> u" and c: "\<not> log_conflict n (int k - 1) pt"
    and n: "ledger_fine n" "fixed M H (currentTerm n) (log n) (commitIndex n)"
    and e: "elected_fine M N LT H" "finite M" "u \<in> LT" and req: "int_at req ''leaderCommit'' = Ok lc"
    and n1: "ledger n1 = ledger n" "role n1 = FOLLOWER" "currentTerm n1 = u" and lg: "lg = merge_entries k es (log n)"
    and n': "n' = snd (update_commit env req (n1\<lparr>log := lg\<rparr>))"
  shows "ledger_fine n' \<and> currentTerm n' = u \<and> role n' = FOLLOWER \<and> log n' = lg \<and> rpcPool n' = rpcPool n1 \<and>
    (fixed M H u lg (commitIndex n') \<or> committable n' (commitIndex n'))"
proof -
  let ?f = "log n" and ?g = "glog H u" and ?c = "commitIndex n" and ?m = "n1\<lparr>log := lg\<rparr>"
  note s = stored_prefix [OF H b q le c]
  have es: "es = take (length es) (drop k ?g)" and lc: "fixed M H u ?g lc" "es = [] \<longrightarrow> lc < int k"
    using q by (simp_all add: request_at_def)
  have c: "-1 \<le> ?c" "?c < len ?f" using n(1) by (simp_all add: ledger_fine_def)
  have "nat (?c + 1) \<le> length ?g \<and> take (nat (?c + 1)) ?g = take (nat (?c + 1)) ?f"
    by (rule fixed_leader [OF n(2) e le])
  moreover have "nat (?c + 1) \<le> length ?f" using c by simp
  ultimately have keep: "take (nat (?c + 1)) lg = take (nat (?c + 1)) ?f"
    using merge_common [OF s(1-3) es s(4)] lg by metis
  have "log n1 = ?f" "commitIndex n1 = ?c" using n1(1) by (simp_all add: ledger_eq)
  moreover have "ledger_fine n1" using n(1) ledger_fine_same [OF n1(1)] by simp
  ultimately have fine: "ledger_fine ?m" using ledger_fine_log [of n1 lg] keep by simp
  note u = update_commit_ledger [OF fine req n']
  have same: "log n' = lg" "currentTerm n' = u" "role n' = FOLLOWER" "rpcPool n' = rpcPool n1"
    using u n1 by (simp_all add: face_eq book_eq)
  have announced: "fixed M H u lg (min lc (len lg - 1))" if "?c < lc"
  proof (rule fixed_take [OF lc(1)])
    show "-1 \<le> min lc (len lg - 1)" "min lc (len lg - 1) \<le> lc" using that c(1) by simp_all
    show "take (nat (min lc (len lg - 1) + 1)) lg = take (nat (min lc (len lg - 1) + 1)) ?g"
    proof (cases "es = []")
      case True
      then have "nat (min lc (len lg - 1) + 1) \<le> k" "lg = ?f" using lc(2) lg by simp_all
      then show ?thesis using take_eq_le [OF s(1)] by simp
    next
      case False
      then have "prefix lg ?g" using s(5) lg by simp
      then show ?thesis using prefix_take [of lg ?g] by simp
    qed
  qed
  have kept: "fixed M H u lg ?c"
    using fixed_older [OF fixed_take [OF n(2) c(1) order_refl keep] older_refl le] by simp
  have "fixed M H u lg (commitIndex n') \<or> committable n' (commitIndex n')"
    using u announced kept \<open>commitIndex n1 = ?c\<close> by auto
  then show ?thesis using u same by blast
qed

text \<open>A request that was taken leaves the node in order, and its answer names an index that may be sent next.\<close>

lemma taken_request:
  assumes H: "history_fine H LT" and b: "backed H (log n)" "\<forall>e \<in> set (log n). eterm e \<le> currentTerm n"
    and q: "request_at M H u k pt es lc n" and n: "ledger_fine n" "fixed M H (currentTerm n) (log n) (commitIndex n)"
    and e: "elected_fine M N LT H" "finite M" "u \<in> LT" and req: "int_at req ''leaderCommit'' = Ok lc"
    and took: "took env req u k pt es n out n'"
  shows "ledger_fine n' \<and> currentTerm n \<le> u \<and> currentTerm n' = u \<and> role n' = FOLLOWER \<and> rpcPool n' = rpcPool n \<and>
    (log n' = log n \<or> prefix (log n') (glog H u)) \<and>
    (fixed M H u (log n') (commitIndex n') \<or> committable n' (commitIndex n')) \<and>
    (\<forall>r. out = Ok r \<longrightarrow> (r = append_reply u True \<and> (es \<noteq> [] \<longrightarrow> aims H n' u (int (k + length es)))) \<or>
       (\<exists>ci. r = conflict_reply (currentTerm n) ci \<and> aims H n' u ci))"
proof -
  obtain n1 where le: "currentTerm n \<le> u" and n1: "ledger n1 = ledger n" "rpcPool n1 = rpcPool n" "role n1 = FOLLOWER" "currentTerm n1 = u"
    and out: "if log_conflict n (int k - 1) pt
        then n' = resetElectionTimer env n1 \<and> out = Ok (conflict_reply (currentTerm n) (min (int k - 1) (len (log n))))
        else n' = snd (update_commit env req (n1\<lparr>log := merge_entries k es (log n)\<rparr>)) \<and>
           (\<forall>r. out = Ok r \<longrightarrow> r = append_reply u True)"
    using took unfolding took_def by blast
  show ?thesis
  proof (cases "log_conflict n (int k - 1) pt")
    case True
    then have n': "n' = resetElectionTimer env n1" "out = Ok (conflict_reply (currentTerm n) (min (int k - 1) (len (log n))))"
      using out by simp_all
    have l: "ledger n' = ledger n" "currentTerm n' = u" "role n' = FOLLOWER" "rpcPool n' = rpcPool n"
      using n1 by (simp_all add: n'(1) resetElectionTimer_def Let_def ledger_eq)
    then have "log n' = log n" "commitIndex n' = commitIndex n" by (simp_all add: ledger_eq)
    moreover have "fixed M H u (log n) (commitIndex n)"
      using fixed_older [OF n(2) older_refl le] by simp
    moreover have "aims H n' u (min (int k - 1) (len (log n)))"
      by (rule conflict_aims [OF True q le _ l(2)]) (use l(1) in \<open>simp add: ledger_eq\<close>)
    then have "\<forall>r. out = Ok r \<longrightarrow> (\<exists>ci. r = conflict_reply (currentTerm n) ci \<and> aims H n' u ci)" using n'(2) by blast
    ultimately show ?thesis using l le n(1) ledger_fine_same [OF l(1)] by simp
  next
    case False
    then have n': "n' = snd (update_commit env req (n1\<lparr>log := merge_entries k es (log n)\<rparr>))"
      and r: "\<forall>r. out = Ok r \<longrightarrow> r = append_reply u True" using out by simp_all
    note s = stored_commit [OF H b q le False n e req n1(1,3,4) refl n']
    have p: "es \<noteq> [] \<longrightarrow> prefix (log n') (glog H u)" using stored_prefix(5) [OF H b q le False] s by simp
    have "k + length es \<le> length (glog H u)" using q by (simp add: request_at_def)
    then have "es \<noteq> [] \<longrightarrow> aims H n' u (int (k + length es))" using p s by (simp add: aims_def)
    moreover have "log n' = log n \<or> prefix (log n') (glog H u)" using p s by (cases "es = []") simp_all
    ultimately show ?thesis using s n1(2) le r by auto
  qed
qed

text \<open>A waiting request reads as a batch of the leader's log with the indices that go with it.\<close>

lemma request_reads:
  assumes H: "history_fine H LT" and u: "u \<in> LT" "is_int32 u" "task_term t = u" "json_at (task_params t) ''term'' = Ok (JInteger u)"
    and t: "request_fine M H N t" "\<not> is_vote t" "carried (glog H u) t"
  obtains k pt es lc where "task_next t = int k" "task_count t = len es"
    "reads_request (json_norm (task_params t)) u k pt es lc" "request_at M H u k pt es lc (N (task_peer t))"
proof -
  let ?g = "glog H u" and ?req = "json_norm (task_params t)"
  obtain k pt' es where c: "task_next t = int k" "task_count t = len es"
      "json_at (task_params t) ''prevLogIndex'' = Ok (JInteger (int k - 1))"
      "json_at (task_params t) ''entries'' = Ok (JArray (map entry_json es))"
      "es = [] \<or> es = take (length es) (drop k ?g)"
    using t(3) unfolding carried_def by blast
  obtain pt lc where r: "aims H (N (task_peer t)) u (int k)" "int k + len es \<le> len ?g"
      "json_at (task_params t) ''prevLogTerm'' = Ok (JInteger pt)" "is_int32 pt" "0 < k \<longrightarrow> pt = eterm (?g ! (k - 1))"
      "json_at (task_params t) ''leaderCommit'' = Ok (JInteger lc)" "fixed M H u ?g lc" "es = [] \<longrightarrow> lc < int k"
    using t(1,2) c(1,2) u(3) unfolding request_fine_def by (auto simp: nat_diff_distrib)
  have g: "len ?g \<le> INT_MAX" and b: "backed H ?g" using H u(1) by (simp_all add: history_fine_def)
  have "is_int32 (int k - 1)" "is_int32 lc"
    using g r(2,7) by (auto simp: is_int32_def INT_MIN_def INT_MAX_def fixed_def)
  moreover have "is_int32 (eterm x)" if "x \<in> set ?g" for x
    using backed_terms [OF H b that] H by (simp add: history_fine_def)
  then have "list_all2 reads_entry (map json_norm (map entry_json es)) es"
    using c(5) by (intro reads_entries(2)) (metis empty_iff empty_set in_set_dropD in_set_takeD)
  moreover have "json_at ?req ''entries'' = Ok (JArray (map json_norm (map entry_json es)))"
    by (simp add: json_at_norm c(4))
  ultimately have "reads_request ?req u k pt es lc"
    using int_at_JInteger c(3) r(3,4,6) u(2,4) unfolding reads_request_def int_at_norm by blast
  moreover have "request_at M H u k pt es lc (N (task_peer t))"
    using r c(5) by (auto simp: request_at_def)
  ultimately show thesis using that c(1,2) by blast
qed

lemma answer_error [simp]: "answer_fine H N t (Ok (error_json w))"
  by (auto simp: answer_fine_def error_json_def json_object_def Let_def int_at_def)

lemma answer_of: "reply_of out resp \<Longrightarrow> (\<And>r. out = Ok r \<Longrightarrow> answer_fine H N t (Ok (json_norm r))) \<Longrightarrow> answer_fine H N t resp"
  by (auto simp: reply_of_def)

lemma reply_reads:
  "is_int32 x \<Longrightarrow> int_at (append_reply x b) ''term'' = Ok x"
  "is_int32 x \<Longrightarrow> int_at (conflict_reply y x) ''conflictIndex'' = Ok x"
  by (intro int_at_JInteger; simp add: append_reply_def conflict_reply_def json_object_def Let_def)+

text \<open>A step that does not touch the ledger.\<close>

lemma commit_still:
  assumes s: "step_to M c H j n' c' H'" and v: "ledger n' = ledger (cnodes c j)"
      "role n' = LEADER \<longrightarrow> role (cnodes c j) = LEADER \<and> currentTerm n' = currentTerm (cnodes c j)"
  shows "evolves H' (cnodes c j) n'" "node_commit M H' (cnodes c') j n'"
proof -
  let ?n = "cnodes c j"
  have n: "node_commit M H (cnodes c) j ?n" by (rule step_toD(11) [OF s])
  have l: "log n' = log ?n" "commitIndex n' = commitIndex ?n" "nextIndex n' = nextIndex ?n" using v(1) by (simp_all add: ledger_eq)
  show ev: "evolves H' ?n n'" using l step_toD(8) [OF s] by (simp add: evolves_def)
  have "fixed M H (currentTerm ?n) (log ?n) (commitIndex ?n)" using n by (simp add: node_commit_def)
  then have "fixed M H' (currentTerm n') (log ?n) (commitIndex ?n)"
    using fixed_older [OF _ step_toD(7,8) [OF s]] by simp
  moreover have "indexed ?n n'" using v(2) l(3) by (simp add: indexed_def)
  ultimately show "node_commit M H' (cnodes c') j n'"
    using n l step_index [OF s ev] ledger_fine_same [OF v(1)] by (simp add: node_commit_def)
qed

text \<open>A request that is refused changes nothing; one that is taken leaves the node in order.\<close>

lemma commit_append_call:
  assumes s: "step_to M c H j n' c' H'" and i: "i \<in> M" and t: "t \<in># outs c i" "\<not> is_vote t" "task_peer t = j"
    and r: "calm env" "onAppendEntries env (json_norm (task_params t)) (cnodes c j) = (out, n')" "reply_of out resp"
  shows "evolves H' (cnodes c j) n' \<and> node_commit M H' (cnodes c') j n' \<and> rpcPool n' = rpcPool (cnodes c j) \<and>
    answer_fine H' (cnodes c') t resp"
proof -
  let ?n = "cnodes c j" and ?u = "task_term t" and ?LT = "fst ` led c"
  note e = step_toD(1) [OF s] and l = step_toD(2) [OF s] and j = step_toD(5) [OF s] and o = step_toD(7) [OF s]
  have "task_fine M (led c) i (cnodes c i) t" using election_invD(6) [OF e i] t by blast
  then have fine: "is_int32 ?u" "(?u, i) \<in> led c" "i \<noteq> j" "json_at (task_params t) ''term'' = Ok (JInteger ?u)"
    using t(2,3) by (cases t; force)+
  then have u: "?u \<in> ?LT" by force
  have b: "backed H (log ?n)" "\<forall>e \<in> set (log ?n). eterm e \<le> currentTerm ?n"
    using step_toD(12) [OF s] by (simp_all add: book_fine_def)
  have n: "node_commit M H (cnodes c) j ?n" by (rule step_toD(11) [OF s])
  then have nf: "ledger_fine ?n" "fixed M H (currentTerm ?n) (log ?n) (commitIndex ?n)" by (simp_all add: node_commit_def)
  have "request_fine M H (cnodes c) t" using s i t(1) by (simp add: step_to_def cluster_commit_def commit_inv_def)
  moreover have "carried (glog H ?u) t" using log_invD(4) [OF l i t(1)] t(2) by (simp add: task_log_def)
  ultimately obtain k pt es lc where q: "task_next t = int k" "task_count t = len es"
      "reads_request (json_norm (task_params t)) ?u k pt es lc" "request_at M H ?u k pt es lc ?n"
    using request_reads [OF step_toD(9) [OF s] u fine(1) refl fine(4) _ t(2), of M "cnodes c"] t(3) by metis
  from append_cases [OF r(1) q(3) r(2)] show ?thesis
  proof
    assume ref: "refused ?u ?n out n'"
    then have n': "n' = ?n" by (simp add: refused_def)
    have "answer_fine H' (cnodes c') t (Ok (json_norm r))" if out: "out = Ok r" for r
    proof -
      have rr: "r = append_reply (currentTerm ?n) False" "?u < currentTerm ?n \<or> (role ?n = LEADER \<and> currentTerm ?n = ?u)"
        using ref out by (simp_all add: refused_def)
      have "\<not> (role ?n = LEADER \<and> currentTerm ?n = ?u)"
        using leader_term [OF e j] one_leader [OF e] fine(2,3) by metis
      then have "?u < currentTerm ?n" using rr(2) by blast
      moreover have "is_int32 (currentTerm ?n)" using election_invD(1) [OF e j] by (simp add: node_fine_def)
      ultimately show ?thesis using reply_reads(1) by (simp add: answer_fine_def rr(1) int_at_norm)
    qed
    then have "answer_fine H' (cnodes c') t resp" by (rule answer_of [OF r(3)])
    then show ?thesis using commit_still [OF s] n' by simp
  next
    assume took: "took env (json_norm (task_params t)) ?u k pt es ?n out n'"
    have lc: "int_at (json_norm (task_params t)) ''leaderCommit'' = Ok lc" using q(3) by (simp add: reads_request_def)
    have fin: "finite M" using e by (simp add: election_inv_def)
    have d: "elected_fine M (cnodes c) ?LT H" using log_invD(6) [OF l] .
    from taken_request [OF step_toD(9) [OF s] b q(4) nf d fin u lc took]
    have x: "ledger_fine n'" "currentTerm ?n \<le> ?u" "currentTerm n' = ?u" "role n' = FOLLOWER" "rpcPool n' = rpcPool ?n"
        "log n' = log ?n \<or> prefix (log n') (glog H ?u)" "fixed M H ?u (log n') (commitIndex n') \<or> committable n' (commitIndex n')"
      and out: "\<And>r. out = Ok r \<Longrightarrow> (r = append_reply ?u True \<and> (es \<noteq> [] \<longrightarrow> aims H n' ?u (int (k + length es)))) \<or>
       (\<exists>ci. r = conflict_reply (currentTerm ?n) ci \<and> aims H n' ?u ci)" by blast+
    have "log n' = log ?n \<or> prefix (log n') (glog H' ?u)"
      using x(6) older_prefix [OF o] prefix_order.order_trans by blast
    then have ev: "evolves H' ?n n'" using x(2,3) by (simp add: evolves_def)
    have "fixed M H' (currentTerm n') (log n') (commitIndex n')"
      using x(7)
    proof
      assume "fixed M H ?u (log n') (commitIndex n')"
      then show ?thesis using fixed_older [OF _ o order_refl] x(3) by simp
    next
      assume "committable n' (commitIndex n')"
      then show ?thesis
        using x(1) by (cases "commitIndex n' = -1") (auto intro!: step_committable [OF s] simp: ledger_fine_def)
    qed
    then have nc: "node_commit M H' (cnodes c') j n'" using x(1,4) by (simp add: node_commit_def index_fine_def)
    have later: "aims H' (cnodes c' j) ?u y" if "aims H n' ?u y" for y
    proof -
      have "backed H (log n') \<and> (\<forall>e \<in> set (log n'). eterm e \<le> ?u)"
        using x(6)
      proof
        assume "prefix (log n') (glog H ?u)"
        then obtain m where m: "log n' = take m (glog H ?u)" by (metis append_eq_conv_conj prefixE)
        have "eterm e \<le> ?u" if "e \<in> set (glog H ?u)" for e
          using that step_toD(9) [OF s] by (auto simp: history_fine_def in_set_conv_nth)
        then show ?thesis using m backed_take step_toD(9) [OF s] by (auto simp: history_fine_def dest: in_set_takeD)
      qed (use b x(2) in force)
      then have "aims H' n' ?u y"
        using x(3) by (intro aims_evolves [OF that o step_toD(9,10) [OF s] u]) simp_all
      then show ?thesis using step_toD(6) [OF s] by simp
    qed
    have "answer_fine H' (cnodes c') t (Ok (json_norm r))" if o: "out = Ok r" for r
      using out [OF o]
    proof (elim disjE exE conjE)
      assume rr: "r = append_reply ?u True" "es \<noteq> [] \<longrightarrow> aims H n' ?u (int (k + length es))"
      then have "0 < task_count t \<longrightarrow> aims H' (cnodes c' j) ?u (task_next t + task_count t)"
        using later q(1,2) by simp
      then show ?thesis using t(3) by (simp add: answer_fine_def rr(1))
    next
      fix ci
      assume rr: "r = conflict_reply (currentTerm ?n) ci" "aims H n' ?u ci"
      moreover have "len (glog H ?u) \<le> INT_MAX" using step_toD(9) [OF s] u unfolding history_fine_def by blast
      ultimately have "is_int32 ci" by (simp add: aims_def is_int32_def INT_MIN_def)
      then show ?thesis
        using reply_reads(2) later [OF rr(2)] t(3) by (simp add: answer_fine_def rr(1) int_at_norm)
    qed
    then have "answer_fine H' (cnodes c') t resp" by (rule answer_of [OF r(3)])
    then show ?thesis using ev nc x(5) by blast
  qed
qed

lemma commit_deliver:
  assumes s: "step_to M c H (task_peer t) n' c' H'" and k: "k < length (calls c)" "calls c ! k = (i, t)"
    and c': "c' = add_vote t (task_peer t) i out
      (put_node (task_peer t) n' (c\<lparr>calls := drop_nth k (calls c), replies := (i, t, resp) # replies c\<rparr>))"
    and r: "calm env" "receive env t (cnodes c (task_peer t)) = (out, n')" "reply_of out resp"
  shows "cluster_commit M c' H'"
proof -
  let ?j = "task_peer t" and ?c1 = "c\<lparr>calls := drop_nth k (calls c), replies := (i, t, resp) # replies c\<rparr>"
  have i: "i \<in> M" using s k nth_mem [OF k(1)] by (auto simp: step_to_def cluster_inv_def)
  have t: "t \<in># outs c i" using k nth_mem [OF k(1)] by (force simp: outs_def)
  have "evolves H' (cnodes c ?j) n' \<and> node_commit M H' (cnodes c') ?j n' \<and> rpcPool n' = rpcPool (cnodes c ?j) \<and>
      answer_fine H' (cnodes c') t resp"
  proof (cases "is_vote t")
    case True
    then have "onRequestVote env (json_norm (task_params t)) (cnodes c ?j) = (out, n')" using r(2) by (simp add: receive_def)
    from ledger_vote [OF r(1) this] show ?thesis
      using commit_still [OF s] True by (simp add: answer_fine_def)
  next
    case False
    then have "onAppendEntries env (json_norm (task_params t)) (cnodes c ?j) = (out, n')" using r(2) by (simp add: receive_def)
    then show ?thesis by (rule commit_append_call [OF s i t False refl r(1) _ r(3)])
  qed
  then have x: "evolves H' (cnodes c ?j) n'" "node_commit M H' (cnodes c') ?j n'" "rpcPool n' = rpcPool (cnodes c ?j) @ []"
      "answer_fine H' (cnodes c') t resp" by simp_all
  have "outs c' = outs (put_node ?j n' ?c1)" unfolding c' by (simp add: outs_alt)
  also have "\<dots> = outs ?c1" using outs_put [of n' ?c1 ?j "[]"] x(3) by simp
  also have "\<dots> = outs c" by (rule outs_answer [OF k])
  finally have o: "outs c' = outs c" .
  show ?thesis
    by (rule step_commit [OF s x(1,2)]) (unfold o, use x(4) in \<open>auto simp: c'\<close>)
qed

lemma commit_same:
  assumes s: "step_to M c H i n' c' H'" and v: "ledger n' = ledger (cnodes c i)" "face n' = face (cnodes c i)"
    and o: "outs c' = outs c" and r: "\<And>x. x \<in> set (replies c') \<Longrightarrow> x \<in> set (replies c) \<or> (\<exists>w. snd (snd x) = Ok (error_json w))"
  shows "cluster_commit M c' H'"
proof -
  have *: "role n' = LEADER \<longrightarrow> role (cnodes c i) = LEADER \<and> currentTerm n' = currentTerm (cnodes c i)"
    using v(2) by (simp add: face_eq)
  show ?thesis
    by (rule step_commit [OF s commit_still [OF s v(1) *]]) (use o r in force)+
qed

lemma receive_term:
  assumes "calm env" "receive env t n = (out, n')"
  shows "currentTerm n \<le> currentTerm n'"
proof -
  note m = moves_onRequestVote [OF calm_ballot [OF assms(1)], of "json_norm (task_params t)"]
    moves_onAppendEntries [OF calm_ballot [OF assms(1)], of "json_norm (task_params t)"]
  show ?thesis
    using assms(2) ballot_steps_term [OF movesD [OF m(1)]] ballot_steps_term [OF movesD [OF m(2)]]
    by (auto simp: receive_def split: if_splits)
qed

lemma cluster_step_commit:
  assumes four: "card M \<le> 4" and inv: "cluster_inv M c" and lg: "cluster_log M c H" and com: "cluster_commit M c H"
    and step: "cluster_step M c c'"
  shows "\<exists>H'. older H H' \<and> cluster_log M c' H' \<and> cluster_commit M c' H'"
proof -
  obtain H' where o: "older H H'" and lg': "cluster_log M c' H'" using cluster_step_log [OF step inv lg] by blast
  have inv': "cluster_inv M c'" by (rule cluster_step_inv [OF step inv])
  have to: "step_to M c H i n' c' H'" if "i \<in> M" "cnodes c' = (cnodes c)(i := n')" "currentTerm (cnodes c i) \<le> currentTerm n'" for i n'
    using that four inv lg com o lg' inv' by (simp add: step_to_def)
  from step have "cluster_commit M c' H'"
  proof cases
    case (local i env ev out n')
    then show ?thesis using commit_local [OF to] event_term by simp
  next
    case (take_task i t ts)
    let ?n = "(cnodes c i)\<lparr>rpcPool := ts\<rparr>"
    have "step_to M c H i ?n c' H'" by (rule to) (use take_task in simp_all)
    moreover have "outs c' = outs c" using take_task by (auto simp: outs_def fun_eq_iff)
    ultimately show ?thesis
      using take_task by (elim commit_same) (simp_all add: ledger_eq)
  next
    case (deliver k i t env out n' resp)
    then show ?thesis using commit_deliver [OF to] receive_term by simp
  next
    case (lose k i t w)
    have i: "i \<in> M" using inv lose(2,3) nth_mem [OF lose(2)] by (auto simp: cluster_inv_def)
    have "step_to M c H i (cnodes c i) c' H'" by (rule to) (use i lose in simp_all)
    then show ?thesis
      using outs_answer [OF lose(2,3)] lose(1) by (elim commit_same) auto
  next
    case (respond k i t resp env out n')
    have i: "i \<in> M" using inv respond(2,3) nth_mem [OF respond(2)] by (auto simp: cluster_inv_def)
    have "currentTerm (cnodes c i) \<le> currentTerm n'"
      using ballot_steps_term [OF movesD [OF moves_run_task [OF calm_ballot [OF respond(4)]] respond(5)]] by simp
    then show ?thesis using commit_respond [OF to [OF i] respond(2,3,1,4,5)] respond(1) by simp
  qed
  then show ?thesis using o lg' by blast
qed

section \<open>Reachable states\<close>

lemma cluster_start_commit: "cluster_start M c \<Longrightarrow> cluster_commit M c history_start"
proof -
  assume c: "cluster_start M c"
  have n: "role (cnodes c i) = FOLLOWER \<and> rpcPool (cnodes c i) = [] \<and>
      ledger (cnodes c i) = ([], [], -1, -1, [])" if i: "i \<in> M" for i
  proof -
    obtain env port peers where "cnodes c i = raft_start env (raft_node_new i port peers)"
      using c i unfolding cluster_start_def by blast
    then show ?thesis
      by (simp add: raft_start_def raft_node_new_def resetElectionTimer_def Let_def ledger_def)
  qed
  have s: "calls c = []" "replies c = []" using c by (simp_all add: cluster_start_def)
  have "node_commit M history_start (cnodes c) i (cnodes c i)" if "i \<in> M" for i
    using n [OF that] by (auto simp: node_commit_def ledger_fine_def ledger_def index_fine_def replayed_def replay_def)
  moreover have "outs c i = {#}" if "i \<in> M" for i using n [OF that] s by (simp add: outs_def)
  ultimately show ?thesis using s by (simp add: cluster_commit_def commit_inv_def)
qed

lemma cluster_steps_commit:
  "(cluster_step M)\<^sup>*\<^sup>* c c' \<Longrightarrow> card M \<le> 4 \<Longrightarrow> cluster_inv M c \<Longrightarrow> cluster_log M c H \<Longrightarrow> cluster_commit M c H \<Longrightarrow>
   \<exists>H'. older H H' \<and> cluster_log M c' H' \<and> cluster_commit M c' H'"
proof (induction rule: rtranclp_induct)
  case (step c1 c2)
  then obtain H1 where H1: "older H H1" "cluster_log M c1 H1" "cluster_commit M c1 H1" by blast
  have "cluster_inv M c1" using cluster_steps_inv [OF step.hyps(1)] step.prems by blast
  then show ?case using cluster_step_commit [OF step.prems(1) _ H1(2,3) step.hyps(2)] older_trans [OF H1(1)] by blast
qed (use older_refl in blast)

lemma cluster_reachable_commit:
  "card M \<le> 4 \<Longrightarrow> cluster_reachable M c \<Longrightarrow> \<exists>H. cluster_log M c H \<and> cluster_commit M c H"
  using cluster_steps_commit cluster_start_commit cluster_start_log cluster_start_inv unfolding cluster_reachable_def by metis

lemma reachable_ledger:
  assumes "card M \<le> 4" "cluster_reachable M c" "i \<in> M"
  shows "ledger_fine (cnodes c i)"
  using cluster_reachable_commit [OF assms(1,2)] assms(3) by (auto simp: cluster_commit_def commit_inv_def node_commit_def)

text \<open>What two nodes commit, at whatever time, is the same.\<close>

lemma committed_same:
  assumes four: "card M \<le> 4" and c: "cluster_reachable M c" "(cluster_step M)\<^sup>*\<^sup>* c c'" and ij: "i \<in> M" "j \<in> M"
    and k: "0 \<le> k" "k \<le> commitIndex (cnodes c i)" "k \<le> commitIndex (cnodes c' j)"
  shows "take (Suc (nat k)) (log (cnodes c i)) = take (Suc (nat k)) (log (cnodes c' j))"
proof -
  obtain H where H: "cluster_log M c H" "cluster_commit M c H" using cluster_reachable_commit [OF four c(1)] by blast
  have inv: "cluster_inv M c" by (rule cluster_reachable_inv [OF c(1)])
  obtain H' where H': "older H H'" "cluster_log M c' H'" "cluster_commit M c' H'"
    using cluster_steps_commit [OF c(2) four inv H] by blast
  have "cluster_inv M c'" by (rule cluster_steps_inv [OF c(2) inv])
  then have fin: "finite M" by (simp add: cluster_inv_def election_inv_def)
  have l: "log_inv M (cnodes c') (outs c') (granted c') (fst ` led c') H'" using H'(2) by (simp add: cluster_log_def)
  have "fixed M H (currentTerm (cnodes c i)) (log (cnodes c i)) (commitIndex (cnodes c i))"
    using H(2) ij(1) by (simp add: cluster_commit_def commit_inv_def node_commit_def)
  then have f: "fixed M H' (currentTerm (cnodes c i)) (log (cnodes c i)) (commitIndex (cnodes c i))"
    using fixed_older [OF _ H'(1)] by simp
  have "fixed M H' (currentTerm (cnodes c' j)) (log (cnodes c' j)) (commitIndex (cnodes c' j))"
    using H'(3) ij(2) by (simp add: cluster_commit_def commit_inv_def node_commit_def)
  then show ?thesis by (rule fixed_agree [OF f _ log_invD(6) [OF l] fin log_invD(1) [OF l] k])
qed

text \<open>Nodes that have applied as many entries have the same table, up to the times.\<close>

lemma replayed_agree: "replayed es tab \<Longrightarrow> replayed es tab' \<Longrightarrow> without_clock tab = without_clock tab'"
  unfolding replayed_def using replay_same [OF _ refl] by (elim exE conjE) (metis length_map map_snd_zip)

lemma applied_same:
  assumes "card M \<le> 4" "cluster_reachable M c" "(cluster_step M)\<^sup>*\<^sup>* c c'" "i \<in> M" "j \<in> M"
    and same: "lastApplied (cnodes c i) = lastApplied (cnodes c' j)"
  shows "without_clock (stateMachine (cnodes c i)) = without_clock (stateMachine (cnodes c' j))"
proof -
  let ?n = "cnodes c i" and ?n' = "cnodes c' j" and ?k = "lastApplied (cnodes c i)"
  have "cluster_reachable M c'" using assms(2,3) rtranclp_trans unfolding cluster_reachable_def by metis
  then have n: "ledger_fine ?n" "ledger_fine ?n'" using reachable_ledger assms(1,2,4,5) by blast+
  have "take (nat (?k + 1)) (log ?n) = take (nat (?k + 1)) (log ?n')"
  proof (cases "?k = -1")
    case False
    then have k: "0 \<le> ?k" "?k \<le> commitIndex ?n" "?k \<le> commitIndex ?n'" using n same by (simp_all add: ledger_fine_def)
    moreover have "nat (?k + 1) = Suc (nat ?k)" using k(1) by simp
    ultimately show ?thesis using committed_same [OF assms(1-5) k] by simp
  qed simp
  then have "replayed (take (nat (?k + 1)) (log ?n)) (stateMachine ?n)" "replayed (take (nat (?k + 1)) (log ?n)) (stateMachine ?n')"
    using n same by (simp_all add: ledger_fine_def)
  then show ?thesis by (rule replayed_agree)
qed

end
