(* ===== verification/Raft_Schedule.thy ===== *)
theory Raft_Schedule imports Raft_Cluster begin

text \<open>
  Runs of a cluster that can be computed: a schedule is a list of moves, each of which is one
  step of \<open>Raft_Cluster\<close> in calm surroundings, or three for a call that is lost. The nodes
  are kept in an association list; a schedule that runs through leads from a start of the
  cluster to a reachable state.
\<close>

record board =
  bnodes :: "(string \<times> raft_node) list"
  bcalls :: "(string \<times> task) list"
  breplies :: "(string \<times> task \<times> json outcome) list"

datatype move =
    Event string node_event     \<comment> \<open>an event of the node itself\<close>
  | Take string                 \<comment> \<open>its thread pool takes the next task\<close>
  | Discard string              \<comment> \<open>it takes the next task, whose call fails\<close>
  | Deliver nat                 \<comment> \<open>a call reaches its peer, and is answered\<close>
  | Respond nat                 \<comment> \<open>a reply reaches the caller\<close>

definition bnode :: "board \<Rightarrow> string \<Rightarrow> raft_node" where
  "bnode b i = (case map_of (bnodes b) i of Some n \<Rightarrow> n | None \<Rightarrow> raft_node_new i 0 [])"

definition put_board :: "string \<Rightarrow> raft_node \<Rightarrow> board \<Rightarrow> board" where
  "put_board i n b = b\<lparr>bnodes := AList.update i n (bnodes b)\<rparr>"

fun run_move :: "move \<Rightarrow> board \<Rightarrow> board option" where
  "run_move (Event i ev) b =
     (case run_event calm_env ev (bnode b i) of (out, n') \<Rightarrow>
        if internal ev \<and> alive out \<and> len (log n') \<le> INT_MAX \<and> map_of (bnodes b) i \<noteq> None
        then Some (put_board i n' b) else None)"
| "run_move (Take i) b =
     (case rpcPool (bnode b i) of
        [] \<Rightarrow> None
      | t # ts \<Rightarrow>
          if map_of (bnodes b) i = None then None
          else Some (put_board i ((bnode b i)\<lparr>rpcPool := ts\<rparr>) b\<lparr>bcalls := (i, t) # bcalls b\<rparr>))"
| "run_move (Discard i) b =
     (case rpcPool (bnode b i) of
        [] \<Rightarrow> None
      | t # ts \<Rightarrow>
          if map_of (bnodes b) i = None then None
          else Some (put_board i ((bnode b i)\<lparr>rpcPool := ts\<rparr>) b))"
| "run_move (Deliver k) b =
     (if k < length (bcalls b) then
        (case bcalls b ! k of (i, t) \<Rightarrow>
           case receive calm_env t (bnode b (task_peer t)) of
             (Ok r, n') \<Rightarrow>
               if map_of (bnodes b) (task_peer t) = None then None
               else Some (put_board (task_peer t) n' b\<lparr>bcalls := drop_nth k (bcalls b),
                            breplies := (i, t, Ok (json_norm r)) # breplies b\<rparr>)
           | _ \<Rightarrow> None)
      else None)"
| "run_move (Respond k) b =
     (if k < length (breplies b) then
        (case breplies b ! k of (i, t, resp) \<Rightarrow>
           case run_task calm_env t resp (bnode b i) of (out, n') \<Rightarrow>
             if alive out \<and> map_of (bnodes b) i \<noteq> None
             then Some (put_board i n' b\<lparr>breplies := drop_nth k (breplies b)\<rparr>) else None)
      else None)"

fun run_moves :: "move list \<Rightarrow> board \<Rightarrow> board option" where
  "run_moves [] b = Some b"
| "run_moves (m # ms) b = (case run_move m b of None \<Rightarrow> None | Some b' \<Rightarrow> run_moves ms b')"

text \<open>A board shows a cluster if it has its nodes, calls and replies.\<close>

definition shows_cluster :: "string set \<Rightarrow> board \<Rightarrow> cluster \<Rightarrow> bool" where
  "shows_cluster M b c \<longleftrightarrow>
     dom (map_of (bnodes b)) = M \<and> (\<forall>i \<in> M. cnodes c i = bnode b i) \<and> calls c = bcalls b \<and> replies c = breplies b"

lemma bnode_put: "bnode (put_board i n b) j = (if j = i then n else bnode b j)"
  by (simp add: bnode_def put_board_def map_of_update)

lemma put_board_simps [simp]:
  "bcalls (put_board i n b) = bcalls b" "breplies (put_board i n b) = breplies b"
  "bnode (b\<lparr>bcalls := cs\<rparr>) = bnode b" "bnode (b\<lparr>breplies := rs\<rparr>) = bnode b"
  "dom (map_of (bnodes (put_board i n b))) = insert i (dom (map_of (bnodes b)))"
  by (auto simp: put_board_def bnode_def fun_eq_iff map_of_update split: if_splits)

text \<open>The error object of a failed call changes nothing.\<close>

lemma run_task_error: "run_task env t (Ok (error_json ''lost'')) n = (Ok (), n)"
proof -
  have no: "\<not> json_contains (error_json ''lost'') ''term''" by code_simp
  have "case dump_indent 4 (error_json ''lost'') of Ok s \<Rightarrow> True | _ \<Rightarrow> False" by code_simp
  then obtain s where "dump_indent 4 (error_json ''lost'') = Ok s" by (auto split: outcome.splits)
  then show ?thesis
    using no by (cases t) (simp_all add: vote_response_def heartbeat_response_def replicate_response_def
      replicate_internal_response_def swallow_def abind.simps lift_def ret_def)
qed

lemma run_move_steps:
  assumes "run_move m b = Some b'" "shows_cluster M b c"
  shows "\<exists>c'. (cluster_step M)\<^sup>*\<^sup>* c c' \<and> shows_cluster M b' c'"
proof (cases m)
  case (Event i ev)
  obtain out n' where r: "run_event calm_env ev (bnode b i) = (out, n')" by force
  then have *: "internal ev" "alive out" "len (log n') \<le> INT_MAX" "i \<in> M" "b' = put_board i n' b"
    using assms Event by (auto simp: shows_cluster_def split: if_splits)
  have "run_event calm_env ev (cnodes c i) = (out, n')" using r assms(2) *(4) by (simp add: shows_cluster_def)
  then have "cluster_step M c (put_node i n' c)"
    by (rule cluster_step.local [OF *(4) calm_calm *(1) _ *(2,3)])
  moreover have "shows_cluster M b' (put_node i n' c)"
    using assms(2) * by (auto simp: shows_cluster_def bnode_put)
  ultimately show ?thesis by (blast intro: r_into_rtranclp)
next
  case (Take i)
  obtain t ts where *: "rpcPool (bnode b i) = t # ts" "i \<in> M"
      "b' = put_board i ((bnode b i)\<lparr>rpcPool := ts\<rparr>) b\<lparr>bcalls := (i, t) # bcalls b\<rparr>"
    using assms Take by (auto simp: shows_cluster_def split: list.splits if_splits)
  have n: "cnodes c i = bnode b i" using assms(2) *(2) by (simp add: shows_cluster_def)
  let ?c' = "c\<lparr>cnodes := (cnodes c)(i := (cnodes c i)\<lparr>rpcPool := ts\<rparr>), calls := (i, t) # calls c\<rparr>"
  have "cluster_step M c ?c'" by (rule cluster_step.take_task [OF *(2)]) (simp add: n *(1))
  moreover have "shows_cluster M b' ?c'"
    using assms(2) * by (auto simp: shows_cluster_def bnode_put)
  ultimately show ?thesis by (blast intro: r_into_rtranclp)
next
  case (Discard i)
  obtain t ts where *: "rpcPool (bnode b i) = t # ts" "i \<in> M" "b' = put_board i ((bnode b i)\<lparr>rpcPool := ts\<rparr>) b"
    using assms Discard by (auto simp: shows_cluster_def split: list.splits if_splits)
  have n: "cnodes c i = bnode b i" using assms(2) *(2) by (simp add: shows_cluster_def)
  let ?n = "(cnodes c i)\<lparr>rpcPool := ts\<rparr>"
  let ?c1 = "c\<lparr>cnodes := (cnodes c)(i := ?n), calls := (i, t) # calls c\<rparr>"
  let ?c2 = "?c1\<lparr>calls := drop_nth 0 (calls ?c1), replies := (i, t, Ok (error_json ''lost'')) # replies ?c1\<rparr>"
  let ?c3 = "put_node i (cnodes ?c2 i) (?c2\<lparr>replies := drop_nth 0 (replies ?c2)\<rparr>)"
  have "cluster_step M c ?c1" by (rule cluster_step.take_task [OF *(2)]) (simp add: n *(1))
  moreover have "cluster_step M ?c1 ?c2" by (rule cluster_step.lose) simp_all
  moreover have "cluster_step M ?c2 ?c3"
    by (rule cluster_step.respond [OF _ _ calm_calm run_task_error]) simp_all
  ultimately have "(cluster_step M)\<^sup>*\<^sup>* c ?c3"
    by (meson rtranclp.rtrancl_into_rtrancl r_into_rtranclp)
  moreover have "shows_cluster M b' ?c3"
    using assms(2) * by (auto simp: shows_cluster_def bnode_put drop_nth_def)
  ultimately show ?thesis by (blast intro: r_into_rtranclp)
next
  case (Deliver k)
  obtain i t r n' where *: "k < length (bcalls b)" "bcalls b ! k = (i, t)"
      "receive calm_env t (bnode b (task_peer t)) = (Ok r, n')" "task_peer t \<in> M"
      "b' = put_board (task_peer t) n' b\<lparr>bcalls := drop_nth k (bcalls b), breplies := (i, t, Ok (json_norm r)) # breplies b\<rparr>"
    using assms Deliver by (auto simp: shows_cluster_def split: if_splits prod.splits outcome.splits)
  let ?c' = "add_vote t (task_peer t) i (Ok r) (put_node (task_peer t) n'
      (c\<lparr>calls := drop_nth k (calls c), replies := (i, t, Ok (json_norm r)) # replies c\<rparr>))"
  have c: "calls c = bcalls b" "replies c = breplies b" "cnodes c (task_peer t) = bnode b (task_peer t)"
    using assms(2) *(4) by (simp_all add: shows_cluster_def)
  have "cluster_step M c ?c'"
    by (rule cluster_step.deliver [where env = calm_env]) (use c * in \<open>auto simp: reply_of_def\<close>)
  moreover have "shows_cluster M b' ?c'"
    using assms(2) *(4,5) c by (auto simp: shows_cluster_def bnode_put)
  ultimately show ?thesis by (blast intro: r_into_rtranclp)
next
  case (Respond k)
  obtain i t resp out n' where *: "k < length (breplies b)" "breplies b ! k = (i, t, resp)"
      "run_task calm_env t resp (bnode b i) = (out, n')" "alive out" "i \<in> M"
      "b' = put_board i n' b\<lparr>breplies := drop_nth k (breplies b)\<rparr>"
    using assms Respond by (auto simp: shows_cluster_def split: if_splits prod.splits)
  let ?c' = "put_node i n' (c\<lparr>replies := drop_nth k (replies c)\<rparr>)"
  have c: "calls c = bcalls b" "replies c = breplies b" "cnodes c i = bnode b i"
    using assms(2) *(5) by (simp_all add: shows_cluster_def)
  have "cluster_step M c ?c'"
    by (rule cluster_step.respond [where env = calm_env]) (use c * in auto)
  moreover have "shows_cluster M b' ?c'"
    using assms(2) *(5,6) c by (auto simp: shows_cluster_def bnode_put)
  ultimately show ?thesis by (blast intro: r_into_rtranclp)
qed

lemma run_moves_steps:
  "run_moves ms b = Some b' \<Longrightarrow> shows_cluster M b c \<Longrightarrow> \<exists>c'. (cluster_step M)\<^sup>*\<^sup>* c c' \<and> shows_cluster M b' c'"
proof (induction ms arbitrary: b c)
  case (Cons m ms)
  then obtain b1 where b1: "run_move m b = Some b1" "run_moves ms b1 = Some b'" by (auto split: option.splits)
  obtain c1 where "(cluster_step M)\<^sup>*\<^sup>* c c1" "shows_cluster M b1 c1" using run_move_steps [OF b1(1) Cons.prems(2)] by blast
  then show ?case using Cons.IH [OF b1(2)] by (meson rtranclp_trans)
qed auto

section \<open>Five nodes\<close>

definition fresh_node :: "string \<Rightarrow> string list \<Rightarrow> raft_node" where
  "fresh_node i peers = raft_start calm_env (raft_node_new i 5001 peers)"

definition board5 :: board where
  "board5 =
     \<lparr>bnodes = [(''a'', fresh_node ''a'' [''b:1'', ''d:1'', ''c:1'', ''e:1'']),
                (''b'', fresh_node ''b'' [''a:1'', ''c:1'', ''d:1'', ''e:1'']),
                (''c'', fresh_node ''c'' [''e:1'', ''b:1'', ''a:1'', ''d:1'']),
                (''d'', fresh_node ''d'' [''a:1'', ''b:1'', ''c:1'', ''e:1'']),
                (''e'', fresh_node ''e'' [''b:1'', ''d:1'', ''a:1'', ''c:1''])],
      bcalls = [], breplies = []\<rparr>"

text \<open>
  The schedule. Node \<open>a\<close> leads in term 1 with three entries that nobody else gets, \<open>c\<close> in term 2
  with one, \<open>a\<close> again in term 3: now \<open>b\<close> and \<open>d\<close> store the three entries and \<open>a\<close> counts them,
  but commits nothing, for no entry is of term 3. In term 4 \<open>c\<close> leads, replaces the log of \<open>a\<close>,
  and commits index 1 with \<open>a\<close> and \<open>e\<close>. In the second part \<open>c\<close> sends an entry at index 2 to \<open>a\<close>
  only, and \<open>e\<close> leads in term 5 and commits another entry at index 2 with \<open>b\<close> and \<open>d\<close>.
\<close>

definition times_out :: "string \<Rightarrow> nat \<Rightarrow> move list" where
  "times_out i k = [Event i (ElectionWake k), Event i (ElectionTimeout 0)]"

definition submits :: "string \<Rightarrow> string \<Rightarrow> move" where
  "submits i c = Event i (CommandSubmitted c)"

text \<open>The two newest calls are delivered, and their replies are handled.\<close>

definition answer2 :: "move list" where
  "answer2 = [Deliver 0, Deliver 0, Respond 0, Respond 0]"

definition schedule1 :: "move list" where
  "schedule1 =
     times_out ''a'' 0 @ replicate 3 (Take ''a'') @ [Deliver 0, Deliver 0, Deliver 0, Respond 0, Respond 0] @
     replicate 5 (Discard ''a'') @ [submits ''a'' ''SET w 1''] @ replicate 4 (Discard ''a'') @ [submits ''a'' ''SET w 2''] @
     replicate 4 (Discard ''a'') @ [submits ''a'' ''SET w 3''] @ replicate 4 (Discard ''a'') @
     times_out ''c'' 2 @ replicate 3 (Take ''c'') @ [Deliver 0, Deliver 0, Deliver 0, Respond 0, Respond 0] @
     replicate 5 (Discard ''c'') @ [submits ''c'' ''SET w y''] @ replicate 4 (Discard ''c'') @
     times_out ''a'' 1 @ replicate 2 (Take ''a'') @ answer2 @
     [Take ''a'', Discard ''a'', Take ''a'', Take ''a'', Deliver 0, Deliver 0, Deliver 0, Respond 1, Respond 1] @
     replicate 2 (Discard ''a'') @ [Event ''a'' (HeartbeatWake 1), Event ''a'' (HeartbeatTimeout 0)] @
     replicate 2 (Take ''a'') @ answer2 @ replicate 2 (Discard ''a'') @
     times_out ''c'' 3 @ replicate 2 (Take ''c'') @ answer2 @
     replicate 2 (Discard ''c'') @ [Take ''c'', Discard ''c'', Take ''c'', Discard ''c''] @ answer2 @
     [submits ''c'' ''SET w z'', Take ''c'', Discard ''c'', Take ''c'', Discard ''c''] @ answer2"

definition schedule2 :: "move list" where
  "schedule2 =
     [submits ''c'' ''SET w u'', Discard ''c'', Discard ''c'', Take ''c'', Discard ''c'', Deliver 0] @
     times_out ''e'' 7 @ replicate 2 (Take ''e'') @ answer2 @
     replicate 2 (Discard ''e'') @ replicate 2 (Take ''e'') @ replicate 2 (Discard ''e'') @ answer2 @
     [submits ''e'' ''SET w v''] @ replicate 2 (Take ''e'') @ replicate 2 (Discard ''e'') @ answer2 @
     [Event ''e'' (HeartbeatWake 0), Event ''e'' (HeartbeatTimeout 0)] @ replicate 2 (Take ''e'') @ answer2"

definition after_schedule1 :: "board \<Rightarrow> bool" where
  "after_schedule1 b \<longleftrightarrow>
     role (bnode b ''c'') = LEADER \<and> currentTerm (bnode b ''c'') = 4 \<and> committable (bnode b ''c'') 1 \<and>
     map eterm (log (bnode b ''c'')) = [2, 4] \<and> map eterm (log (bnode b ''a'')) = [2, 4]"

definition after_schedule2 :: "board \<Rightarrow> bool" where
  "after_schedule2 b \<longleftrightarrow>
     role (bnode b ''e'') = LEADER \<and> currentTerm (bnode b ''e'') = 5 \<and>
     lastApplied (bnode b ''a'') = 2 \<and> lastApplied (bnode b ''e'') = 2 \<and>
     map command (log (bnode b ''a'')) = [''SET w y'', ''SET w z'', ''SET w u''] \<and>
     map command (log (bnode b ''e'')) = [''SET w y'', ''SET w z'', ''SET w v''] \<and>
     string_at (queryNode (bnode b ''a'') ''w'') ''status'' = Ok ''u'' \<and>
     string_at (queryNode (bnode b ''e'') ''w'') ''status'' = Ok ''v''"

section \<open>The states it reaches\<close>

definition five :: "string set" where
  "five = {''a'', ''b'', ''c'', ''d'', ''e''}"

definition cluster5 :: cluster where
  "cluster5 = \<lparr>cnodes = bnode board5, calls = [], replies = [], granted = {}, led = {}\<rparr>"

lemma fresh_configured:
  "configured five ''a'' (bnode board5 ''a'')" "configured five ''b'' (bnode board5 ''b'')"
  "configured five ''c'' (bnode board5 ''c'')" "configured five ''d'' (bnode board5 ''d'')"
  "configured five ''e'' (bnode board5 ''e'')"
proof -
  have "peer_ids (bnode board5 ''a'') = [''b'', ''d'', ''c'', ''e''] \<and> nodeId (bnode board5 ''a'') = ''a'' \<and>
      length (peerAddrs (bnode board5 ''a'')) = 4"
    "peer_ids (bnode board5 ''b'') = [''a'', ''c'', ''d'', ''e''] \<and> nodeId (bnode board5 ''b'') = ''b'' \<and>
      length (peerAddrs (bnode board5 ''b'')) = 4"
    "peer_ids (bnode board5 ''c'') = [''e'', ''b'', ''a'', ''d''] \<and> nodeId (bnode board5 ''c'') = ''c'' \<and>
      length (peerAddrs (bnode board5 ''c'')) = 4"
    "peer_ids (bnode board5 ''d'') = [''a'', ''b'', ''c'', ''e''] \<and> nodeId (bnode board5 ''d'') = ''d'' \<and>
      length (peerAddrs (bnode board5 ''d'')) = 4"
    "peer_ids (bnode board5 ''e'') = [''b'', ''d'', ''a'', ''c''] \<and> nodeId (bnode board5 ''e'') = ''e'' \<and>
      length (peerAddrs (bnode board5 ''e'')) = 4"
    by code_simp+
  then show "configured five ''a'' (bnode board5 ''a'')" "configured five ''b'' (bnode board5 ''b'')"
    "configured five ''c'' (bnode board5 ''c'')" "configured five ''d'' (bnode board5 ''d'')"
    "configured five ''e'' (bnode board5 ''e'')"
    by (auto simp: configured_def five_def)
qed

lemma fresh_started:
  assumes "i \<in> five"
  shows "\<exists>env port peers. bnode board5 i = raft_start env (raft_node_new i port peers)"
  using assms by (auto simp: five_def bnode_def board5_def fresh_node_def)

lemma cluster5_start: "cluster_start five cluster5"
  using fresh_configured fresh_started by (auto simp: cluster_start_def cluster5_def) (auto simp: five_def)

lemma cluster5_shown: "shows_cluster five board5 cluster5"
  by (auto simp: shows_cluster_def cluster5_def board5_def five_def split: if_splits)

lemma schedule_run:
  "case run_moves schedule1 board5 of
     None \<Rightarrow> False
   | Some b1 \<Rightarrow> after_schedule1 b1 \<and>
       (case run_moves schedule2 b1 of None \<Rightarrow> False | Some b2 \<Rightarrow> after_schedule2 b2)"
  by code_simp

text \<open>So the boards after the two parts of the schedule show reachable clusters.\<close>

lemma schedule_reaches:
  obtains b1 b2 c1 c2 where
    "cluster_reachable five c1" "(cluster_step five)\<^sup>*\<^sup>* c1 c2" "cluster_reachable five c2"
    "shows_cluster five b1 c1" "shows_cluster five b2 c2" "after_schedule1 b1" "after_schedule2 b2"
proof -
  obtain b1 where b1: "run_moves schedule1 board5 = Some b1" "after_schedule1 b1"
      "case run_moves schedule2 b1 of None \<Rightarrow> False | Some b2 \<Rightarrow> after_schedule2 b2"
    using schedule_run by (auto split: option.splits)
  then obtain b2 where b2: "run_moves schedule2 b1 = Some b2" "after_schedule2 b2" by (auto split: option.splits)
  obtain c1 where c1: "(cluster_step five)\<^sup>*\<^sup>* cluster5 c1" "shows_cluster five b1 c1"
    using run_moves_steps [OF b1(1) cluster5_shown] by blast
  obtain c2 where c2: "(cluster_step five)\<^sup>*\<^sup>* c1 c2" "shows_cluster five b2 c2"
    using run_moves_steps [OF b2(1) c1(2)] by blast
  have "cluster_reachable five c1" "cluster_reachable five c2"
    using cluster5_start c1(1) rtranclp_trans [OF c1(1) c2(1)] by (auto simp: cluster_reachable_def)
  then show ?thesis using that c1(2) c2 b1(2) b2(2) by blast
qed

end
