(* ===== verification/Raft_Divergence.thy ===== *)
theory Raft_Divergence imports Raft_Completeness Raft_Schedule begin

text \<open>
  What the nodes of a cluster agree on: the logs of any two match, and what a leader may commit
  stays in the log of every later leader. And what they do not: a follower commits by itself,
  counting what it sent when it led, so that with five nodes two of them can apply different
  commands at one index.
\<close>





text \<open>C8: from five nodes on the replicas can diverge. In a cluster of five nodes two of them apply
  different commands as their entry of index 2, and answer queries differently from then on: a
  follower runs the leader's commit rule with the match indices of its own former leadership.\<close>

theorem replicas_diverge:
  "\<exists>c. cluster_reachable five c \<and>
     lastApplied (cnodes c ''a'') = 2 \<and> lastApplied (cnodes c ''e'') = 2 \<and>
     command (log (cnodes c ''a'') ! 2) = ''SET w u'' \<and> command (log (cnodes c ''e'') ! 2) = ''SET w v'' \<and>
     string_at (queryNode (cnodes c ''a'') ''w'') ''status'' = Ok ''u'' \<and>
     string_at (queryNode (cnodes c ''e'') ''w'') ''status'' = Ok ''v''"
proof -
  obtain b2 c2 where c2: "cluster_reachable five c2" "shows_cluster five b2 c2" "after_schedule2 b2"
    using schedule_reaches by metis
  then have "map command (log (cnodes c2 ''a'')) = [''SET w y'', ''SET w z'', ''SET w u'']"
      "map command (log (cnodes c2 ''e'')) = [''SET w y'', ''SET w z'', ''SET w v'']"
    by (simp_all add: shows_cluster_def after_schedule2_def five_def)
  then have "command (log (cnodes c2 ''a'') ! 2) = ''SET w u''" "command (log (cnodes c2 ''e'') ! 2) = ''SET w v''"
    by (auto simp: map_eq_Cons_conv numeral_2_eq_2)
  then show ?thesis
    using c2 by (intro exI [of _ c2]) (simp add: shows_cluster_def after_schedule2_def five_def)
qed

end
