(* ===== verification/Json_Roundtrip.thy ===== *)
theory Json_Roundtrip imports Json_View begin

text \<open>
  Printing and parsing are inverse: the text of \<open>dump\<close> parses to the value that was printed, up
  to the sign type of an integer (\<open>json_norm\<close>). The scanner accepts exactly the UTF-8 that the
  automaton of the serializer lets through, undoes its escapes and reads its digits, and the
  parser rebuilds the containers. Floating-point numbers are left out.
\<close>

section \<open>The UTF-8 automaton against the byte ranges of the scanner\<close>

text \<open>The ranges of the bytes that a state of the automaton still waits for.\<close>

definition utf8_ranges :: "nat \<Rightarrow> (nat \<times> nat) list" where
  "utf8_ranges st =
     [[], [], [(0x80, 0xBF)], [(0x80, 0xBF), (0x80, 0xBF)], [(0xA0, 0xBF), (0x80, 0xBF)],
      [(0x80, 0x9F), (0x80, 0xBF)], [(0x90, 0xBF), (0x80, 0xBF), (0x80, 0xBF)],
      [(0x80, 0xBF), (0x80, 0xBF), (0x80, 0xBF)], [(0x80, 0x8F), (0x80, 0xBF), (0x80, 0xBF)]] ! st"

text \<open>A lower bound of the bits collected in a state, which excludes overlong encodings.\<close>

definition utf8_least :: "nat \<Rightarrow> nat" where
  "utf8_least st = [0, 0, 2, 1, 0, 1, 0, 1, 1] ! st"

definition in_range :: "nat \<Rightarrow> nat \<times> nat \<Rightarrow> bool" where
  "in_range b r \<longleftrightarrow> fst r \<le> b \<and> b \<le> snd r"

text \<open>What one byte does in a state, checked for all 256 bytes.\<close>

definition more_ok :: "nat \<Rightarrow> nat \<Rightarrow> bool" where
  "more_ok st b \<longleftrightarrow>
     (let st' = utf8_next st b
      in st' = 1 \<or> st' < 9 \<and> in_range b (hd (utf8_ranges st)) \<and> utf8_ranges st' = tl (utf8_ranges st) \<and>
           (if st' = 0 then 128 else utf8_least st') \<le> b mod 64 + utf8_least st * 64)"

definition start_ok :: "nat \<Rightarrow> bool" where
  "start_ok b \<longleftrightarrow>
     (let st = utf8_next 0 b
      in if b < 128 then st = 0 \<and> utf8_class b = 0
         else st \<noteq> 0 \<and> st < 9 \<and> (st = 1 \<or> utf8_least st \<le> b mod 2 ^ (8 - utf8_class b)))"

lemma byte_of_less [simp]: "byte_of c < 256"
  by (simp add: byte_of_def)

text \<open>The table of classes in runs, so that an interval of bytes is looked up at once.\<close>

fun run_at :: "(nat \<times> nat) list \<Rightarrow> nat \<Rightarrow> nat" where
  "run_at [] b = 0"
| "run_at ((e, k) # rs) b = (if b < e then k else run_at rs b)"

fun runs_table :: "nat \<Rightarrow> (nat \<times> nat) list \<Rightarrow> nat list" where
  "runs_table s [] = []"
| "runs_table s ((e, k) # rs) = replicate (e - s) k @ runs_table e rs"

lemma run_at_nth:
  "sorted (s # map fst rs) \<Longrightarrow> s \<le> b \<Longrightarrow> rs \<noteq> [] \<Longrightarrow> b < fst (last rs) \<Longrightarrow> runs_table s rs ! (b - s) = run_at rs b"
proof (induction s rs rule: runs_table.induct)
  case (2 s e k rs)
  show ?case
  proof (cases "b < e")
    case True
    then show ?thesis using 2(3) by (simp add: nth_append diff_less_mono)
  next
    case False
    then have "rs \<noteq> []" using 2(5) by auto
    moreover have "\<not> b - s < e - s" "b - s - (e - s) = b - e" using False 2(2) by auto
    ultimately show ?thesis using False 2 by (simp add: nth_append)
  qed
qed simp

definition class_runs :: "(nat \<times> nat) list" where
  "class_runs =
     [(128, 0), (144, 1), (160, 9), (192, 7), (194, 8), (224, 2), (225, 10), (237, 3), (238, 4), (240, 3),
      (241, 11), (244, 6), (245, 5), (256, 8)]"

lemma utf8_class_runs: "utf8_class (byte_of c) = run_at class_runs (byte_of c)"
proof -
  have "utf8_class_table = runs_table 0 class_runs"
    by (simp add: utf8_class_table_def class_runs_def numeral_2_eq_2 numeral_3_eq_3)
  then show ?thesis using run_at_nth [of 0 class_runs "byte_of c"] by (simp add: utf8_class_def class_runs_def)
qed

lemma run_at_class:
  "b < 128 \<Longrightarrow> run_at class_runs b = 0"
  "128 \<le> b \<Longrightarrow> b < 144 \<Longrightarrow> run_at class_runs b = 1"
  "144 \<le> b \<Longrightarrow> b < 160 \<Longrightarrow> run_at class_runs b = 9"
  "160 \<le> b \<Longrightarrow> b < 192 \<Longrightarrow> run_at class_runs b = 7"
  "244 < b \<Longrightarrow> b < 256 \<Longrightarrow> run_at class_runs b = 8"
  "194 \<le> b \<Longrightarrow> b < 224 \<Longrightarrow> run_at class_runs b = 2"
  "224 < b \<Longrightarrow> b < 237 \<Longrightarrow> run_at class_runs b = 3"
  "240 < b \<Longrightarrow> b < 244 \<Longrightarrow> run_at class_runs b = 6"
  by (simp_all add: class_runs_def)

lemma run_at_class_points:
  "run_at class_runs 192 = 8" "run_at class_runs 193 = 8" "run_at class_runs 224 = 10" "run_at class_runs 237 = 4"
  "run_at class_runs 238 = 3" "run_at class_runs 239 = 3" "run_at class_runs 240 = 11" "run_at class_runs 244 = 5"
  by (simp_all add: class_runs_def)

lemma byte_cases:
  fixes c :: char
  defines "b \<equiv> byte_of c"
  obtains (ascii) "b < 128" "utf8_class b = 0"
  | (low) "128 \<le> b" "b < 144" "b mod 64 = b - 128" "utf8_class b = 1"
  | (mid) "144 \<le> b" "b < 160" "b mod 64 = b - 128" "utf8_class b = 9"
  | (high) "160 \<le> b" "b < 192" "b mod 64 = b - 128" "utf8_class b = 7"
  | (bad) "b = 192 \<or> b = 193 \<or> 244 < b" "utf8_class b = 8"
  | (two) "194 \<le> b" "b < 224" "b mod 64 = b - 192" "utf8_class b = 2"
  | (e0) "b = 224" "utf8_class b = 10"
  | (ed) "b = 237" "utf8_class b = 4"
  | (three) "224 < b" "b < 240" "b \<noteq> 237" "b mod 32 = b - 224" "utf8_class b = 3"
  | (f0) "b = 240" "utf8_class b = 11"
  | (four) "240 < b" "b < 244" "b mod 4 = b - 240" "utf8_class b = 6"
  | (f4) "b = 244" "utf8_class b = 5"
proof -
  have m: "b mod 64 = b - 128" if "128 \<le> b" "b < 192" using that by (simp add: mod_if)
  have m2: "b mod 64 = b - 192" if "194 \<le> b" "b < 224" using that by (simp add: mod_if)
  have m3: "b mod 32 = b - 224" if "224 < b" "b < 240"
    using that mod_mult_self2 [of "b - 224" 32 7] by simp
  have m4: "b mod 4 = b - 240" if "240 < b" "b < 244"
    using that mod_mult_self2 [of "b - 240" 4 60] by simp
  have b: "b < 256" and k: "utf8_class b = run_at class_runs b" by (simp_all add: b_def utf8_class_runs)
  note rc = run_at_class run_at_class_points
  consider "b < 160" | "160 \<le> b" "b < 224" | "224 \<le> b" "b < 240" | "240 \<le> b"
    by linarith
  then show ?thesis
  proof cases
    case 1
    then consider "b < 128" | "128 \<le> b" "b < 144" | "144 \<le> b" "b < 160" by linarith
    then show ?thesis by cases (use k m rc(1,2,3) ascii low mid in simp_all)
  next
    case 2
    then consider "160 \<le> b" "b < 192" | "b = 192" | "b = 193" | "194 \<le> b" "b < 224" by linarith
    then show ?thesis by cases (use k m m2 rc(4,9,10,6) high bad two in simp_all)
  next
    case 3
    then consider "b = 224" | "224 < b" "b < 237" | "b = 237" | "b = 238" | "b = 239" by linarith
    then show ?thesis by cases (use k m3 rc(11,7,12,13,14) e0 three ed in simp_all)
  next
    case 4
    then consider "b = 240" | "240 < b" "b < 244" | "b = 244" | "244 < b" by linarith
    then show ?thesis by cases (use k b m4 rc(15,8,16,5) f0 four f4 bad in simp_all)
  qed
qed

text \<open>The successor states, one line of the table for each state.\<close>

lemma utf8_next_rows:
  "utf8_next 0 b = [0, 1, 2, 3, 5, 8, 7, 1, 1, 1, 4, 6, 1, 1, 1, 1] ! utf8_class b"
  "utf8_next 2 b = [1, 0, 1, 1, 1, 1, 1, 0, 1, 0, 1, 1, 1, 1, 1, 1] ! utf8_class b"
  "utf8_next 3 b = [1, 2, 1, 1, 1, 1, 1, 2, 1, 2, 1, 1, 1, 1, 1, 1] ! utf8_class b"
  "utf8_next 4 b = [1, 1, 1, 1, 1, 1, 1, 2, 1, 1, 1, 1, 1, 1, 1, 1] ! utf8_class b"
  "utf8_next 5 b = [1, 2, 1, 1, 1, 1, 1, 1, 1, 2, 1, 1, 1, 1, 1, 1] ! utf8_class b"
  "utf8_next 6 b = [1, 1, 1, 1, 1, 1, 1, 3, 1, 3, 1, 1, 1, 1, 1, 1] ! utf8_class b"
  "utf8_next 7 b = [1, 3, 1, 1, 1, 1, 1, 3, 1, 3, 1, 1, 1, 1, 1, 1] ! utf8_class b"
  "utf8_next 8 b = [1, 3, 1, 1, 1, 1, 1, 1, 1, 1, 1, 1, 1, 1, 1, 1] ! utf8_class b"
  by (simp_all add: utf8_next_def utf8_next_table_def)

lemma utf8_ranges_rows:
  "utf8_ranges 0 = []" "utf8_ranges 2 = [(0x80, 0xBF)]" "utf8_ranges 3 = [(0x80, 0xBF), (0x80, 0xBF)]"
  "utf8_ranges 4 = [(0xA0, 0xBF), (0x80, 0xBF)]" "utf8_ranges 5 = [(0x80, 0x9F), (0x80, 0xBF)]"
  "utf8_ranges 6 = [(0x90, 0xBF), (0x80, 0xBF), (0x80, 0xBF)]"
  "utf8_ranges 7 = [(0x80, 0xBF), (0x80, 0xBF), (0x80, 0xBF)]"
  "utf8_ranges 8 = [(0x80, 0x8F), (0x80, 0xBF), (0x80, 0xBF)]"
  by (simp_all add: utf8_ranges_def)

lemma utf8_least_rows:
  "utf8_least 0 = 0" "utf8_least 2 = 2" "utf8_least 3 = 1" "utf8_least 4 = 0" "utf8_least 5 = 1"
  "utf8_least 6 = 0" "utf8_least 7 = 1" "utf8_least 8 = 1"
  by (simp_all add: utf8_least_def)

lemmas utf8_rows = utf8_next_rows utf8_ranges_rows utf8_least_rows

lemma more_ok_states:
  "more_ok 2 (byte_of c)" "more_ok 3 (byte_of c)" "more_ok 4 (byte_of c)" "more_ok 5 (byte_of c)"
  "more_ok 6 (byte_of c)" "more_ok 7 (byte_of c)" "more_ok 8 (byte_of c)"
  unfolding more_ok_def Let_def utf8_rows
  by (cases rule: byte_cases [of c]; simp add: in_range_def utf8_rows)+

lemma utf8_states:
  "st < 9 \<Longrightarrow> st \<noteq> 0 \<Longrightarrow> st \<noteq> 1 \<Longrightarrow> st = 2 \<or> st = 3 \<or> st = 4 \<or> st = 5 \<or> st = 6 \<or> st = 7 \<or> st = 8" for st :: nat
  by linarith

lemma more_okD: "st < 9 \<Longrightarrow> st \<noteq> 0 \<Longrightarrow> st \<noteq> 1 \<Longrightarrow> more_ok st (byte_of c)"
  using utf8_states more_ok_states by blast

lemma start_okD: "start_ok (byte_of c)"
  unfolding start_ok_def Let_def utf8_rows
  by (cases rule: byte_cases [of c]; simp add: utf8_rows; linarith)

text \<open>The scanner's choice of ranges by the first byte is the automaton's successor state.\<close>

definition first_ranges :: "nat \<Rightarrow> (nat \<times> nat) list option" where
  "first_ranges b =
     (if 0xC2 \<le> b \<and> b \<le> 0xDF then Some [(0x80, 0xBF)]
      else if b = 0xE0 then Some [(0xA0, 0xBF), (0x80, 0xBF)]
      else if (0xE1 \<le> b \<and> b \<le> 0xEC) \<or> b = 0xEE \<or> b = 0xEF then Some [(0x80, 0xBF), (0x80, 0xBF)]
      else if b = 0xED then Some [(0x80, 0x9F), (0x80, 0xBF)]
      else if b = 0xF0 then Some [(0x90, 0xBF), (0x80, 0xBF), (0x80, 0xBF)]
      else if 0xF1 \<le> b \<and> b \<le> 0xF3 then Some [(0x80, 0xBF), (0x80, 0xBF), (0x80, 0xBF)]
      else if b = 0xF4 then Some [(0x80, 0x8F), (0x80, 0xBF), (0x80, 0xBF)]
      else None)"

lemma first_ranges_next:
  assumes "\<not> byte_of c < 128" "utf8_next 0 (byte_of c) \<noteq> 1"
  shows "first_ranges (byte_of c) = Some (utf8_ranges (utf8_next 0 (byte_of c)))"
proof (cases rule: byte_cases [of c])
  case three
  then have "byte_of c \<le> 236 \<or> byte_of c = 238 \<or> byte_of c = 239" by linarith
  then show ?thesis using three by (auto simp: first_ranges_def utf8_rows)
qed (use assms in \<open>simp_all add: first_ranges_def utf8_rows\<close>)

lemma scan_utf8_ranges: "first_ranges (byte_of c) = Some rs \<Longrightarrow> scan_utf8 c lx = ranges_loop rs (lex_add c lx)"
  by (auto simp: first_ranges_def scan_utf8_def next_byte_in_range_def Let_def split: if_splits)

section \<open>Strings\<close>

text \<open>Where a lexer stands: the text to come, and the token read so far.\<close>

definition stands :: "lexer \<Rightarrow> string \<Rightarrow> string \<Rightarrow> bool" where
  "stands lx s buf \<longleftrightarrow> lex_ok lx \<and> lex_rest lx = s \<and> token_buffer lx = buf"

lemma stands_get: "stands lx (c # s) buf \<Longrightarrow> current (lex_get lx) = Some c \<and> stands (lex_get lx) s buf"
  by (simp add: stands_def lex_view)

lemma stands_simps [simp]:
  "stands lx s buf \<Longrightarrow> stands (lex_add c lx) s (buf @ [c])"
  "stands lx s buf \<Longrightarrow> stands (lex_add_all t lx) s (buf @ t)"
  "stands lx s buf \<Longrightarrow> stands (lex_reset lx) s []"
  by (simp_all add: stands_def)

text \<open>The rest of a multi-byte character: printed as it is, and accepted by the scanner.\<close>

lemma ranges_stands:
  assumes "in_range (byte_of c) r" "stands lx (c # s) buf"
  shows "ranges_loop (r # rs) lx = ranges_loop rs (lex_add c (lex_get lx)) \<and>
    stands (lex_add c (lex_get lx)) s (buf @ [c])"
  using assms stands_get [OF assms(2)] by (cases r) (simp add: in_range_def Let_def)

lemma multibyte_rest:
  assumes "dump_escaped_loop False str i st codep lst = Ok t" "st < 9" "st \<noteq> 1" "utf8_least st \<le> codep"
  shows "\<exists>u str' t' i' cp' b. str = u @ str' \<and> t = u @ t' \<and> dump_escaped_loop False str' i' 0 cp' b = Ok t' \<and>
    (\<forall>lx w buf. stands lx (u @ w) buf \<longrightarrow> (\<exists>lx'. ranges_loop (utf8_ranges st) lx = (True, lx') \<and> stands lx' w (buf @ u)))"
  using assms
proof (induction str arbitrary: i st codep lst t)
  case Nil
  then show ?case by (fastforce simp: utf8_ranges_def split: if_splits)
next
  case (Cons c cs)
  show ?case
  proof (cases "st = 0")
    case True
    then show ?thesis
      using Cons.prems(1)
      by (intro exI [of _ "[]"] exI [of _ "c # cs"] exI [of _ t] exI [of _ i] exI [of _ codep] exI [of _ lst])
         (simp add: utf8_ranges_def)
  next
    case False
    define b where "b = byte_of c"
    define cp where "cp = b mod 64 + codep * 64"
    define st' where "st' = utf8_next st b"
    have ok: "more_ok st b" using more_okD Cons.prems(2,3) False by (simp add: b_def)
    have ne: "st' \<noteq> 1" using Cons.prems(1) by (auto simp: Let_def st'_def b_def split: if_splits)
    with ok have st': "st' < 9" "in_range b (hd (utf8_ranges st))" "utf8_ranges st' = tl (utf8_ranges st)"
      "(if st' = 0 then 128 else utf8_least st') \<le> b mod 64 + utf8_least st * 64"
      unfolding more_ok_def Let_def st'_def by blast+
    have cp: "(if st' = 0 then 128 else utf8_least st') \<le> cp"
      using st'(4) Cons.prems(4) unfolding cp_def by (meson add_left_mono mult_le_mono1 order_trans)
    then have least: "utf8_least st' \<le> cp" by (simp add: utf8_least_def split: if_splits)
    obtain t0 where t0: "dump_escaped_loop False cs (Suc i) st' cp b = Ok t0" "t = c # t0"
      using Cons.prems(1) ne cp False
      by (auto simp: Let_def utf8_codepoint_def omap_eq_Ok escape_codepoint_def cp_def b_def st'_def split: if_splits)
    obtain u str' t' i' cp' b' where u: "cs = u @ str'" "t0 = u @ t'" "dump_escaped_loop False str' i' 0 cp' b' = Ok t'"
      and sc: "\<forall>lx w buf. stands lx (u @ w) buf \<longrightarrow>
        (\<exists>lx'. ranges_loop (utf8_ranges st') lx = (True, lx') \<and> stands lx' w (buf @ u))"
      using Cons.IH [OF t0(1) st'(1) ne least] by blast
    have ranges: "utf8_ranges st = hd (utf8_ranges st) # utf8_ranges st'"
    proof -
      have "utf8_ranges st \<noteq> []" using utf8_states [OF Cons.prems(2) False Cons.prems(3)] by (auto simp: utf8_ranges_rows)
      then show ?thesis using st'(3) by simp
    qed
    have "\<exists>lx'. ranges_loop (utf8_ranges st) lx = (True, lx') \<and> stands lx' w (buf @ c # u)"
      if "stands lx (c # u @ w) buf" for lx w buf
    proof -
      let ?lx = "lex_add c (lex_get lx)"
      have 1: "ranges_loop (utf8_ranges st) lx = ranges_loop (utf8_ranges st') ?lx" "stands ?lx (u @ w) (buf @ [c])"
        using ranges_stands [OF _ that, of "hd (utf8_ranges st)" "utf8_ranges st'"] st'(2) ranges by (simp_all add: b_def)
      obtain lx' where "ranges_loop (utf8_ranges st') ?lx = (True, lx')" "stands lx' w ((buf @ [c]) @ u)"
        using sc 1(2) by blast
      then show ?thesis using 1(1) by simp
    qed
    then show ?thesis
      by (intro exI [of _ "c # u"] exI [of _ str'] exI [of _ t'] exI [of _ i'] exI [of _ cp'] exI [of _ b'])
         (simp add: u t0(2))
  qed
qed

lemma byte_of_char_of [simp]: "n < 256 \<Longrightarrow> byte_of (char_of n) = n"
  by (simp add: byte_of_def)

lemma char_of_byte_of [simp]: "char_of (byte_of c) = c"
  by (simp add: byte_of_def)

lemma hex_value_digit [simp]: "n < 16 \<Longrightarrow> hex_value (hex_digit n) = Some (int n)"
  by (auto simp: hex_value_def hex_digit_def Let_def)

lemma codepoint_loop_digits:
  "stands lx (map hex_digit ns @ s) buf \<Longrightarrow> length ns = length fs \<Longrightarrow> \<forall>n \<in> set ns. n < 16 \<Longrightarrow>
   \<exists>lx'. codepoint_loop fs cp lx = (Some (cp + (\<Sum>(f, n) \<leftarrow> zip fs ns. push_bit f (int n))), lx') \<and> stands lx' s buf"
proof (induction ns arbitrary: fs cp lx)
  case (Cons n ns)
  then obtain f fs' where fs: "fs = f # fs'" by (cases fs) auto
  from Cons.prems(1) have g: "current (lex_get lx) = Some (hex_digit n)" "stands (lex_get lx) (map hex_digit ns @ s) buf"
    using stands_get [of lx "hex_digit n" "map hex_digit ns @ s" buf] by simp_all
  from Cons.IH [OF g(2), of fs' "cp + push_bit f (int n)"] show ?case
    using Cons.prems g(1) fs by (simp add: Let_def add.assoc)
qed simp

text \<open>An ASCII character: its escape, or the character itself, is read back as the character.\<close>

lemma get_codepoint_hex4:
  assumes "stands lx (hex4 b @ s) buf" "b < 256"
  shows "\<exists>lx'. get_codepoint lx = (Some (int b), lx') \<and> stands lx' s buf"
proof -
  let ?ns = "[b div 4096 mod 16, b div 256 mod 16, b div 16 mod 16, b mod 16]"
  have ns: "stands lx (map hex_digit ?ns @ s) buf" "length ?ns = length [12 :: nat, 8, 4, 0]" "\<forall>n \<in> set ?ns. n < 16"
    using assms(1) by (simp_all add: hex4_def)
  obtain lx' where lx': "codepoint_loop [12, 8, 4, 0] 0 lx =
      (Some (0 + (\<Sum>(f, n) \<leftarrow> zip [12, 8, 4, 0] ?ns. push_bit f (int n))), lx')" "stands lx' s buf"
    using codepoint_loop_digits [OF ns, of 0] by blast
  have "b div 4096 = 0" "b div 256 = 0" "b div 16 < 16" using assms(2) by simp_all
  then have "?ns = [0, 0, b div 16, b mod 16]" by simp
  moreover have "int (b div 16) * 16 + int (b mod 16) = int b" by (metis div_mult_mod_eq of_nat_add of_nat_mult of_nat_numeral)
  ultimately have "(\<Sum>(f, n) \<leftarrow> zip [12, 8, 4, 0] ?ns. push_bit f (int n)) = int b"
    by (simp only:) (simp add: push_bit_eq_mult del: of_nat_div of_nat_mod)
  then show ?thesis using lx' unfolding get_codepoint_def by (metis add_0)
qed

lemma scan_unicode_control:
  assumes "stands lx (hex4 b @ s) buf" "b \<le> 31"
  shows "\<exists>lx'. scan_unicode_escape lx = (True, lx') \<and> stands lx' s (buf @ [char_of b])"
proof -
  obtain lx' where "get_codepoint lx = (Some (int b), lx')" "stands lx' s buf"
    using get_codepoint_hex4 [OF assms(1)] assms(2) by auto
  moreover have "utf8_encode (int b) = [char_of b]" using assms(2) by (simp add: utf8_encode_def)
  ultimately show ?thesis using assms(2) by (simp add: scan_unicode_escape_def)
qed

lemma byte_of_eq: "byte_of c = byte_of d \<longleftrightarrow> c = d"
  unfolding byte_of_def by (rule of_char_eq_iff)

lemma special_bytes [simp]:
  "byte_of backslash = 92" "byte_of quote = 34" "backslash \<noteq> quote" "quote \<noteq> backslash"
  by (simp_all add: byte_of_def backslash_def quote_def)

lemma scan_escape_letter:
  assumes "stands lx (e # s) buf"
    and "(e, d) \<in> {(quote, quote), (backslash, backslash), (CHR ''b'', CHR 0x08), (CHR ''f'', CHR 0x0C),
                 (CHR ''n'', CHR 0x0A), (CHR ''r'', CHR 0x0D), (CHR ''t'', CHR 0x09)}"
  shows "scan_escape lx = (True, lex_add d (lex_get lx))"
  using assms(2) stands_get [OF assms(1)]
  by (auto simp: scan_escape_def Let_def backslash_def quote_def)

lemma loop_escape:
  assumes "stands lx (backslash # s) buf" "scan_escape (lex_get lx) = (True, lx')"
  shows "scan_string_loop lx = scan_string_loop lx'"
  using stands_get [OF assms(1)] assms(2) by (subst scan_string_loop.simps) simp

lemma scan_escape_unicode:
  assumes "stands lx (CHR ''u'' # hex4 b @ s) buf" "b \<le> 31"
  shows "\<exists>lx'. scan_escape lx = (True, lx') \<and> stands lx' s (buf @ [char_of b])"
proof -
  have "current (lex_get lx) = Some CHR ''u''" "stands (lex_get lx) (hex4 b @ s) buf"
    using stands_get [OF assms(1)] by simp_all
  then show ?thesis
    using scan_unicode_control [of "lex_get lx" b s buf] assms(2)
    by (simp add: scan_escape_def Let_def backslash_def quote_def)
qed

lemma loop_ascii:
  assumes "stands lx (escape_codepoint False (byte_of c) c @ s) buf" "byte_of c < 128"
  shows "\<exists>lx'. scan_string_loop lx = scan_string_loop lx' \<and> stands lx' s (buf @ [c])"
proof -
  let ?b = "byte_of c"
  have letter: ?thesis if "escape_codepoint False ?b c = [backslash, e]"
    "(e, c) \<in> {(quote, quote), (backslash, backslash), (CHR ''b'', CHR 0x08), (CHR ''f'', CHR 0x0C),
               (CHR ''n'', CHR 0x0A), (CHR ''r'', CHR 0x0D), (CHR ''t'', CHR 0x09)}" for e
  proof -
    have 1: "stands lx (backslash # e # s) buf" using assms(1) that(1) by simp
    have 2: "stands (lex_get lx) (e # s) buf" using stands_get [OF 1] by simp
    show ?thesis
      using loop_escape [OF 1 scan_escape_letter [OF 2 that(2)]] stands_get [OF 2] by auto
  qed
  have c: "c = d" if "?b = byte_of d" for d using that by (simp add: byte_of_eq)
  consider "?b = 8" | "?b = 9" | "?b = 10" | "?b = 12" | "?b = 13" | "?b = 34" | "?b = 92"
    | "?b \<notin> {8, 9, 10, 12, 13, 34, 92}" "?b \<le> 31" | "?b \<notin> {34, 92}" "31 < ?b" by fastforce
  then show ?thesis
  proof cases
    case 1 then show ?thesis using c [of "CHR 0x08"] by (intro letter [of "CHR ''b''"]) (auto simp: escape_codepoint_def byte_of_def)
  next
    case 2 then show ?thesis using c [of "CHR 0x09"] by (intro letter [of "CHR ''t''"]) (auto simp: escape_codepoint_def byte_of_def)
  next
    case 3 then show ?thesis using c [of "CHR 0x0A"] by (intro letter [of "CHR ''n''"]) (auto simp: escape_codepoint_def byte_of_def)
  next
    case 4 then show ?thesis using c [of "CHR 0x0C"] by (intro letter [of "CHR ''f''"]) (auto simp: escape_codepoint_def byte_of_def)
  next
    case 5 then show ?thesis using c [of "CHR 0x0D"] by (intro letter [of "CHR ''r''"]) (auto simp: escape_codepoint_def byte_of_def)
  next
    case 6 then show ?thesis using c [of quote] by (intro letter [of quote]) (auto simp: escape_codepoint_def)
  next
    case 7 then show ?thesis using c [of backslash] by (intro letter [of backslash]) (auto simp: escape_codepoint_def)
  next
    case 8
    then have 1: "stands lx (backslash # CHR ''u'' # hex4 ?b @ s) buf"
      using assms(1) by (simp add: escape_codepoint_def unicode_escape_def)
    then have "stands (lex_get lx) (CHR ''u'' # hex4 ?b @ s) buf" using stands_get by blast
    then obtain lx' where "scan_escape (lex_get lx) = (True, lx')" "stands lx' s (buf @ [c])"
      using scan_escape_unicode 8(2) by fastforce
    then show ?thesis using loop_escape [OF 1] by blast
  next
    case 9
    then have 1: "stands lx (c # s) buf" using assms by (auto simp: escape_codepoint_def)
    moreover have "c \<noteq> quote" "c \<noteq> backslash" using 9(1) by auto
    ultimately have "scan_string_loop lx = scan_string_loop (lex_add c (lex_get lx))"
      using stands_get [OF 1] 9(2) assms(2) by (subst scan_string_loop.simps) simp
    then show ?thesis using stands_get [OF 1] by (metis stands_simps(1))
  qed
qed

lemma scan_string_dumped:
  "dump_escaped_loop False str i 0 codep lst = Ok t \<Longrightarrow> stands lx (t @ quote # s) buf \<Longrightarrow>
   \<exists>lx'. scan_string_loop lx = (ValueString, lx') \<and> stands lx' s (buf @ str)"
proof (induction "length str" arbitrary: str i codep lst t lx buf rule: less_induct)
  case less
  show ?case
  proof (cases str)
    case Nil
    then have 1: "stands lx (quote # s) buf" using less.prems by simp
    then have "scan_string_loop lx = (ValueString, lex_get lx)"
      using stands_get [OF 1] by (subst scan_string_loop.simps) simp
    then show ?thesis using stands_get [OF 1] Nil by simp
  next
    case (Cons c cs)
    let ?b = "byte_of c"
    show ?thesis
    proof (cases "?b < 128")
      case True
      then have "utf8_next 0 ?b = 0" "utf8_codepoint 0 codep ?b = ?b"
        using start_okD [of c] by (simp_all add: start_ok_def Let_def utf8_codepoint_def)
      then obtain t0 where t0: "t = escape_codepoint False ?b c @ t0" "dump_escaped_loop False cs (Suc i) 0 ?b ?b = Ok t0"
        using less.prems(1) Cons by (auto simp: Let_def omap_eq_Ok)
      obtain lx1 where 1: "scan_string_loop lx = scan_string_loop lx1" "stands lx1 (t0 @ quote # s) (buf @ [c])"
        using loop_ascii [of lx c "t0 @ quote # s" buf] less.prems(2) t0(1) True by auto
      show ?thesis using less.hyps [OF _ t0(2) 1(2)] 1(1) Cons by simp
    next
      case False
      let ?st = "utf8_next 0 ?b" and ?cp = "utf8_codepoint 0 codep ?b"
      have st: "?st \<noteq> 0" "?st < 9" "?st = 1 \<or> utf8_least ?st \<le> ?cp"
        using start_okD [of c] False by (auto simp: start_ok_def Let_def utf8_codepoint_def)
      obtain t0 where t0: "t = c # t0" "dump_escaped_loop False cs (Suc i) ?st ?cp ?b = Ok t0" and ne: "?st \<noteq> 1"
        using less.prems(1) Cons st(1) by (auto simp: Let_def omap_eq_Ok split: if_splits)
      obtain u str' t' i' cp' b' where u: "cs = u @ str'" "t0 = u @ t'" "dump_escaped_loop False str' i' 0 cp' b' = Ok t'"
        and sc: "\<forall>lx w buf. stands lx (u @ w) buf \<longrightarrow>
          (\<exists>lx'. ranges_loop (utf8_ranges ?st) lx = (True, lx') \<and> stands lx' w (buf @ u))"
        using multibyte_rest [OF t0(2) st(2) ne] st(3) ne by blast
      have 1: "stands lx (c # u @ t' @ quote # s) buf" using less.prems(2) t0(1) u(2) by simp
      have g: "current (lex_get lx) = Some c" "stands (lex_add c (lex_get lx)) (u @ t' @ quote # s) (buf @ [c])"
        using stands_get [OF 1] by simp_all
      obtain lx1 where lx1: "ranges_loop (utf8_ranges ?st) (lex_add c (lex_get lx)) = (True, lx1)"
        "stands lx1 (t' @ quote # s) ((buf @ [c]) @ u)" using sc g(2) by blast
      have "scan_utf8 c (lex_get lx) = (True, lx1)"
        using scan_utf8_ranges [OF first_ranges_next [OF False ne]] lx1(1) by simp
      moreover have "c \<noteq> quote" "c \<noteq> backslash" using False by auto
      ultimately have "scan_string_loop lx = scan_string_loop lx1"
        using g(1) False by (subst scan_string_loop.simps) simp
      then show ?thesis using less.hyps [OF _ u(3) lx1(2)] Cons u(1) by simp
    qed
  qed
qed

section \<open>Integers\<close>

lemma digit_char_simps [simp]: "n < 10 \<Longrightarrow> is_digit (digit_char n)" "n < 10 \<Longrightarrow> digit_value (digit_char n) = int n"
  by (simp_all add: is_digit_def digit_value_def digit_char_def)

lemma digit_char_zero: "0 < n \<Longrightarrow> n < 10 \<Longrightarrow> digit_char n \<noteq> CHR ''0''"
  using digit_char_simps(2) [of n] by (auto simp: digit_value_def byte_of_def)

lemma digits_value_append: "digits_value a (xs @ ys) = digits_value (digits_value a xs) ys"
  by (induction a xs rule: digits_value.induct) simp_all

lemma fill_digits_spec:
  "0 \<le> x \<Longrightarrow> \<exists>ds. fill_digits x buf = ds @ buf \<and> list_all is_digit ds \<and> digits_value 0 ds = x \<and>
     ds \<noteq> [] \<and> (0 < x \<longrightarrow> hd ds \<noteq> CHR ''0'')"
proof (induction x buf rule: fill_digits.induct)
  case (1 x buf)
  consider "100 \<le> x" | "10 \<le> x" "x < 100" | "x < 10" by linarith
  then show ?case
  proof cases
    case 1
    then have pos: "0 \<le> x div 100" by presburger
    obtain ds where ds: "fill_digits (x div 100) (digits_to_99 (x mod 100) @ buf) = ds @ digits_to_99 (x mod 100) @ buf"
      "list_all is_digit ds" "digits_value 0 ds = x div 100" "ds \<noteq> []" "0 < x div 100 \<longrightarrow> hd ds \<noteq> CHR ''0''"
      using "1.IH" [OF 1 pos] by auto
    define y where "y = x mod 100"
    have "0 \<le> y" "y < 100" "x = x div 100 * 100 + y" by (simp_all add: y_def)
    then have y: "y div 10 < 10" "0 \<le> y div 10" "0 \<le> y mod 10" "y mod 10 < 10"
      "10 * (10 * (x div 100) + y div 10) + y mod 10 = x"
      using div_mult_mod_eq [of y 10] by simp_all
    have y0: "0 < x div 100" using 1 by presburger
    have "fill_digits x buf = (ds @ digits_to_99 y) @ buf"
      using 1 ds(1) by (subst fill_digits.simps) (simp add: y_def)
    moreover have "list_all is_digit (digits_to_99 y)" using y(1-4) by (simp add: digits_to_99_def)
    moreover have "digits_value 0 (ds @ digits_to_99 y) = x"
      using y(1-5) ds(3) by (simp add: digits_to_99_def digits_value_append)
    moreover have "hd (ds @ digits_to_99 y) \<noteq> CHR ''0''" using ds(4,5) y0 by simp
    ultimately show ?thesis using ds(2,4) by (intro exI [of _ "ds @ digits_to_99 y"]) simp
  next
    case 2
    then have "x div 10 < 10" "0 < x div 10" "0 \<le> x mod 10" "x mod 10 < 10" "10 * (x div 10) + x mod 10 = x" by presburger+
    moreover have "digit_char (nat (x div 10)) \<noteq> CHR ''0''" using calculation(1,2) by (simp add: digit_char_zero)
    ultimately show ?thesis
      using 2 by (subst fill_digits.simps) (auto simp: digits_to_99_def intro!: exI [of _ "digits_to_99 x"])
  next
    case 3
    then show ?thesis
      using "1.prems" by (subst fill_digits.simps) (auto simp: digit_char_zero intro!: exI [of _ "[digit_char (nat x)]"])
  qed
qed

text \<open>What may follow a value: the end of the text, a zero byte, or a separator.\<close>

definition stop :: "string \<Rightarrow> bool" where
  "stop s \<longleftrightarrow> (case s of [] \<Rightarrow> True | c # _ \<Rightarrow> c \<in> {CHR '','', CHR '']'', CHR ''}'', CHR 0x00})"

lemma stop_simps [simp]:
  "stop []" "stop (CHR '','' # s)" "stop (CHR '']'' # s)" "stop (CHR ''}'' # s)" "stop (CHR 0x00 # s)"
  by (simp_all add: stop_def)

definition lex_done :: "lexer \<Rightarrow> lexer" where
  "lex_done lx = lex_unget (lex_get lx)"

lemma stands_done [simp]: "stands lx s buf \<Longrightarrow> stands (lex_done lx) s buf"
  by (simp add: stands_def lex_done_def lex_view)

lemma number_done:
  "scan_number_done t (lex_get lx) =
     (let lx' = lex_done lx; as_float = (ValueFloat, lx'\<lparr>value_float := strtod (token_buffer lx')\<rparr>)
      in if t = ValueUnsigned then
           (case strtoull (token_buffer lx') of Some x \<Rightarrow> (ValueUnsigned, lx'\<lparr>value_unsigned := x\<rparr>) | None \<Rightarrow> as_float)
         else if t = ValueInteger then
           (case strtoll (token_buffer lx') of Some x \<Rightarrow> (ValueInteger, lx'\<lparr>value_integer := x\<rparr>) | None \<Rightarrow> as_float)
         else as_float)"
  by (simp add: scan_number_done_def lex_done_def Let_def)

lemma stop_current: "stands lx s buf \<Longrightarrow> stop s \<Longrightarrow>
  current (lex_get lx) = None \<or> current (lex_get lx) \<in> {Some CHR '','', Some CHR '']'', Some CHR ''}'', Some CHR 0x00}"
  by (cases s) (auto simp: stands_def lex_view stop_def)

lemma any1_digits:
  "stands lx (ds @ s) buf \<Longrightarrow> list_all is_digit ds \<Longrightarrow> stop s \<Longrightarrow>
   \<exists>lx'. scan_number_any1 t lx = scan_number_done t (lex_get lx') \<and> stands lx' s (buf @ ds)"
proof (induction ds arbitrary: lx buf)
  case Nil
  then have "scan_number_any1 t lx = scan_number_done t (lex_get lx)"
    using stop_current [of lx s buf] by (subst scan_number_any1.simps) (auto simp: is_digit_def byte_of_def)
  then show ?case using Nil(1) by auto
next
  case (Cons d ds)
  have 1: "current (lex_get lx) = Some d" "stands (lex_add d (lex_get lx)) (ds @ s) (buf @ [d])"
    using stands_get [of lx d "ds @ s" buf] Cons.prems(1) by simp_all
  then have "scan_number_any1 t lx = scan_number_any1 t (lex_add d (lex_get lx))"
    using Cons.prems(2) by (subst scan_number_any1.simps) simp
  then show ?case using Cons.IH [OF 1(2)] Cons.prems by simp
qed

lemma zero_stop:
  assumes "stands lx s buf" "stop s"
  shows "scan_number_zero t lx = scan_number_done t (lex_get lx)"
  using stop_current [OF assms] by (auto simp: scan_number_zero_def Let_def)

lemma fill_digits_pos:
  assumes "0 < x"
  obtains d ds where "fill_digits x [] = d # ds" "is_digit d" "d \<noteq> CHR ''0''" "list_all is_digit ds" "digits_value 0 (d # ds) = x"
  using fill_digits_spec [of x "[]"] assms by (cases "fill_digits x []") auto

text \<open>A lexer whose last character was the first of a token.\<close>

definition begins :: "lexer \<Rightarrow> string \<Rightarrow> bool" where
  "begins lx s \<longleftrightarrow> current lx = first s \<and> lex_ok lx \<and> lex_rest lx = tl s"

definition int_token :: "int \<Rightarrow> token_type \<Rightarrow> lexer \<Rightarrow> bool" where
  "int_token i t lx \<longleftrightarrow> (if 0 \<le> i then t = ValueUnsigned \<and> value_unsigned lx = i else t = ValueInteger \<and> value_integer lx = i)"

lemma scan_number_dumped:
  assumes "begins lx (dump_integer i @ s)" "stop s" "is_int64 i \<or> 0 \<le> i \<and> i \<le> 18446744073709551615"
  shows "\<exists>t lx' buf. scan_token lx = (t, lx') \<and> int_token i t lx' \<and> stands lx' s buf"
proof -
  have digit: "d \<notin> {CHR ''['', CHR '']'', CHR ''{'', CHR ''}'', CHR '':'', CHR '','', CHR ''t'', CHR ''f'', CHR ''n'', quote}"
    if "is_digit d" for d using that by (auto simp: is_digit_def byte_of_def quote_def)
  consider "i = 0" | "0 < i" | "i < 0" by linarith
  then show ?thesis
  proof cases
    case 1
    let ?lx = "lex_add CHR ''0'' (lex_reset lx)"
    have 2: "current lx = Some CHR ''0''" "stands ?lx s ''0''"
      using assms(1) 1 by (simp_all add: begins_def dump_integer_def stands_def)
    then have "scan_token lx = scan_number_done ValueUnsigned (lex_get ?lx)"
      using zero_stop [OF 2(2) assms(2)] by (simp add: scan_token_def scan_number_def quote_def is_digit_def byte_of_def)
    moreover have "token_buffer (lex_done ?lx) = ''0''" "stands (lex_done ?lx) s ''0''"
      using stands_done [OF 2(2)] by (simp_all add: stands_def)
    ultimately show ?thesis
      using 1 by (auto simp: number_done strtoull_def digit_value_def byte_of_def int_token_def stands_def)
  next
    case 2
    obtain d ds where d: "fill_digits i [] = d # ds" "is_digit d" "d \<noteq> CHR ''0''" "list_all is_digit ds"
      "digits_value 0 (d # ds) = i" using fill_digits_pos [OF 2] .
    let ?lx = "lex_add d (lex_reset lx)"
    have 3: "current lx = Some d" "stands ?lx (ds @ s) [d]"
      using assms(1) 2 d(1) by (simp_all add: begins_def dump_integer_def stands_def)
    have "d \<noteq> CHR ''-''" using d(2) by (auto simp: is_digit_def byte_of_def)
    then have "scan_token lx = scan_number_any1 ValueUnsigned ?lx"
      using 3(1) d(2,3) digit [OF d(2)] by (simp add: scan_token_def scan_number_def)
    then obtain lx' where lx': "scan_token lx = scan_number_done ValueUnsigned (lex_get lx')" "stands lx' s (d # ds)"
      using any1_digits [OF 3(2) d(4) assms(2)] by auto
    then have "token_buffer (lex_done lx') = d # ds" "stands (lex_done lx') s (d # ds)"
      using stands_done [OF lx'(2)] by (simp_all add: stands_def)
    moreover have "i \<le> 18446744073709551615" using assms(3) by (auto simp: is_int64_def)
    ultimately show ?thesis
      using 2 lx'(1) d(5) by (auto simp: number_done strtoull_def int_token_def stands_def Let_def simp del: digits_value.simps)
  next
    case 3
    then have m: "0 < remove_sign i" "remove_sign i = - i" by (simp_all add: remove_sign_def)
    obtain d ds where d: "fill_digits (- i) [] = d # ds" "is_digit d" "d \<noteq> CHR ''0''" "list_all is_digit ds"
      "digits_value 0 (d # ds) = - i" using fill_digits_pos [OF m(1)] m(2) by metis
    let ?start = "lex_add CHR ''-'' (lex_reset lx)"
    have 4: "current lx = Some CHR ''-''" "stands ?start (d # ds @ s) ''-''"
      using assms(1) 3 d(1) m(2) by (simp_all add: begins_def dump_integer_def stands_def)
    let ?lx = "lex_add d (lex_get ?start)"
    have 5: "current (lex_get ?start) = Some d" "stands ?lx (ds @ s) (''-'' @ [d])"
      using stands_get [OF 4(2)] stands_simps(1) [of "lex_get ?start" "ds @ s" "''-''" d] by simp_all
    have "scan_token lx = scan_number_any1 ValueInteger ?lx"
      using 4(1) 5(1) d(2,3) by (simp add: scan_token_def scan_number_def scan_number_minus_def Let_def quote_def)
    then obtain lx' where lx': "scan_token lx = scan_number_done ValueInteger (lex_get lx')" "stands lx' s (''-'' @ d # ds)"
      using any1_digits [OF 5(2) d(4) assms(2)] by auto
    then have "token_buffer (lex_done lx') = ''-'' @ d # ds" "stands (lex_done lx') s (''-'' @ d # ds)"
      using stands_done [OF lx'(2)] by (simp_all add: stands_def)
    moreover have "- 9223372036854775808 \<le> i" using assms(3) 3 by (auto simp: is_int64_def)
    ultimately show ?thesis
      using 3 lx'(1) d(5) by (auto simp: number_done strtoll_def int_token_def stands_def Let_def simp del: digits_value.simps)
  qed
qed

section \<open>Tokens\<close>

text \<open>A parser whose last token was scanned from the text \<open>s\<close>, and one whose last token ended before \<open>s\<close>.\<close>

definition before :: "string \<Rightarrow> parser \<Rightarrow> bool" where
  "before s p \<longleftrightarrow> (\<exists>lx. lex_ok lx \<and> lex_rest lx = s \<and> scan lx = (last_token p, m_lexer p))"

definition after :: "string \<Rightarrow> parser \<Rightarrow> bool" where
  "after s p \<longleftrightarrow> lex_ok (m_lexer p) \<and> lex_rest (m_lexer p) = s"

lemma before_get_token: "after s p \<Longrightarrow> before s (get_token p)"
  by (auto simp: after_def before_def get_token_def split: prod.split)

lemma before_new: "before s (parser_new s)"
  by (auto simp: parser_new_def before_def get_token_def split: prod.split intro!: exI [of _ "lexer_new s"])

lemma before_begins:
  assumes "before s p" "first s \<noteq> Some CHR 0xEF" "dropWhile json_space s = s"
  obtains lx where "begins lx s" "scan_token lx = (last_token p, m_lexer p)"
proof -
  obtain lx0 where lx0: "lex_ok lx0" "lex_rest lx0 = s" "scan lx0 = (last_token p, m_lexer p)"
    using assms(1) by (auto simp: before_def)
  obtain lx' where "scan lx0 = scan_token lx'" "current lx' = first s" "lex_rest lx' = tl s" "lex_ok lx'"
    using scan_view [of lx0] assms(2,3) lx0(1,2) by metis
  then show ?thesis using lx0(3) by (intro that [of lx']) (simp_all add: begins_def)
qed

lemma before_char:
  assumes "before (c # s) p" "c \<noteq> CHR 0xEF" "\<not> json_space c"
  obtains lx where "begins lx (c # s)" "scan_token lx = (last_token p, m_lexer p)"
proof -
  have "first (c # s) \<noteq> Some CHR 0xEF" "dropWhile json_space (c # s) = c # s" using assms(2,3) by simp_all
  then show ?thesis using before_begins [OF assms(1)] that by blast
qed

lemma json_space_iff: "json_space c \<longleftrightarrow> c \<in> {CHR '' '', CHR 0x09, CHR 0x0A, CHR 0x0D}"
  by (auto simp: json_space_def is_space_def)

lemma structural_token:
  assumes "before (c # s) p"
    and "(c, tk) \<in> {(CHR ''['', BeginArray), (CHR '']'', EndArray), (CHR ''{'', BeginObject), (CHR ''}'', EndObject),
                  (CHR '':'', NameSeparator), (CHR '','', ValueSeparator)}"
  shows "last_token p = tk \<and> after s p"
proof -
  have "c \<noteq> CHR 0xEF" "\<not> json_space c" using assms(2) by (auto simp: json_space_iff)
  then obtain lx where lx: "begins lx (c # s)" "scan_token lx = (last_token p, m_lexer p)"
    using before_char [OF assms(1)] by blast
  have cur: "current lx = Some c" and ok: "lex_ok lx" "lex_rest lx = s" using lx(1) by (simp_all add: begins_def)
  have "scan_token lx = (tk, lx)" using assms(2) by (elim insertE emptyE) (simp_all add: scan_token_def cur)
  then have "last_token p = tk" "m_lexer p = lx" using lx(2) by simp_all
  then show ?thesis using ok by (simp add: after_def)
qed

lemma end_token:
  assumes "before s p" "s = [] \<or> hd s = CHR 0x00"
  shows "last_token p = EndOfInput"
proof -
  have "first s \<noteq> Some CHR 0xEF" "dropWhile json_space s = s"
    using assms(2) by (cases s; auto simp: json_space_iff)+
  then obtain lx where lx: "begins lx s" "scan_token lx = (last_token p, m_lexer p)"
    using before_begins [OF assms(1)] by blast
  have "scan_token lx = (EndOfInput, lx)"
    using assms(2) lx(1) by (cases s) (auto simp: scan_token_def begins_def quote_def is_digit_def byte_of_def)
  then show ?thesis using lx(2) by simp
qed

lemma string_token:
  assumes "before (quote # t @ quote # s) p" "dump_escaped False str = Ok t"
  shows "last_token p = ValueString \<and> token_buffer (m_lexer p) = str \<and> after s p"
proof -
  have "quote \<noteq> CHR 0xEF" "\<not> json_space quote" by (simp_all add: json_space_iff quote_def)
  then obtain lx where lx: "begins lx (quote # t @ quote # s)" "scan_token lx = (last_token p, m_lexer p)"
    using before_char [OF assms(1)] by blast
  then have "stands (lex_reset lx) (t @ quote # s) []" by (simp add: begins_def stands_def)
  then obtain lx' where "scan_string_loop (lex_reset lx) = (ValueString, lx')" "stands lx' s str"
    using scan_string_dumped [OF assms(2) [unfolded dump_escaped_def]] by fastforce
  moreover have "scan_token lx = scan_string_loop (lex_reset lx)"
    using lx(1) by (simp add: scan_token_def begins_def scan_string_def quote_def)
  ultimately show ?thesis using lx(2) by (simp add: stands_def after_def)
qed

lemma literal_rest:
  "stands lx (cs @ s) buf \<Longrightarrow> \<exists>lx'. scan_literal cs t lx = (t, lx') \<and> stands lx' s buf"
proof (induction cs arbitrary: lx)
  case (Cons c cs)
  then show ?case using stands_get [of lx c "cs @ s" buf] by (simp add: Let_def)
qed simp

lemma literal_token:
  assumes "before (l @ s) p"
    and "(l, tk) \<in> {(''true'', LiteralTrue), (''false'', LiteralFalse), (''null'', LiteralNull)}"
  shows "last_token p = tk \<and> after s p"
proof -
  obtain c cs where l: "l = c # cs" "c \<in> {CHR ''t'', CHR ''f'', CHR ''n''}" using assms(2) by auto
  have "before (c # cs @ s) p" "c \<noteq> CHR 0xEF" "\<not> json_space c" using assms(1) l by (auto simp: json_space_iff)
  then obtain lx where lx: "begins lx (c # cs @ s)" "scan_token lx = (last_token p, m_lexer p)"
    using before_char by blast
  then have "stands lx (cs @ s) (token_buffer lx)" by (simp add: begins_def stands_def)
  then obtain lx' where "scan_literal cs tk lx = (tk, lx')" "stands lx' s (token_buffer lx)"
    using literal_rest by blast
  moreover have "scan_token lx = scan_literal cs tk lx"
    using lx(1) l assms(2) by (auto simp: scan_token_def begins_def quote_def simp del: scan_literal.simps)
  ultimately show ?thesis using lx(2) by (simp add: stands_def after_def)
qed

lemma integer_first: "\<exists>c cs. dump_integer i = c # cs \<and> (c = CHR ''-'' \<or> is_digit c)"
proof (cases "0 < i")
  case True
  then show ?thesis using fill_digits_pos [of i] by (fastforce simp: dump_integer_def)
qed (auto simp: dump_integer_def is_digit_def byte_of_def)

lemma integer_token:
  assumes "before (dump_integer i @ s) p" "stop s" "is_int64 i \<or> 0 \<le> i \<and> i \<le> 18446744073709551615"
  shows "int_token i (last_token p) (m_lexer p) \<and> after s p"
proof -
  obtain c cs where c: "dump_integer i = c # cs" "c = CHR ''-'' \<or> is_digit c" using integer_first by blast
  then have "c \<noteq> CHR 0xEF" "\<not> json_space c" by (auto simp: json_space_iff is_digit_def byte_of_def)
  then obtain lx where lx: "begins lx (dump_integer i @ s)" "scan_token lx = (last_token p, m_lexer p)"
    using before_char [of c "cs @ s" p] assms(1) c(1) by (metis append_Cons)
  then show ?thesis
    using scan_number_dumped [OF lx(1) assms(2,3)] by (auto simp: stands_def after_def)
qed

section \<open>Values\<close>

fun no_float :: "json \<Rightarrow> bool" where
  "no_float (JFloat d) = False"
| "no_float (JArray js) = (\<forall>j \<in> set js. no_float j)"
| "no_float (JObject kvs) = (\<forall>kv \<in> set kvs. no_float (snd kv))"
| "no_float j = True"

fun proceed :: "progress \<Rightarrow> json outcome \<times> parser" where
  "proceed (PNext p fs) = sax_parse p fs"
| "proceed (PDone j p) = (Ok j, p)"
| "proceed (PError e p) = (Throw e, p)"
| "proceed (PValue j p) = (Abort, p)"

lemma sax_parse_proceed: "sax_parse p fs = proceed (sax_step p fs)"
  by (subst sax_parse.simps) (simp split: progress.split)

text \<open>The text \<open>t\<close> of a value, before whatever may follow, takes the parser to that value.\<close>

definition reads :: "json \<Rightarrow> string \<Rightarrow> bool" where
  "reads j t \<longleftrightarrow>
     (\<forall>s p. before (t @ s) p \<longrightarrow> stop s \<longrightarrow>
        last_token p \<noteq> EndArray \<and> (\<exists>p'. after s p' \<and> (\<forall>fs. sax_parse p fs = proceed (sax_up (json_norm j) p' fs))))"

lemma readsD:
  assumes "reads j t" "before (t @ s) p" "stop s"
  obtains p' where "last_token p \<noteq> EndArray" "after s p'"
    "\<And>fs. sax_parse p fs = proceed (sax_up (json_norm j) p' fs)"
  using assms unfolding reads_def by blast

lemma reads_scalar:
  assumes "\<And>s p. before (t @ s) p \<Longrightarrow> stop s \<Longrightarrow>
    last_token p \<noteq> EndArray \<and> after s p \<and> (\<forall>fs. sax_value p fs = PValue (json_norm j) p)"
  shows "reads j t"
  unfolding reads_def using assms by (auto simp: sax_parse_proceed sax_step_def)

lemma reads_literal_of:
  assumes "(l, tk) \<in> {(''true'', LiteralTrue), (''false'', LiteralFalse), (''null'', LiteralNull)}"
    and "\<And>p fs. last_token p = tk \<Longrightarrow> sax_value p fs = PValue (json_norm j) p"
  shows "reads j l"
proof (rule reads_scalar)
  fix s p assume "before (l @ s) p"
  then have "last_token p = tk" "after s p" using literal_token [OF _ assms(1)] by blast+
  then show "last_token p \<noteq> EndArray \<and> after s p \<and> (\<forall>fs. sax_value p fs = PValue (json_norm j) p)"
    using assms by auto
qed

lemma reads_literal:
  "reads JNull ''null''" "reads (JBoolean True) ''true''" "reads (JBoolean False) ''false''"
  by (rule reads_literal_of [of _ LiteralNull], simp, simp add: sax_value_def)
     (rule reads_literal_of [of _ LiteralTrue], simp, simp add: sax_value_def,
      rule reads_literal_of [of _ LiteralFalse], simp, simp add: sax_value_def)

lemma reads_string:
  assumes "dump_escaped False str = Ok t"
  shows "reads (JString str) ([quote] @ t @ [quote])"
proof (rule reads_scalar)
  fix s p assume "before (([quote] @ t @ [quote]) @ s) p"
  then have "before (quote # t @ quote # s) p" by simp
  then show "last_token p \<noteq> EndArray \<and> after s p \<and> (\<forall>fs. sax_value p fs = PValue (json_norm (JString str)) p)"
    using string_token assms by (auto simp: sax_value_def)
qed

lemma reads_integer:
  assumes "is_int64 i \<or> 0 \<le> i \<and> i \<le> 18446744073709551615"
    and "j = JInteger i \<or> j = JUnsigned i \<and> 0 \<le> i"
  shows "reads j (dump_integer i)"
proof (rule reads_scalar)
  fix s p assume "before (dump_integer i @ s) p" "stop s"
  then have "int_token i (last_token p) (m_lexer p)" "after s p" using integer_token [OF _ _ assms(1)] by blast+
  then show "last_token p \<noteq> EndArray \<and> after s p \<and> (\<forall>fs. sax_value p fs = PValue (json_norm j) p)"
    using assms(2) by (auto simp: sax_value_def int_token_def split: if_splits)
qed

text \<open>The elements of an array, after the ones in \<open>acc\<close>.\<close>

lemma reads_elements:
  "list_all2 reads js ms \<Longrightarrow> js \<noteq> [] \<Longrightarrow> before (join '','' ms @ '']'' @ s) p \<Longrightarrow>
   last_token p \<noteq> EndArray \<and>
   (\<exists>p'. after s p' \<and> (\<forall>fs. sax_parse p (FArray acc # fs) = proceed (sax_up (JArray (acc @ map json_norm js)) p' fs)))"
proof (induction js ms arbitrary: acc p rule: list_all2_induct)
  case (Cons j js m ms)
  show ?case
  proof (cases ms)
    case Nil
    then have js: "js = []" using Cons.hyps(2) by simp
    have "before (m @ CHR '']'' # s) p" using Cons.prems(2) Nil by simp
    then obtain p1 where p1: "last_token p \<noteq> EndArray" "after (CHR '']'' # s) p1"
      "\<And>fs. sax_parse p fs = proceed (sax_up (json_norm j) p1 fs)"
      using readsD [OF Cons.hyps(1)] by (metis stop_simps(3))
    have "last_token (get_token p1) = EndArray" "after s (get_token p1)"
      using structural_token [OF before_get_token [OF p1(2)]] by auto
    then show ?thesis using p1(1,3) js by (auto simp: Let_def)
  next
    case (Cons m' ms')
    then have ne: "js \<noteq> []" using Cons.hyps(2) by auto
    have "before (m @ CHR '','' # join '','' ms @ '']'' @ s) p" using Cons.prems(2) Cons by simp
    then obtain p1 where p1: "last_token p \<noteq> EndArray" "after (CHR '','' # join '','' ms @ '']'' @ s) p1"
      "\<And>fs. sax_parse p fs = proceed (sax_up (json_norm j) p1 fs)"
      using readsD [OF Cons.hyps(1)] by (metis stop_simps(2))
    have t: "last_token (get_token p1) = ValueSeparator" "after (join '','' ms @ '']'' @ s) (get_token p1)"
      using structural_token [OF before_get_token [OF p1(2)]] by auto
    obtain p' where "after s p'" "\<And>fs. sax_parse (get_token (get_token p1)) (FArray (acc @ [json_norm j]) # fs) =
        proceed (sax_up (JArray ((acc @ [json_norm j]) @ map json_norm js)) p' fs)"
      using Cons.IH [OF ne before_get_token [OF t(2)]] by blast
    then show ?thesis using p1(1,3) t(1) by (auto simp: Let_def)
  qed
qed simp

text \<open>The members of an object, after the ones in \<open>acc\<close>.\<close>

definition reads_member :: "string \<times> json \<Rightarrow> string \<Rightarrow> bool" where
  "reads_member kv m \<longleftrightarrow>
     (\<exists>k v. dump_escaped False (fst kv) = Ok k \<and> reads (snd kv) v \<and> m = [quote] @ k @ [quote] @ '':'' @ v)"

lemma obj_assign_last: "\<forall>kv \<in> set acc. fst kv < k \<Longrightarrow> obj_assign k v acc = acc @ [(k, v)]"
  by (induction k v acc rule: obj_assign.induct) (auto dest: order.asym)

lemma member_key:
  assumes "reads_member kv m" "before (m @ s) p" "stop s"
  obtains p' where "last_token p = ValueString" "after s p'"
    "\<And>acc fs. proceed (sax_member acc fs p) = proceed (sax_up (json_norm (snd kv)) p' (FObject acc (fst kv) # fs))"
proof -
  obtain k v where m: "dump_escaped False (fst kv) = Ok k" "reads (snd kv) v" "m = [quote] @ k @ [quote] @ '':'' @ v"
    using assms(1) by (auto simp: reads_member_def)
  have "before (quote # k @ quote # CHR '':'' # v @ s) p" using assms(2) m(3) by simp
  then have p: "last_token p = ValueString" "token_buffer (m_lexer p) = fst kv" "after (CHR '':'' # v @ s) p"
    using string_token m(1) by blast+
  have p1: "last_token (get_token p) = NameSeparator" "after (v @ s) (get_token p)"
    using structural_token [OF before_get_token [OF p(3)]] by auto
  obtain p' where p': "after s p'" "\<And>fs. sax_parse (get_token (get_token p)) fs = proceed (sax_up (json_norm (snd kv)) p' fs)"
    using readsD [OF m(2) before_get_token [OF p1(2)] assms(3)] by blast
  show ?thesis
    using p(1,2) p1(1) p' by (intro that [of p']) (simp_all add: sax_member_def Let_def)
qed

lemma reads_members:
  "list_all2 reads_member kvs ms \<Longrightarrow> kvs \<noteq> [] \<Longrightarrow> obj_sorted (acc @ map (\<lambda>kv. (fst kv, json_norm (snd kv))) kvs) \<Longrightarrow>
   before (join '','' ms @ ''}'' @ s) p \<Longrightarrow>
   last_token p = ValueString \<and> (\<exists>p'. after s p' \<and> (\<forall>fs. proceed (sax_member acc fs p) =
     proceed (sax_up (JObject (acc @ map (\<lambda>kv. (fst kv, json_norm (snd kv))) kvs)) p' fs)))"
proof (induction kvs ms arbitrary: acc p rule: list_all2_induct)
  case (Cons kv kvs m ms)
  have "\<forall>x \<in> set acc. fst x < fst kv"
    using Cons.prems(2) by (force simp: obj_sorted_def sorted_wrt_append)
  then have acc: "obj_assign (fst kv) (json_norm (snd kv)) acc = acc @ [(fst kv, json_norm (snd kv))]"
    by (rule obj_assign_last)
  show ?case
  proof (cases ms)
    case Nil
    then have kvs: "kvs = []" using Cons.hyps(2) by simp
    have "before (m @ CHR ''}'' # s) p" using Cons.prems(3) Nil by simp
    then obtain p1 where p1: "last_token p = ValueString" "after (CHR ''}'' # s) p1"
      "\<And>acc fs. proceed (sax_member acc fs p) = proceed (sax_up (json_norm (snd kv)) p1 (FObject acc (fst kv) # fs))"
      using member_key [OF Cons.hyps(1)] by (metis stop_simps(4))
    have "last_token (get_token p1) = EndObject" "after s (get_token p1)"
      using structural_token [OF before_get_token [OF p1(2)]] by auto
    then show ?thesis using p1(1,3) kvs acc by (auto simp: Let_def)
  next
    case (Cons m' ms')
    then have ne: "kvs \<noteq> []" using Cons.hyps(2) by auto
    have "before (m @ CHR '','' # join '','' ms @ ''}'' @ s) p" using Cons.prems(3) Cons by simp
    then obtain p1 where p1: "last_token p = ValueString" "after (CHR '','' # join '','' ms @ ''}'' @ s) p1"
      "\<And>acc fs. proceed (sax_member acc fs p) = proceed (sax_up (json_norm (snd kv)) p1 (FObject acc (fst kv) # fs))"
      using member_key [OF Cons.hyps(1)] by (metis stop_simps(2))
    have t: "last_token (get_token p1) = ValueSeparator" "after (join '','' ms @ ''}'' @ s) (get_token p1)"
      using structural_token [OF before_get_token [OF p1(2)]] by auto
    let ?acc = "acc @ [(fst kv, json_norm (snd kv))]"
    have "obj_sorted (?acc @ map (\<lambda>kv. (fst kv, json_norm (snd kv))) kvs)" using Cons.prems(2) by simp
    from Cons.IH [OF ne this before_get_token [OF t(2)]]
    obtain p' where "after s p'" "\<And>fs. proceed (sax_member ?acc fs (get_token (get_token p1))) =
        proceed (sax_up (JObject (?acc @ map (\<lambda>kv. (fst kv, json_norm (snd kv))) kvs)) p' fs)"
      by blast
    then show ?thesis using p1(1,3) t(1) acc by (auto simp: Let_def)
  qed
qed simp

text \<open>A container: its opening token, then the elements or members, or the closing token at once.\<close>

lemma reads_array:
  assumes "list_all2 reads js ms"
  shows "reads (JArray js) (''['' @ join '','' ms @ '']'')"
  unfolding reads_def
proof (intro allI impI)
  fix s p assume "before ((''['' @ join '','' ms @ '']'') @ s) p"
  then have t: "last_token p = BeginArray" "after (join '','' ms @ '']'' @ s) p"
    using structural_token [of "CHR ''[''" "join '','' ms @ '']'' @ s" p] by auto
  note b = before_get_token [OF t(2)]
  have step: "sax_parse p fs = proceed (case sax_value p fs of PValue j p' \<Rightarrow> sax_up j p' fs | r \<Rightarrow> r)" for fs
    by (simp add: sax_parse_proceed sax_step_def)
  have "\<exists>p'. after s p' \<and> (\<forall>fs. sax_parse p fs = proceed (sax_up (json_norm (JArray js)) p' fs))"
  proof (cases "js = []")
    case True
    then have "last_token (get_token p) = EndArray" "after s (get_token p)"
      using structural_token [of "CHR '']''" s "get_token p"] b assms by auto
    then show ?thesis using t(1) True by (auto simp: step sax_value_def Let_def)
  next
    case False
    then show ?thesis
      using reads_elements [OF assms False b, of "[]"] t(1) by (auto simp: step sax_value_def Let_def)
  qed
  then show "last_token p \<noteq> EndArray \<and>
      (\<exists>p'. after s p' \<and> (\<forall>fs. sax_parse p fs = proceed (sax_up (json_norm (JArray js)) p' fs)))"
    using t(1) by simp
qed

lemma reads_object:
  assumes "list_all2 reads_member kvs ms" "obj_sorted kvs"
  shows "reads (JObject kvs) (''{'' @ join '','' ms @ ''}'')"
  unfolding reads_def
proof (intro allI impI)
  fix s p assume "before ((''{'' @ join '','' ms @ ''}'') @ s) p"
  then have t: "last_token p = BeginObject" "after (join '','' ms @ ''}'' @ s) p"
    using structural_token [of "CHR ''{''" "join '','' ms @ ''}'' @ s" p] by auto
  note b = before_get_token [OF t(2)]
  have step: "sax_parse p fs = proceed (case sax_value p fs of PValue j p' \<Rightarrow> sax_up j p' fs | r \<Rightarrow> r)" for fs
    by (simp add: sax_parse_proceed sax_step_def)
  have member: "sax_member kvs fs p1 \<noteq> PValue j p'" for kvs fs p1 j p' by (rule sax_member_progress)
  have "\<exists>p'. after s p' \<and> (\<forall>fs. sax_parse p fs = proceed (sax_up (json_norm (JObject kvs)) p' fs))"
  proof (cases "kvs = []")
    case True
    then have "last_token (get_token p) = EndObject" "after s (get_token p)"
      using structural_token [of "CHR ''}''" s "get_token p"] b assms by auto
    then show ?thesis using t(1) True by (auto simp: step sax_value_def Let_def)
  next
    case False
    have "obj_sorted ([] @ map (\<lambda>kv. (fst kv, json_norm (snd kv))) kvs)"
      using assms(2) by (simp add: obj_sorted_def comp_def)
    from reads_members [OF assms(1) False this b]
    have m: "last_token (get_token p) = ValueString" "\<exists>p'. after s p' \<and> (\<forall>fs. proceed (sax_member [] fs (get_token p)) =
        proceed (sax_up (json_norm (JObject kvs)) p' fs))" by simp_all
    have "sax_parse p fs = proceed (sax_member [] fs (get_token p))" for fs
      using t(1) m(1) member by (auto simp: step sax_value_def Let_def split: progress.split)
    then show ?thesis using m(2) by simp
  qed
  then show "last_token p \<noteq> EndArray \<and>
      (\<exists>p'. after s p' \<and> (\<forall>fs. sax_parse p fs = proceed (sax_up (json_norm (JObject kvs)) p' fs)))"
    using t(1) by simp
qed

lemma osequence_all2: "osequence rs = Ok xs \<Longrightarrow> list_all2 (\<lambda>r x. r = Ok x) rs xs"
  by (induction rs arbitrary: xs) (auto simp: obind_eq_Ok omap_eq_Ok)

lemma list_all2_reads:
  assumes "osequence (map f xs) = Ok ms" "\<And>x t. x \<in> set xs \<Longrightarrow> f x = Ok t \<Longrightarrow> P x t"
  shows "list_all2 P xs ms"
  using osequence_all2 [OF assms(1)] assms(2) by (auto simp: list_all2_conv_all_nth)

lemma dump_reads: "json_dump False False stp cur j = Ok t \<Longrightarrow> json_wf j \<Longrightarrow> no_float j \<Longrightarrow> reads j t"
proof (induction j arbitrary: t)
  case (JInteger i)
  then show ?case by (auto intro: reads_integer)
next
  case (JUnsigned i)
  then show ?case by (auto intro: reads_integer)
next
  case (JString s)
  then show ?case using reads_string by (auto simp: omap_eq_Ok)
next
  case (JArray js)
  show ?case
  proof (cases "js = []")
    case True
    then show ?thesis using JArray.prems(1) reads_array [of "[]" "[]"] by simp
  next
    case False
    then obtain ms where ms: "osequence (map (json_dump False False stp cur) js) = Ok ms" "t = ''['' @ join '','' ms @ '']''"
      using JArray.prems(1) by (auto simp: omap_eq_Ok)
    have "list_all2 reads js ms"
      using JArray by (intro list_all2_reads [OF ms(1)]) simp
    then show ?thesis using reads_array ms(2) by simp
  qed
next
  case (JObject kvs)
  show ?case
  proof (cases "kvs = []")
    case True
    then show ?thesis using JObject.prems(1) reads_object [of "[]" "[]"] by simp
  next
    case False
    then obtain ms where ms: "osequence (map (\<lambda>kv. obind (dump_escaped False (fst kv)) (\<lambda>k.
        omap (\<lambda>v. [quote] @ k @ [quote] @ '':'' @ v) (json_dump False False stp cur (snd kv)))) kvs) = Ok ms"
      "t = ''{'' @ join '','' ms @ ''}''"
      using JObject.prems(1) by (auto simp: omap_eq_Ok)
    have "list_all2 reads_member kvs ms"
    proof (rule list_all2_reads [OF ms(1)])
      fix kv t'
      assume kv: "kv \<in> set kvs"
        "obind (dump_escaped False (fst kv)) (\<lambda>k. omap (\<lambda>v. [quote] @ k @ [quote] @ '':'' @ v)
           (json_dump False False stp cur (snd kv))) = Ok t'"
      then obtain k v where "dump_escaped False (fst kv) = Ok k" "json_dump False False stp cur (snd kv) = Ok v"
        "t' = [quote] @ k @ [quote] @ '':'' @ v" by (auto simp: obind_eq_Ok omap_eq_Ok)
      moreover have "reads (snd kv) v"
      proof (rule JObject.IH [OF kv(1)])
        show "snd kv \<in> Basic_BNFs.snds kv" by (cases kv) simp
        show "json_wf (snd kv)" "no_float (snd kv)" using JObject.prems(2,3) kv(1) by simp_all
      qed (rule calculation(2))
      ultimately show "reads_member kv t'" by (auto simp: reads_member_def)
    qed
    then show ?thesis using reads_object ms(2) JObject.prems(2) by simp
  qed
qed (auto intro: reads_literal)

text \<open>A buffer holds the text and then zero bytes, or nothing.\<close>

lemma parse_dumped:
  assumes "dump j = Ok t" "json_wf j" "no_float j" "rest = [] \<or> hd rest = CHR 0x00"
  shows "json_parse (t @ rest) = Ok (json_norm j)"
proof -
  have "stop rest" using assms(4) by (cases rest) auto
  moreover have "reads j t" using dump_reads assms(1-3) by (simp add: dump_def)
  ultimately obtain p' where p': "after rest p'" "sax_parse (parser_new (t @ rest)) [] = proceed (sax_up (json_norm j) p' [])"
    using readsD [OF _ before_new] by metis
  have "last_token (get_token p') = EndOfInput"
    using end_token [OF before_get_token [OF p'(1)] assms(4)] .
  then show ?thesis using p'(2) by (simp add: json_parse_def Let_def)
qed

section \<open>Properties\<close>

text \<open>C9: printing and parsing round trip: the text that \<open>dump\<close> prints for a well-formed value
  without floating-point numbers parses to the same value, whether the text ends there or goes on
  with the zero bytes of a buffer; only a non-negative integer comes back as an unsigned one.\<close>

theorem json_roundtrip:
  assumes "dump j = Ok t" "json_wf j" "no_float j" "rest = [] \<or> hd rest = CHR 0x00"
  shows "json_parse (t @ rest) = Ok (json_norm j)"
  by (rule parse_dumped [OF assms])

definition example_message :: json where
  "example_message =
     JObject [(''action'', JString (''SET'' @ [CHR 0x0A, CHR 0x22, CHR 0xC3, CHR 0xA9])), (''list'', JArray [JInteger 5, JInteger (-7), JNull])]"

theorem json_roundtrip_witness:
  "json_parse ([CHR 0x7B] @ [quote] @ ''action'' @ [quote] @ '':'' @ [quote] @ ''SET'' @ [backslash] @ ''n'' @ [backslash, quote] @ [CHR 0xC3, CHR 0xA9] @ [quote] @ '','' @
       [quote] @ ''list'' @ [quote] @ '':[5,-7,null]}'' @ [CHR 0x00]) = Ok (json_norm example_message)"
proof -
  have d: "dump example_message = Ok ([CHR 0x7B] @ [quote] @ ''action'' @ [quote] @ '':'' @ [quote] @ ''SET'' @ [backslash] @ ''n'' @ [backslash, quote] @ [CHR 0xC3, CHR 0xA9] @ [quote] @ '','' @
       [quote] @ ''list'' @ [quote] @ '':[5,-7,null]}'')"
    by code_simp
  have "json_wf example_message" "no_float example_message" by code_simp+
  from json_roundtrip [OF d this, of "[CHR 0x00]"] show ?thesis by simp
qed

end
