(* ===== verification/Remote.thy ===== *)
theory Remote imports Json_Roundtrip Raft_Rpc begin

text \<open>
  A remote call from end to end: the packet that \<open>JsonRpcClient::call\<close> prints, the request that
  \<open>JsonRpcServer::handleClient\<close> parses and dispatches, and the reply on its way back; and what
  the server does with requests that are no such packet.
\<close>

section \<open>Messages in the buffer\<close>

lemma rpc_buffer_short: "length s < BUFFER_SIZE \<Longrightarrow> \<exists>rest. rpc_buffer s = s @ rest \<and> hd rest = CHR 0x00"
  by (auto simp: rpc_buffer_def Let_def BUFFER_SIZE_def intro!: exI [of _ "replicate (8192 - length s) CHR 0x00"])

lemma parse_buffer:
  assumes "dump j = Ok t" "json_wf j" "no_float j" "length t < BUFFER_SIZE"
  shows "json_parse (rpc_buffer t) = Ok (json_norm j)"
  using parse_dumped [OF assms(1-3)] rpc_buffer_short [OF assms(4)] by auto

lemma integer_nonempty: "dump_integer i \<noteq> []"
  using integer_first [of i] by auto

lemma dump_nonempty: "dump j = Ok t \<Longrightarrow> no_float j \<Longrightarrow> t \<noteq> []"
  by (cases j) (auto simp: dump_def omap_eq_Ok integer_nonempty split: if_splits)

section \<open>A request on the server\<close>

lemma packet_shape:
  "rpc_packet method params = JObject [(''method'', JString method), (''params'', params)]"
  by (simp add: rpc_packet_def json_object_def)

lemma packet_fine: "json_wf params \<Longrightarrow> no_float params \<Longrightarrow>
  json_wf (rpc_packet method params) \<and> no_float (rpc_packet method params)"
  by (simp add: packet_shape obj_sorted_def)

text \<open>What the server does with a packet that arrives whole.\<close>

lemma handle_packet:
  assumes "dump (rpc_packet method params) = Ok data" "json_wf params" "no_float params" "length data < BUFFER_SIZE"
  shows "handle_request hs data s =
    abind (case map_of hs method of Some h \<Rightarrow> h (json_norm params) | None \<Rightarrow> ret (error_json ''unknown method''))
      (\<lambda>resp. lift (dump resp)) s"
proof -
  have "json_parse (rpc_buffer data) = Ok (JObject [(''method'', JString method), (''params'', json_norm params)])"
    using parse_buffer [OF assms(1) _ _ assms(4)] packet_fine [OF assms(2,3)] by (simp add: packet_shape)
  then show ?thesis
    by (simp add: handle_request_def lift_def Let_def)
qed

text \<open>The network that hands the request to the server and its answer back.\<close>

definition served_by :: "(string \<times> (json \<Rightarrow> ('s, json) action)) list \<Rightarrow> 's \<Rightarrow> network" where
  "served_by hs s =
     \<lparr>socket_ok = True, connect_ok = True,
      exchange = (\<lambda>data. case fst (handleClient hs data s) of Ok (Some reply) \<Rightarrow> Some reply | _ \<Rightarrow> Some [])\<rparr>"

lemma call_served:
  assumes "dump (rpc_packet method params) = Ok data" "json_wf params" "no_float params" "length data < BUFFER_SIZE"
    and "map_of hs method = Some h" "h (json_norm params) s = (Ok resp, s')"
    and "dump resp = Ok reply" "json_wf resp" "no_float resp" "length reply < BUFFER_SIZE"
  shows "handleClient hs data s = (Ok (Some reply), s') \<and>
    rpc_call (served_by hs s) method params = Ok (json_norm resp)"
proof -
  have "data \<noteq> []" using dump_nonempty [OF assms(1)] packet_fine [OF assms(2,3)] by simp
  moreover have "handle_request hs data s = (Ok reply, s')"
    using handle_packet [OF assms(1-4), of hs s] assms(5-7) by (simp add: lift_def)
  ultimately have h: "handleClient hs data s = (Ok (Some reply), s')" by (simp add: handleClient_def)
  have "reply \<noteq> []" using dump_nonempty [OF assms(7,9)] .
  then show ?thesis
    using h assms(1) parse_buffer [OF assms(7-10)] by (simp add: rpc_call_def served_by_def)
qed

text \<open>C11: a remote call reaches the handler and brings its answer back: when the connection stands
  and neither message fills the buffer, the server runs the handler of the named method on the
  parameters as parsing gives them back, and the caller gets the handler's reply.\<close>

theorem remote_call:
  assumes "dump (rpc_packet method params) = Ok data" "json_wf params" "no_float params" "length data < BUFFER_SIZE"
    and "map_of hs method = Some h" "h (json_norm params) s = (Ok resp, s')"
    and "dump resp = Ok reply" "json_wf resp" "no_float resp" "length reply < BUFFER_SIZE"
  shows "handleClient hs data s = (Ok (Some reply), s') \<and>
    rpc_call (served_by hs s) method params = Ok (json_norm resp)"
  by (rule call_served [OF assms])

theorem remote_call_witness:
  "rpc_call (served_by (raft_methods calm_env) example_node) ''RequestVote'' (vote_params example_candidate) =
   Ok (json_norm (vote_reply 2 True))"
proof -
  have "case dump (rpc_packet ''RequestVote'' (vote_params example_candidate)) of Ok d \<Rightarrow> length d < BUFFER_SIZE | _ \<Rightarrow> False"
    by code_simp
  then obtain data where data: "dump (rpc_packet ''RequestVote'' (vote_params example_candidate)) = Ok data" "length data < BUFFER_SIZE"
    by (auto split: outcome.splits)
  have "case dump (vote_reply 2 True) of Ok d \<Rightarrow> length d < BUFFER_SIZE | _ \<Rightarrow> False" by code_simp
  then obtain reply where reply: "dump (vote_reply 2 True) = Ok reply" "length reply < BUFFER_SIZE"
    by (auto split: outcome.splits)
  have wf: "json_wf (vote_params example_candidate)" "no_float (vote_params example_candidate)"
    "json_wf (vote_reply 2 True)" "no_float (vote_reply 2 True)" by code_simp+
  have m: "map_of (raft_methods calm_env) ''RequestVote'' = Some (onRequestVote calm_env)"
    by (simp add: raft_methods_def registerMethod_def rpc_server_new_def)
  have "fst (onRequestVote calm_env (json_norm (vote_params example_candidate)) example_node) = Ok (vote_reply 2 True)"
    by code_simp
  then have h: "onRequestVote calm_env (json_norm (vote_params example_candidate)) example_node =
      (Ok (vote_reply 2 True), snd (onRequestVote calm_env (json_norm (vote_params example_candidate)) example_node))"
    by (metis prod.collapse)
  show ?thesis using remote_call [OF data(1) wf(1,2) data(2) m h reply(1) wf(3,4) reply(2)] by blast
qed

text \<open>A packet that names a method the server does not know is answered with an error object,
  and the server's state stays as it was.\<close>

lemma unknown_method:
  assumes "dump (rpc_packet method params) = Ok data" "json_wf params" "no_float params" "length data < BUFFER_SIZE"
    and "map_of hs method = None"
  shows "\<exists>msg. dump (error_json ''unknown method'') = Ok msg \<and> handleClient hs data s = (Ok (Some msg), s)"
proof -
  have "case dump (error_json ''unknown method'') of Ok d \<Rightarrow> True | _ \<Rightarrow> False" by code_simp
  then obtain msg where t: "dump (error_json ''unknown method'') = Ok msg" by (auto split: outcome.splits)
  moreover have "data \<noteq> []" using dump_nonempty [OF assms(1)] packet_fine [OF assms(2,3)] by simp
  moreover have "handle_request hs data s = (Ok msg, s)"
    using handle_packet [OF assms(1-4), of hs s] assms(5) t by (simp add: lift_def ret_def)
  ultimately show ?thesis by (simp add: handleClient_def)
qed

section \<open>Requests that are no packet\<close>

text \<open>A first byte that starts no JSON token: the error names the byte it has read.\<close>

definition bad_first_message :: "char \<Rightarrow> string" where
  "bad_first_message c =
     ''[json.exception.parse_error.101] parse error at line 1, column 1: syntax error while parsing value - '' @
     ''invalid literal; last read: '' @ [CHR 0x27] @ escape_control c @ [CHR 0x27]"

lemma scan_bad_first:
  assumes "\<not> json_space c" "\<not> starts_token c" "c \<noteq> CHR 0xEF"
  shows "\<exists>lx. scan (lexer_new (c # rest)) = (ParseError, lex_error ''invalid literal'' lx) \<and> token_string lx = [c] \<and>
    position lx = \<lparr>chars_read_total = 1, chars_read_current_line = 1, lines_read = 0\<rparr>"
proof -
  let ?lx = "lexer_new (c # rest)"
  define lx where "lx = lex_get (lex_unget (lex_get ?lx))"
  have nl: "c \<noteq> CHR 0x0A" using assms(1) by (auto simp: json_space_iff)
  have lx: "current lx = Some c" "token_string lx = [c]"
      "position lx = \<lparr>chars_read_total = 1, chars_read_current_line = 1, lines_read = 0\<rparr>"
    using nl by (simp_all add: lx_def lex_get_def lex_read_def lex_unget_def lexer_new_def count_char_def uncount_char_def Let_def)
  have "skip_bom ?lx = (True, lex_unget (lex_get ?lx))" "chars_read_total (position ?lx) = 0"
    using assms(3) by (simp_all add: skip_bom_def Let_def lex_get_def lex_read_def lexer_new_def)
  moreover have "skip_whitespace (lex_unget (lex_get ?lx)) = lx"
    using assms(1) lx(1) by (subst skip_whitespace.simps) (simp add: lx_def json_space_def)
  moreover have "scan_token lx = (ParseError, lex_error ''invalid literal'' lx)"
    using assms(2) lx(1) by (auto simp: scan_token_def starts_token_def byte_of_eq_0)
  ultimately show ?thesis using lx(2,3) by (intro exI [of _ lx]) (simp add: scan_def)
qed

lemma parse_bad_first:
  assumes "\<not> json_space c" "\<not> starts_token c" "c \<noteq> CHR 0xEF"
  shows "json_parse (c # rest) = Throw (JsonException 101 (bad_first_message c))"
proof -
  obtain lx where lx: "scan (lexer_new (c # rest)) = (ParseError, lex_error ''invalid literal'' lx)" "token_string lx = [c]"
      "position lx = \<lparr>chars_read_total = 1, chars_read_current_line = 1, lines_read = 0\<rparr>"
    using scan_bad_first [OF assms] by blast
  let ?p = "parser_new (c # rest)"
  have p: "last_token ?p = ParseError" "m_lexer ?p = lex_error ''invalid literal'' lx"
    using lx(1) by (simp_all add: parser_new_def get_token_def)
  have n: "nat_digits 101 = ''101''" "nat_digits (Suc 0) = ''1''" by code_simp+
  have "syntax_error ?p TUninitialized ''value'' = JsonException 101 (bad_first_message c)"
    using p lx(2,3) by (simp add: syntax_error_def parse_error_create_def exception_message_def exception_name_def
        position_string_def get_token_string_def lex_error_def bad_first_message_def n)
  moreover have "fst (sax_parse ?p []) = Throw (syntax_error ?p TUninitialized ''value'')"
    using sax_parse_error p(1) by blast
  ultimately show ?thesis by (cases "sax_parse ?p []") (simp add: json_parse_def)
qed

lemma dump_prefix_throws:
  "list_all (\<lambda>c. byte_of c < 128) xs \<Longrightarrow> (\<And>i cp l. \<exists>w. dump_escaped_loop a ys i 0 cp l = Throw (JsonException 316 w)) \<Longrightarrow>
   \<exists>w. dump_escaped_loop a (xs @ ys) i 0 cp l = Throw (JsonException 316 w)"
proof (induction xs arbitrary: i cp l)
  case (Cons x xs)
  have "utf8_next 0 (byte_of x) = 0" using start_okD [of x] Cons.prems(1) by (simp add: start_ok_def Let_def)
  moreover obtain w where "dump_escaped_loop a (xs @ ys) (Suc i) 0 (utf8_codepoint 0 cp (byte_of x)) (byte_of x) =
      Throw (JsonException 316 w)" using Cons.IH [OF _ Cons.prems(2)] Cons.prems(1) by fastforce
  ultimately show ?case by (simp add: Let_def)
qed simp

lemma dump_bad_byte:
  assumes "128 \<le> byte_of c" "byte_of d < 128"
  shows "\<exists>w. dump_escaped_loop a (c # d # ys) i 0 cp l = Throw (JsonException 316 w)"
proof (cases "utf8_next 0 (byte_of c) = 1")
  case True
  then show ?thesis by (simp add: Let_def type_error_def)
next
  case False
  let ?st = "utf8_next 0 (byte_of c)"
  have st: "?st \<noteq> 0" "?st < 9" using start_okD [of c] assms(1) by (auto simp: start_ok_def Let_def)
  have "utf8_class (byte_of d) = 0" using start_okD [of d] assms(2) by (simp add: start_ok_def Let_def)
  then have "utf8_next ?st (byte_of d) = 1"
    using utf8_states [OF st(2,1) False] by (elim disjE) (simp_all add: utf8_next_rows)
  then show ?thesis using st False by (simp add: Let_def type_error_def)
qed

lemma dump_bad_first:
  assumes "128 \<le> byte_of c"
  shows "\<exists>w. dump (error_json (''parse_error: '' @ bad_first_message c)) = Throw (JsonException 316 w)"
proof -
  let ?pre = "''parse_error: [json.exception.parse_error.101] parse error at line 1, column 1: syntax error while parsing value - '' @
    ''invalid literal; last read: '' @ [CHR 0x27]"
  have "escape_control c = [c]" using assms by (simp add: escape_control_def)
  then have m: "''parse_error: '' @ bad_first_message c = ?pre @ [c, CHR 0x27]"
    by (simp add: bad_first_message_def)
  have pre: "list_all (\<lambda>c. byte_of c < 128) ?pre" by code_simp
  have "byte_of CHR 0x27 < 128" by (simp add: byte_of_def)
  from dump_prefix_throws [OF pre dump_bad_byte [OF assms this], of False "[]" 0 0 0]
  obtain w where "dump_escaped False (''parse_error: '' @ bad_first_message c) = Throw (JsonException 316 w)"
    unfolding m dump_escaped_def by blast
  moreover have "dump_escaped False ''error'' = Ok ''error''" by (rule dump_escaped_plain) code_simp
  ultimately show ?thesis by (simp add: error_json_def json_object_def dump_def)
qed

lemma bad_byte_crash:
  assumes "128 \<le> byte_of c" "c \<noteq> CHR 0xEF"
  shows "\<exists>w. handleClient hs (c # rest) s = (Throw (JsonException 316 w), s)"
proof -
  have c: "\<not> json_space c" "\<not> starts_token c"
    using assms(1) by (auto simp: json_space_iff starts_token_def quote_def byte_of_def is_digit_def)
  obtain rest' where buf: "rpc_buffer (c # rest) = c # rest'"
    by (simp add: rpc_buffer_def BUFFER_SIZE_def Let_def)
  have "handle_request hs (c # rest) s = (Throw (JsonException 101 (bad_first_message c)), s)"
    using parse_bad_first [OF c assms(2), of rest'] buf by (simp add: handle_request_def lift_def)
  then show ?thesis using dump_bad_first [OF assms(1)] by (auto simp: handleClient_def simp del: dump_escaped_loop.simps)
qed

text \<open>C30: a request whose first byte is not ASCII (nor that of a byte order mark) ends the server's
  process: the message of the parse error quotes the byte, and printing it inside the handler of
  that error throws again, out of the detached thread.\<close>

theorem server_crash:
  assumes "128 \<le> byte_of c" "c \<noteq> CHR 0xEF"
  shows "\<exists>w. handleClient hs (c # rest) s = (Throw (JsonException 316 w), s)"
  using assms by (rule bad_byte_crash)

theorem server_crash_witness: "\<exists>w. handleClient (raft_methods calm_env) [CHR 0xFF] example_node = (Throw (JsonException 316 w), example_node)"
  by (rule server_crash) (simp_all add: byte_of_def)

end
