(* ===== verification/Discovery.thy ===== *)
theory Discovery imports Raft_Handlers begin

text \<open>
  The discovery service of the leader (\<open>runDiscoveryService\<close> in \<open>server/raft_node.cpp\<close>): it
  accepts worker connections, reads one message from each, and turns a heartbeat into a command
  for the replicated log.
\<close>

section \<open>Messages\<close>

text \<open>\<open>std::string(buffer)\<close> of a cleared buffer filled by one \<open>read\<close>: up to the first zero byte.\<close>

definition c_string :: "nat \<Rightarrow> string \<Rightarrow> string" where
  "c_string room received = takeWhile (\<lambda>c. c \<noteq> CHR 0x00) (take (room - 1) received)"

definition trailing_blank :: "char \<Rightarrow> bool" where
  "trailing_blank c \<longleftrightarrow> c \<in> {CHR '' '', CHR 0x0A, CHR 0x0D, CHR 0x09}"

text \<open>\<open>workerId.erase(workerId.find_last_not_of(blanks) + 1)\<close>\<close>

definition strip_right :: "string \<Rightarrow> string" where
  "strip_right s = rev (dropWhile trailing_blank (rev s))"

text \<open>\<open>s.find(t) == 0\<close>\<close>

definition starts_with :: "string \<Rightarrow> string \<Rightarrow> bool" where
  "starts_with t s \<longleftrightarrow> take (length t) s = t"

text \<open>The worker id of a heartbeat message; \<open>None\<close> where the code does not answer.\<close>

definition worker_id :: "string \<Rightarrow> string option" where
  "worker_id msg =
     (if starts_with ''HEARTBEAT'' msg \<and> CHR '' '' \<in> set msg
      then Some (strip_right (tl (dropWhile (\<lambda>c. c \<noteq> CHR '' '') msg)))
      else None)"

definition heartbeat_command :: "int \<Rightarrow> string \<Rightarrow> json" where
  "heartbeat_command now i =
     json_object [(''action'', JString ''HEARTBEAT''), (''node_id'', JString i), (''timestamp'', JInteger now)]"

text \<open>
  The thread that handles a connection: the text sent back, if any. The role is read without
  the mutex, so other threads may act before the command is submitted. Nothing catches an
  exception here: \<open>Throw\<close> ends the process.
\<close>

definition handle_worker :: "env \<Rightarrow> int \<Rightarrow> string \<Rightarrow> (raft_node, string option) action" where
  "handle_worker env now received n =
     (case (if received = [] then None else worker_id (c_string 1024 received)) of
        None \<Rightarrow> (Ok None, n)
      | Some workerId \<Rightarrow>
          if role n \<noteq> LEADER then (Ok (Some (''NOT_LEADER'' @ [CHR 0x0A])), n)
          else abind (lift (dump (heartbeat_command now workerId))) (\<lambda>text.
               abind (submitCommand env text) (\<lambda>success.
               ret (Some ((if success then ''ACK'' else ''ERROR'') @ [CHR 0x0A])))) (others env 0 n))"

section \<open>The accept loop\<close>

text \<open>
  One iteration sees the flag when it tests its condition, what \<open>accept\<close> returns, and then the
  flag and the socket again. The result: the accepted connections, and whether the loop ended.
\<close>

record accept_round =
  running_before :: bool
  accepted :: "int option"
  running_after :: bool
  socket_after :: int

fun runDiscoveryService :: "int \<Rightarrow> accept_round list \<Rightarrow> int list \<times> bool" where
  "runDiscoveryService serverSocket [] = ([], False)"
| "runDiscoveryService serverSocket (r # rs) =
     (if \<not> (running_before r \<and> serverSocket \<ge> 0) then ([], True)
      else case accepted r of
             Some fd \<Rightarrow> (let (fds, ended) = runDiscoveryService serverSocket rs in (fd # fds, ended))
           | None \<Rightarrow> if \<not> running_after r \<or> socket_after r = -1 then ([], True)
                     else runDiscoveryService serverSocket rs)"

end
