(* ===== verification/Worker.thy ===== *)
theory Worker imports Discovery begin

text \<open>
  The worker process (\<open>worker/main.cpp\<close>): it sends a heartbeat to the discovery port, reads the
  answer, and sleeps, longer after failures.
\<close>

record worker =
  failureCount :: int
  wasConnected :: bool

definition worker_new :: worker where
  "worker_new = \<lparr>failureCount = 0, wasConnected = False\<rparr>"

text \<open>What the socket calls of one round come to.\<close>

datatype attempt = NoSocket | NoConnection | NotSent | NoResponse | Response string

definition heartbeat_message :: "string \<Rightarrow> string" where
  "heartbeat_message i = ''HEARTBEAT '' @ i @ [CHR 0x0A]"

text \<open>\<open>s.find(t) != npos\<close>\<close>

fun contains_text :: "string \<Rightarrow> string \<Rightarrow> bool" where
  "contains_text t [] = (t = [])"
| "contains_text t (c # cs) = (starts_with t (c # cs) \<or> contains_text t cs)"

definition worker_failed :: "worker \<Rightarrow> worker" where
  "worker_failed w = w\<lparr>failureCount := failureCount w + 1, wasConnected := False\<rparr>"

text \<open>One round of the loop of \<open>sendHeartbeat\<close>: the state afterwards and the seconds it sleeps.\<close>

definition worker_reply :: "string \<Rightarrow> worker \<Rightarrow> worker" where
  "worker_reply received w =
     (let response = c_string 256 received
      in if contains_text ''ACK'' response then w\<lparr>failureCount := 0, wasConnected := True\<rparr>
         else if contains_text ''NOT_LEADER'' response then worker_failed w
         else w)"

definition backoff :: "worker \<Rightarrow> int" where
  "backoff w = min (5 + failureCount w * 2) 30"

definition sendHeartbeat :: "attempt \<Rightarrow> worker \<Rightarrow> worker \<times> int" where
  "sendHeartbeat a w =
     (case a of
        NoSocket \<Rightarrow> (w, 5)
      | NoConnection \<Rightarrow> (worker_failed w, backoff (worker_failed w))
      | NotSent \<Rightarrow> (w, backoff w)
      | NoResponse \<Rightarrow> (worker_failed w, backoff (worker_failed w))
      | Response r \<Rightarrow> (worker_reply r w, backoff (worker_reply r w)))"

section \<open>The process\<close>

text \<open>\<open>main\<close>: without an id the usage message and exit code 1; else the log file it opens and what it
  prints before the thread of \<open>sendHeartbeat\<close> runs with that id. The main thread then only sleeps.\<close>

definition LEADER_PORT :: int where
  "LEADER_PORT = 6000"

datatype worker_run = Usage string | Running string string string   \<comment> \<open>id, log file, console\<close>

definition worker_main :: "string list \<Rightarrow> worker_run" where
  "worker_main argv =
     (if length argv < 2 then Usage (''Usage: ./worker_bin <workerID> '' @ [CHR 0x0A])
      else let nodeId = argv ! 1
           in Running nodeId (nodeId @ ''.log'')
                (''[STARTUP] Worker '' @ nodeId @ '' starting'' @ [CHR 0x0A] @
                 ''[READY] Sending heartbeats to discovery port '' @ dump_integer LEADER_PORT @ ''. Check '' @
                 nodeId @ ''.log for details.'' @ [CHR 0x0A]))"

end
