(* ===== verification/Manager.thy ===== *)
theory Manager imports Raft_Handlers begin

text \<open>
  The manager process (\<open>server/main.cpp\<close>): its command line and the report of the workers it
  writes every five seconds.
\<close>

section \<open>Command line\<close>

text \<open>The loop that splits the third argument at commas; the rest is kept unless it is empty.\<close>

function split_peers :: "string \<Rightarrow> string list" where
  "split_peers peerStr =
     (if CHR '','' \<in> set peerStr
      then takeWhile (\<lambda>c. c \<noteq> CHR '','') peerStr # split_peers (tl (dropWhile (\<lambda>c. c \<noteq> CHR '','') peerStr))
      else if peerStr = [] then [] else [peerStr])"
  by pat_completeness auto
termination
proof (relation "measure length")
  fix s :: string
  assume "CHR '','' \<in> set s"
  then have "dropWhile (\<lambda>c. c \<noteq> CHR '','') s \<noteq> []" by auto
  then show "(tl (dropWhile (\<lambda>c. c \<noteq> CHR '','') s), s) \<in> measure length"
    using length_dropWhile_le [of "\<lambda>c. c \<noteq> CHR '',''" s] by (cases "dropWhile (\<lambda>c. c \<noteq> CHR '','') s") auto
qed simp

declare split_peers.simps [simp del]

text \<open>
  \<open>main\<close> up to the start of the node: \<open>None\<close> is the usage message, an exception of \<open>stoi\<close> is not
  caught. The argument list includes the program's name.
\<close>

definition manager_main :: "string list \<Rightarrow> raft_node option outcome" where
  "manager_main argv =
     (if length argv < 3 then Ok None
      else omap (\<lambda>port. Some (raft_node_new (argv ! 1) port (if length argv \<ge> 4 then split_peers (argv ! 3) else [])))
             (stoi (argv ! 2)))"

text \<open>The text on the console around the start of the node.\<close>

definition manager_usage :: string where
  "manager_usage =
     ''Usage: ./manager <node_id> <raft_port> [peer1:port1,peer2:port2,...]'' @ [CHR 0x0A] @
     ''Example: ./manager node1 5001 node2:5002,node3:5003'' @ [CHR 0x0A]"

definition manager_console :: "raft_node \<Rightarrow> string" where
  "manager_console n =
     ''[STARTUP] Manager '' @ nodeId n @ '' starting on port '' @ dump_integer (rpcPort n) @ [CHR 0x0A] @
     (if peerAddrs n = [] then []
      else ''[STARTUP] Peers configured: '' @ dump_integer (len (peerAddrs n)) @ '' nodes'' @ [CHR 0x0A]) @
     ''[READY] Monitoring system running. Check '' @ nodeId n @ ''.log for details.'' @ [CHR 0x0A]"

text \<open>The whole of \<open>main\<close>: exit with the usage message, or the running node and the console.\<close>

definition manager_process :: "env \<Rightarrow> string list \<Rightarrow> (raft_node option \<times> string) outcome" where
  "manager_process env argv =
     omap (\<lambda>m. case m of
        None \<Rightarrow> (None, manager_usage)
      | Some n \<Rightarrow> (Some (raft_start env n), manager_console n)) (manager_main argv)"

section \<open>The report\<close>

definition TIMEOUT_SECONDS :: int where
  "TIMEOUT_SECONDS = 10"

definition isOnline :: "int \<Rightarrow> int \<Rightarrow> string \<Rightarrow> bool" where
  "isOnline now lastSeen st \<longleftrightarrow> now - lastSeen \<le> TIMEOUT_SECONDS \<and> st = ''active''"

definition nl :: string where
  "nl = [CHR 0x0A]"

definition quoted :: "string \<Rightarrow> string" where
  "quoted s = [quote] @ s @ [quote]"

definition report_worker :: "int \<Rightarrow> string \<Rightarrow> int \<Rightarrow> string \<Rightarrow> string" where
  "report_worker now i lastSeen st =
     ''    {'' @ nl @
     ''      '' @ quoted ''id'' @ '': '' @ quoted i @ '','' @ nl @
     ''      '' @ quoted ''online'' @ '': '' @ (if isOnline now lastSeen st then ''true'' else ''false'') @ '','' @ nl @
     ''      '' @ quoted ''last_seen_seconds_ago'' @ '': '' @ dump_integer (now - lastSeen) @ '','' @ nl @
     ''      '' @ quoted ''status'' @ '': '' @ quoted st @ nl @
     ''    }''"

text \<open>The loop over the members; one without the two fields is skipped.\<close>

fun report_loop :: "int \<Rightarrow> bool \<Rightarrow> entries \<Rightarrow> string outcome" where
  "report_loop now fst_one [] = Ok []"
| "report_loop now fst_one ((i, nodeState) # kvs) =
     (if \<not> json_contains nodeState ''last_seen'' \<or> \<not> json_contains nodeState ''status''
      then report_loop now fst_one kvs
      else obind (obind (json_at nodeState ''last_seen'') get_time) (\<lambda>lastSeen.
           obind (string_at nodeState ''status'') (\<lambda>st.
           omap (\<lambda>more. (if fst_one then [] else '','' @ nl) @ report_worker now i lastSeen st @ more)
             (report_loop now False kvs))))"

definition json_members_list :: "json \<Rightarrow> entries" where
  "json_members_list j = (case j of JObject kvs \<Rightarrow> kvs | _ \<Rightarrow> [])"

definition generateWorkerStatusReport :: "int \<Rightarrow> json \<Rightarrow> string outcome" where
  "generateWorkerStatusReport now allNodes =
     omap (\<lambda>body. ''{'' @ nl @ ''  '' @ quoted ''workers'' @ '': ['' @ nl @ body @ nl @ ''  ]'' @ nl @ ''}'' @ nl)
       (report_loop now True (json_members_list allNodes))"

end
