(* ===== verification/Services.thy ===== *)
theory Services imports Remote Worker Manager Raft_Effects begin

text \<open>
  The way of a worker through the system: its heartbeat message to the discovery service of the
  leader, the command that this puts into the log, the table that the command changes when it is
  applied, and the report that the manager writes of the table.
\<close>

section \<open>Messages of the workers\<close>

text \<open>An id that survives the discovery service's treatment of the message.\<close>

definition clean_id :: "string \<Rightarrow> bool" where
  "clean_id i \<longleftrightarrow> CHR 0x00 \<notin> set i \<and> (i = [] \<or> \<not> trailing_blank (last i)) \<and> length i \<le> 1012"

lemma strip_right_clean: "i = [] \<or> \<not> trailing_blank (last i) \<Longrightarrow> strip_right (i @ [CHR 0x0A]) = i"
  by (cases i rule: rev_cases) (auto simp: strip_right_def trailing_blank_def)

lemma message_c_string: "clean_id i \<Longrightarrow> c_string 1024 (heartbeat_message i) = heartbeat_message i"
  by (auto simp: clean_id_def c_string_def heartbeat_message_def takeWhile_eq_all_conv)

lemma message_id: "clean_id i \<Longrightarrow> worker_id (c_string 1024 (heartbeat_message i)) = Some i"
  using strip_right_clean [of i]
  by (simp add: message_c_string) (simp add: worker_id_def heartbeat_message_def starts_with_def clean_id_def)

lemma handle_worker_message:
  assumes "clean_id i"
  shows "handle_worker env now (heartbeat_message i) n =
    (if role n \<noteq> LEADER then (Ok (Some (''NOT_LEADER'' @ [CHR 0x0A])), n)
     else abind (lift (dump (heartbeat_command now i))) (\<lambda>text.
          abind (submitCommand env text) (\<lambda>success.
          ret (Some ((if success then ''ACK'' else ''ERROR'') @ [CHR 0x0A])))) (others env 0 n))"
proof -
  have "heartbeat_message i \<noteq> []" by (simp add: heartbeat_message_def)
  then show ?thesis
    using message_id [OF assms] unfolding handle_worker_def by simp
qed

section \<open>The command in the log\<close>

lemma command_shape:
  "heartbeat_command now i = JObject [(''action'', JString ''HEARTBEAT''), (''node_id'', JString i), (''timestamp'', JInteger now)]"
  by (simp add: heartbeat_command_def json_object_def)

lemma command_dumped:
  assumes "dump_escaped False i = Ok k"
  shows "\<exists>cmd. dump (heartbeat_command now i) = Ok cmd"
proof -
  have "dump_escaped False ''action'' = Ok ''action''" "dump_escaped False ''HEARTBEAT'' = Ok ''HEARTBEAT''"
    "dump_escaped False ''node_id'' = Ok ''node_id''" "dump_escaped False ''timestamp'' = Ok ''timestamp''"
    by (rule dump_escaped_plain, code_simp)+
  then show ?thesis using assms by (simp add: command_shape dump_def)
qed

lemma command_throws:
  assumes "dump_escaped False i = Throw e"
  shows "dump (heartbeat_command now i) = Throw e"
proof -
  have "dump_escaped False ''action'' = Ok ''action''" "dump_escaped False ''HEARTBEAT'' = Ok ''HEARTBEAT''"
    "dump_escaped False ''node_id'' = Ok ''node_id''"
    by (rule dump_escaped_plain, code_simp)+
  then show ?thesis using assms by (simp add: command_shape dump_def)
qed

lemma command_applied:
  assumes "dump (heartbeat_command now i) = Ok cmd" "is_int64 now"
  shows "sm_apply later cmd nodes = handleHeartbeat later i nodes"
proof -
  have "json_wf (heartbeat_command now i)" "no_float (heartbeat_command now i)"
    using assms(2) by (simp_all add: command_shape obj_sorted_def)
  then have "json_parse cmd = Ok (json_norm (heartbeat_command now i))"
    using parse_dumped [OF assms(1), of "[]"] by simp
  then show ?thesis
    by (simp add: sm_apply_json apply_json_def apply_action_def command_shape string_at_def lift_def
        handleHeartbeat_def Let_def)
qed

lemma submit_leader:
  assumes "node_inv n" "role n = LEADER" "peerAddrs n \<noteq> []"
  shows "\<exists>n'. submitCommand env c n = (Ok True, n') \<and> log n' = log n @ [\<lparr>eterm = currentTerm n, command = c\<rparr>]"
proof -
  let ?n = "n\<lparr>log := log n @ [\<lparr>eterm = currentTerm n, command = c\<rparr>]\<rparr>"
  have ok: "node_ok ?n" "\<forall>p \<in> set (peerAddrs n). peer_ok p"
    using assms(1) by (simp_all add: node_inv_def node_ok_def)
  obtain m ts where "append_loop ReplicateInternalTask (peerAddrs n) ?n = (Ok (), ?n\<lparr>nextIndex := m, rpcPool := ts\<rparr>)"
    using ok_append_loop [OF ok, of ReplicateInternalTask] by blast
  then show ?thesis
    using assms(2,3) by (simp add: submitCommand_def modify_def replicateLogInternal_def ret_def)
qed

section \<open>The report\<close>

lemma toJson_members:
  "json_contains (toJson st) ''last_seen''" "json_contains (toJson st) ''status''"
  "json_at (toJson st) ''last_seen'' = Ok (JInteger (last_seen st))"
  "json_at (toJson st) ''status'' = Ok (JString (status st))"
  by (simp_all add: toJson_def json_object_def)

definition report_block :: "int \<Rightarrow> string \<Rightarrow> node_state \<Rightarrow> string" where
  "report_block now i st = report_worker now i (last_seen st) (status st)"

lemma report_loop_blocks:
  assumes "\<forall>kv \<in> set kvs. \<exists>st. snd kv = toJson st \<and> f (fst kv) = st \<and> is_int64 (last_seen st)"
  shows "report_loop now b kvs =
    Ok ((if b \<or> kvs = [] then [] else '','' @ nl) @ join ('','' @ nl) (map (\<lambda>kv. report_block now (fst kv) (f (fst kv))) kvs))"
  using assms
proof (induction kvs arbitrary: b)
  case (Cons kv kvs)
  obtain i where kv: "kv = (i, toJson (f i))" and int: "is_int64 (last_seen (f i))"
    using Cons.prems by (cases kv) auto
  have IH: "report_loop now False kvs = Ok ((if kvs = [] then [] else '','' @ nl) @
      join ('','' @ nl) (map (\<lambda>kv. report_block now (fst kv) (f (fst kv))) kvs))"
    using Cons by simp
  show ?case
    using IH by (cases kvs) (simp_all add: kv int toJson_members string_at_def report_block_def)
qed simp

lemma report_of_table:
  assumes "wf_alist nodes" "\<forall>st \<in> snd ` set nodes. is_int64 (last_seen st)"
  shows "\<exists>ids. sorted_wrt (<) ids \<and> set ids = fst ` set nodes \<and>
    generateWorkerStatusReport now (getAll nodes) =
      Ok (''{'' @ nl @ ''  '' @ quoted ''workers'' @ '': ['' @ nl @
          join ('','' @ nl) (map (\<lambda>i. report_block now i (node_ref nodes i)) ids) @ nl @ ''  ]'' @ nl @ ''}'' @ nl)"
proof -
  define kvs where "kvs = fold (\<lambda>p. obj_assign (fst p) (toJson (snd p))) nodes []"
  have all: "getAll nodes = JObject kvs" by (simp add: getAll_def kvs_def)
  have sorted: "obj_sorted kvs"
    using json_members.inv_assign_all [of "[]" fst "toJson \<circ> snd" nodes] by (simp add: kvs_def)
  have lookup: "map_of kvs n = map_option toJson (map_of nodes n)" for n
    using json_members.lookup_assign_all [of "[]" nodes toJson n] assms(1)
    by (simp add: wf_alist_def kvs_def split: option.splits)
  have ids: "set (map fst kvs) = fst ` set nodes"
    using lookup by (metis (no_types, lifting) dom_map_of_conv_image_fst domIff list.set_map option.map_disc_iff subsetI subset_antisym)
  have "\<exists>st. snd kv = toJson st \<and> node_ref nodes (fst kv) = st \<and> is_int64 (last_seen st)" if "kv \<in> set kvs" for kv
  proof -
    have "map_of kvs (fst kv) = Some (snd kv)"
      using that obj_sorted_distinct [OF sorted] by (metis map_of_is_SomeI prod.collapse)
    then obtain st where st: "map_of nodes (fst kv) = Some st" "snd kv = toJson st" using lookup by auto
    then have "st \<in> snd ` set nodes" by (metis image_eqI map_of_SomeD snd_conv)
    then have "is_int64 (last_seen st)" using assms(2) by blast
    then show ?thesis using st by (simp add: node_ref_map_of)
  qed
  then have "report_loop now True kvs =
      Ok (join ('','' @ nl) (map (\<lambda>i. report_block now i (node_ref nodes i)) (map fst kvs)))"
    using report_loop_blocks [of kvs "node_ref nodes" now True] by (simp add: comp_def)
  then show ?thesis
    using sorted ids by (intro exI [of _ "map fst kvs"]) (simp add: generateWorkerStatusReport_def json_members_list_def all obj_sorted_def)
qed

section \<open>The worker's loop\<close>

text \<open>A worker after some rounds.\<close>

definition rounds :: "attempt list \<Rightarrow> worker" where
  "rounds as = fold (\<lambda>a w. fst (sendHeartbeat a w)) as worker_new"

lemma failures_nonneg: "0 \<le> failureCount w \<Longrightarrow> 0 \<le> failureCount (fst (sendHeartbeat a w))"
  by (auto simp: sendHeartbeat_def worker_failed_def worker_reply_def Let_def split: attempt.split)

lemma rounds_nonneg: "0 \<le> failureCount (rounds as)"
proof -
  have "0 \<le> failureCount w \<Longrightarrow> 0 \<le> failureCount (fold (\<lambda>a w. fst (sendHeartbeat a w)) as w)" for w
    by (induction as arbitrary: w) (simp_all add: failures_nonneg)
  then show ?thesis by (simp add: rounds_def worker_new_def)
qed

lemma backoff_range: "0 \<le> failureCount w \<Longrightarrow> 5 \<le> backoff w \<and> backoff w \<le> 30"
  by (simp add: backoff_def)

lemma failing_rounds: "failureCount (fold (\<lambda>a w. fst (sendHeartbeat a w)) (replicate k NoConnection) w) = failureCount w + int k"
  by (induction k arbitrary: w) (simp_all add: sendHeartbeat_def worker_failed_def)

section \<open>Command line\<close>

lemma split_peers_last: "CHR '','' \<notin> set p \<Longrightarrow> split_peers p = (if p = [] then [] else [p])"
  by (simp add: split_peers.simps)

lemma split_peers_comma: "CHR '','' \<notin> set p \<Longrightarrow> split_peers (p @ CHR '','' # s) = p # split_peers s"
proof -
  assume p: "CHR '','' \<notin> set p"
  then have "takeWhile (\<lambda>c. c \<noteq> CHR '','') (p @ CHR '','' # s) = p" "dropWhile (\<lambda>c. c \<noteq> CHR '','') (p @ CHR '','' # s) = CHR '','' # s"
    by (induction p) auto
  then show ?thesis by (subst split_peers.simps) simp
qed

lemma split_join:
  "\<forall>p \<in> set ps. CHR '','' \<notin> set p \<Longrightarrow> ps = [] \<or> last ps \<noteq> [] \<Longrightarrow> split_peers (join '','' ps) = ps"
proof (induction ps rule: induct_list012)
  case (3 p q ps)
  then show ?case using split_peers_comma [of p "join '','' (q # ps)"] by simp
qed (simp_all add: split_peers_last)

section \<open>Properties\<close>


text \<open>A leader of a cluster, with its timers as an election leaves them.\<close>

definition serving_leader :: raft_node where
  "serving_leader = example_leader\<lparr>heartbeatTimer := timer_start 1000 timer_new\<rparr>"

lemma serving_leader_inv: "node_inv serving_leader"
proof -
  have "peer_ok ''n1:5001''" "peer_ok ''n3:5003''" by code_simp+
  moreover have "timer_wf (timer_start 1000 timer_new)" "pending (timer_start 1000 timer_new)" by simp_all
  ultimately show ?thesis
    by (simp add: node_inv_def node_ok_def timers_ok_def serving_leader_def example_leader_def raft_node_new_def wf_alist_def)
qed


text \<open>C32: a worker id that is not UTF-8 ends the leader's process: the command cannot be printed,
  and nothing catches the exception in the thread of the connection.\<close>

theorem discovery_crash:
  assumes "calm env" "role n = LEADER" "clean_id i" "dump_escaped False i = Throw e"
  shows "handle_worker env now (heartbeat_message i) n = (Throw e, n)"
  using handle_worker_message [OF assms(3)] assms(1,2) command_throws [OF assms(4)]
  by (simp add: calm_def lift_def)

theorem discovery_crash_witness:
  "\<exists>w. handle_worker calm_env 90 (heartbeat_message [CHR ''w'', CHR 0xFF]) serving_leader = (Throw (JsonException 316 w), serving_leader)"
proof -
  have "dump_escaped False [CHR ''w'', CHR 0xFF] =
      Throw (type_error 316 (''invalid UTF-8 byte at index 1: 0xFF''))" by code_simp
  moreover have "clean_id [CHR ''w'', CHR 0xFF]" "role serving_leader = LEADER" by code_simp+
  moreover have "calm calm_env" by (simp add: calm_def)
  ultimately have "handle_worker calm_env 90 (heartbeat_message [CHR ''w'', CHR 0xFF]) serving_leader =
      (Throw (type_error 316 (''invalid UTF-8 byte at index 1: 0xFF'')), serving_leader)"
    using discovery_crash by blast
  then show ?thesis unfolding type_error_def by blast
qed

text \<open>C37: the message of a worker and the discovery service's reading of it round trip, for an id
  without zero bytes or trailing blanks that fits the buffer.\<close>

theorem message_roundtrip:
  assumes "CHR 0x00 \<notin> set i" "i = [] \<or> \<not> trailing_blank (last i)" "length i \<le> 1012"
  shows "worker_id (c_string 1024 (heartbeat_message i)) = Some i"
  using message_id assms by (simp add: clean_id_def)

theorem message_roundtrip_witness: "worker_id (c_string 1024 (heartbeat_message ''rack 3/w1'')) = Some ''rack 3/w1''"
  by (rule message_roundtrip) (simp_all add: trailing_blank_def)

text \<open>C38: after any rounds the worker sleeps between 5 and 30 seconds; when its rounds begin to fail
  after an acknowledgement, the (k+1)st failure in a row makes it sleep \<open>5 + 2 (k + 1)\<close> seconds,
  but never more than 30.\<close>

theorem worker_backoff:
  "5 \<le> snd (sendHeartbeat a (rounds as)) \<and> snd (sendHeartbeat a (rounds as)) \<le> 30 \<and>
   snd (sendHeartbeat NoConnection (rounds (as @ Response ''ACK'' # replicate k NoConnection))) =
     min (5 + 2 * (int k + 1)) 30"
proof
  have "0 \<le> failureCount (rounds as)" by (rule rounds_nonneg)
  then show "5 \<le> snd (sendHeartbeat a (rounds as))"
    using backoff_range failures_nonneg [of "rounds as" a] by (cases a) (simp_all add: sendHeartbeat_def)
next
  have "0 \<le> failureCount (rounds as)" by (rule rounds_nonneg)
  then have 1: "snd (sendHeartbeat a (rounds as)) \<le> 30"
    using backoff_range failures_nonneg [of "rounds as" a] by (cases a) (simp_all add: sendHeartbeat_def)
  have "failureCount (rounds (as @ Response ''ACK'' # replicate k NoConnection)) = int k"
    using failing_rounds [of k "fst (sendHeartbeat (Response ''ACK'') (rounds as))"]
    by (simp add: rounds_def) (simp add: sendHeartbeat_def worker_reply_def c_string_def starts_with_def)
  then show "snd (sendHeartbeat a (rounds as)) \<le> 30 \<and>
      snd (sendHeartbeat NoConnection (rounds (as @ Response ''ACK'' # replicate k NoConnection))) = min (5 + 2 * (int k + 1)) 30"
    using 1 by (simp add: sendHeartbeat_def backoff_def worker_failed_def algebra_simps)
qed



text \<open>Ids are written into the report as they are, so a worker can make it unreadable: with a
  quotation mark in its id the report is not JSON.\<close>

theorem report_unescaped:
  "\<exists>rep w. generateWorkerStatusReport 60 (getAll (snd (sm_apply 60 (''SET w'' @ [quote] @ '' active'') []))) = Ok rep \<and>
    json_parse rep = Throw (JsonException 101 w)"
proof -
  have "case generateWorkerStatusReport 60 (getAll (snd (sm_apply 60 (''SET w'' @ [quote] @ '' active'') []))) of
      Ok rep \<Rightarrow> (case json_parse rep of Throw (JsonException i w) \<Rightarrow> i = 101 | _ \<Rightarrow> False) | _ \<Rightarrow> False"
    by code_simp
  then show ?thesis by (auto split: outcome.splits exn.splits)
qed

end
