(* ===== verification/Serving.thy ===== *)
theory Serving imports Remote Raft_Invariant begin

text \<open>
  A node behind its server: whatever bytes arrive, from peers or from anyone else, the server hands
  the handlers values that parsing has produced, and the node stays in order.
\<close>

lemma raft_methods_cases:
  assumes "map_of (raft_methods env) m = Some h"
  shows "h = onAppendEntries env \<or> h = onRequestVote env"
  using assms by (auto simp: raft_methods_def registerMethod_def rpc_server_new_def split: if_splits)

lemma keeps_serve:
  assumes "inv_env env"
  shows "keeps (handleClient (raft_methods env) received)"
proof -
  have d: "keeps (case map_of (raft_methods env) m of Some h \<Rightarrow> h p | None \<Rightarrow> ret r)" for m p r
    using raft_methods_cases [of env m] keeps_onRequestVote [OF assms] keeps_onAppendEntries [OF assms]
    by (auto split: option.split)
  have "keeps (handle_request (raft_methods env) received)"
    unfolding handle_request_def by (auto intro!: keeps_abind d split: prod.split)
  then have k: "node_inv s' \<or> \<not> alive r" if "node_inv s" "handle_request (raft_methods env) received s = (r, s')" for s r s'
    using that by (force simp: keeps_def)
  show ?thesis
    unfolding keeps_def
  proof (intro allI impI)
    fix s
    assume s: "node_inv s" "alive (fst (handleClient (raft_methods env) received s))"
    obtain r s' where "handle_request (raft_methods env) received s = (r, s')" by force
    then show "node_inv (snd (handleClient (raft_methods env) received s))"
      using s k [OF s(1)] by (cases r) (auto simp: handleClient_def split: if_splits)
  qed
qed

lemma moves_serve:
  assumes "ballot_env env"
  shows "moves (handleClient (raft_methods env) received)"
proof -
  have d: "moves (case map_of (raft_methods env) m of Some h \<Rightarrow> h p | None \<Rightarrow> ret r)" for m p r
    using raft_methods_cases [of env m] moves_onRequestVote [OF assms] moves_onAppendEntries [OF assms]
    by (auto split: option.split)
  have "moves (handle_request (raft_methods env) received)"
    unfolding handle_request_def by (auto intro!: moves_abind d split: prod.split)
  then have k: "ballot_steps (ballot_of s) (ballot_of s')" if "handle_request (raft_methods env) received s = (r, s')" for s r s'
    using that movesD [OF \<open>moves (handle_request _ _)\<close>] by blast
  show ?thesis
    unfolding moves_def
  proof
    fix s
    obtain r s' where "handle_request (raft_methods env) received s = (r, s')" by force
    then show "ballot_steps (ballot_of s) (ballot_of (snd (handleClient (raft_methods env) received s)))"
      using k by (cases r) (auto simp: handleClient_def)
  qed
qed

text \<open>The connections of a server with the two methods of a node, each in its surroundings.\<close>

definition connections :: "(env \<times> string) list \<Rightarrow> raft_node connection option list" where
  "connections cs = map (\<lambda>(env, received). Some (raft_methods env, received)) cs"

lemma accept_keeps: "(\<And>env r. (env, r) \<in> set cs \<Longrightarrow> inv_env env) \<Longrightarrow> keeps (accept_loop (connections cs))"
proof (induction cs)
  case (Cons c cs)
  obtain env r where c: "c = (env, r)" by force
  have "keeps (handleClient (raft_methods env) r)" using Cons.prems c by (intro keeps_serve) auto
  moreover have "keeps (accept_loop (connections cs))" using Cons by auto
  ultimately show ?case
    unfolding c connections_def list.map prod.case accept_loop.simps by (intro keeps_abind keeps_simps)
qed (simp add: connections_def)

lemma accept_moves: "(\<And>env r. (env, r) \<in> set cs \<Longrightarrow> ballot_env env) \<Longrightarrow> moves (accept_loop (connections cs))"
proof (induction cs)
  case (Cons c cs)
  obtain env r where c: "c = (env, r)" by force
  have "moves (handleClient (raft_methods env) r)" using Cons.prems c by (intro moves_serve) auto
  moreover have "moves (accept_loop (connections cs))" using Cons by auto
  ultimately show ?case
    unfolding c connections_def list.map prod.case accept_loop.simps by (intro moves_abind moves_simps)
qed (simp add: connections_def)

text \<open>C18: whatever bytes the clients of a node's server send, in however many connections: as long as
  no assertion fails, the invariant of the node holds afterwards, and its ballot has only made moves
  of the abstract automaton, so its term has not gone back.\<close>

theorem served_node_inv:
  assumes "\<forall>(env, received) \<in> set cs. inv_env env \<and> ballot_env env"
    and "node_inv n" "accept_loop (connections cs) n = (out, n')" "alive out"
  shows "node_inv n' \<and> ballot_steps (ballot_of n) (ballot_of n') \<and> currentTerm n \<le> currentTerm n'"
proof -
  have "keeps (accept_loop (connections cs))" "moves (accept_loop (connections cs))"
    using assms(1) by (auto intro!: accept_keeps accept_moves)
  then have "node_inv n'" "ballot_steps (ballot_of n) (ballot_of n')"
    using assms(2-4) movesD by (auto simp: keeps_def)
  then show ?thesis using ballot_steps_term [of "ballot_of n" "ballot_of n'"] by simp
qed

theorem served_node_inv_witness:
  "node_inv (snd (accept_loop (connections [(calm_env, [CHR 0xFF]), (calm_env, ''{}'')]) example_node))"
proof -
  let ?cs = "[(calm_env, [CHR 0xFF]), (calm_env, ''{}'')]"
  let ?r = "accept_loop (connections ?cs) example_node"
  have "\<exists>w. handleClient (raft_methods calm_env) [CHR 0xFF] example_node = (Throw (JsonException 316 w), example_node)"
    by (rule bad_byte_crash) (simp_all add: byte_of_def)
  then have "alive (fst ?r)" by (auto simp: connections_def abind.simps)
  moreover have "node_inv example_node"
    unfolding example_node_def by (rule inv_start) code_simp
  moreover have "\<forall>(env, received) \<in> set ?cs. inv_env env \<and> ballot_env env" by (simp add: calm_env_ok)
  moreover have "?r = (fst ?r, snd ?r)" by (simp only: prod.collapse)
  ultimately show ?thesis using served_node_inv by blast
qed

end
