(* ===== verification/Json_Types.thy ===== *)
theory Json_Types imports Json_View begin

text \<open>
  What \<open>json::parse\<close> builds is a value as its class promises it: integers in the range of their
  type, the members of every object sorted by key and each key once.
\<close>

section \<open>Numbers of the lexer\<close>

definition number_ok :: "token_type \<Rightarrow> lexer \<Rightarrow> bool" where
  "number_ok t lx \<longleftrightarrow>
     (t = ValueUnsigned \<longrightarrow> 0 \<le> value_unsigned lx \<and> value_unsigned lx \<le> 18446744073709551615) \<and>
     (t = ValueInteger \<longrightarrow> is_int64 (value_integer lx))"

lemma number_ok_other: "t \<noteq> ValueUnsigned \<Longrightarrow> t \<noteq> ValueInteger \<Longrightarrow> number_ok t lx"
  by (simp add: number_ok_def)

lemma digits_value_nonneg: "list_all is_digit ds \<Longrightarrow> 0 \<le> acc \<Longrightarrow> 0 \<le> digits_value acc ds"
  by (induction acc ds rule: digits_value.induct) (simp_all add: digit_value_def is_digit_def)

text \<open>The token read so far, by the type it will have.\<close>

definition digits_ok :: "token_type \<Rightarrow> lexer \<Rightarrow> bool" where
  "digits_ok t lx \<longleftrightarrow>
     (t = ValueUnsigned \<longrightarrow> list_all is_digit (token_buffer lx)) \<and>
     (t = ValueInteger \<longrightarrow> list_all is_digit (tl (token_buffer lx)) \<and> token_buffer lx \<noteq> [])"

lemma digits_ok_get [simp]: "digits_ok t (lex_get lx) = digits_ok t lx"
  by (simp add: digits_ok_def)

lemma digits_ok_add: "digits_ok t lx \<Longrightarrow> is_digit c \<Longrightarrow> digits_ok t (lex_add c lx)"
  by (simp add: digits_ok_def)

lemma done_ok: "digits_ok t lx \<Longrightarrow> number_ok (fst (scan_number_done t lx)) (snd (scan_number_done t lx))"
  using digits_value_nonneg [of "token_buffer lx" 0] digits_value_nonneg [of "tl (token_buffer lx)" 0]
  by (auto simp: scan_number_done_def digits_ok_def number_ok_def strtoull_def strtoll_def is_int64_def Let_def
      split: if_splits)

lemma done_float [simp]: "fst (scan_number_done ValueFloat lx) = ValueFloat"
  by (simp add: scan_number_done_def Let_def)

lemma any2_float: "fst (scan_number_any2 ValueFloat lx) = ValueFloat"
proof (induction "ValueFloat" lx rule: scan_number_any2.induct)
  case (1 lx)
  then show ?case by (subst scan_number_any2.simps) (auto split: option.split)
qed

lemma exponent_float: "fst (scan_number_exponent lx) \<in> {ValueFloat, ParseError}"
  by (auto simp: scan_number_exponent_def scan_number_sign_def Let_def any2_float split: option.split)

lemma decimal2_float: "fst (scan_number_decimal2 lx) \<in> {ValueFloat, ParseError}"
proof (induction lx rule: scan_number_decimal2.induct)
  case (1 lx)
  then show ?case using exponent_float by (subst scan_number_decimal2.simps) (auto split: option.split)
qed

lemma decimal1_float: "fst (scan_number_decimal1 lx) \<in> {ValueFloat, ParseError}"
  using decimal2_float by (auto simp: scan_number_decimal1_def Let_def split: option.split)

lemma float_ok: "fst r \<in> {ValueFloat, ParseError} \<Longrightarrow> number_ok (fst r) (snd r)"
  by (auto simp: number_ok_def)

lemma any1_ok: "digits_ok t lx \<Longrightarrow> number_ok (fst (scan_number_any1 t lx)) (snd (scan_number_any1 t lx))"
proof (induction t lx rule: scan_number_any1.induct)
  case (1 t lx)
  then show ?case
    using float_ok [OF exponent_float] float_ok [OF decimal1_float] done_ok [of t "lex_get lx"]
    by (subst (1 2) scan_number_any1.simps) (auto simp: digits_ok_add split: option.split)
qed

lemma zero_ok: "digits_ok t lx \<Longrightarrow> number_ok (fst (scan_number_zero t lx)) (snd (scan_number_zero t lx))"
  using float_ok [OF exponent_float] float_ok [OF decimal1_float] done_ok [of t "lex_get lx"]
  by (auto simp: scan_number_zero_def Let_def split: option.split)

lemma minus_ok:
  assumes "token_buffer lx = ''-''"
  shows "number_ok (fst (scan_number_minus lx)) (snd (scan_number_minus lx))"
proof -
  have "digits_ok ValueInteger (lex_add c (lex_get lx))" if "is_digit c" for c
    using assms that by (simp add: digits_ok_def)
  then show ?thesis
    using zero_ok any1_ok
    by (auto simp: scan_number_minus_def Let_def number_ok_other is_digit_def byte_of_def split: option.split)
qed

lemma scan_number_ok:
  assumes "c = CHR ''-'' \<or> is_digit c"
  shows "number_ok (fst (scan_number c lx)) (snd (scan_number c lx))"
proof -
  have "digits_ok ValueUnsigned (lex_add c (lex_reset lx))" if "is_digit c" using that by (simp add: digits_ok_def)
  then show ?thesis
    using assms zero_ok any1_ok minus_ok [of "lex_add c (lex_reset lx)"] by (auto simp: scan_number_def Let_def)
qed

lemma literal_other: "fst (scan_literal cs t lx) = t \<or> fst (scan_literal cs t lx) = ParseError"
  by (induction cs t lx rule: scan_literal.induct) (simp_all add: Let_def)

lemma string_other: "fst (scan_string_loop lx) \<in> {ValueString, ParseError}"
proof (induction lx rule: scan_string_loop.induct)
  case (1 lx)
  then show ?case by (subst scan_string_loop.simps) (auto split: option.split)
qed

lemma scan_token_ok: "number_ok (fst (scan_token lx)) (snd (scan_token lx))"
proof (cases "current lx")
  case (Some c)
  have "number_ok (fst (scan_literal cs t lx)) (snd (scan_literal cs t lx))"
    if "t \<in> {LiteralTrue, LiteralFalse, LiteralNull}" for cs t
    using literal_other [of cs t lx] that by (intro number_ok_other) auto
  moreover have "number_ok (fst (scan_string lx)) (snd (scan_string lx))"
    using string_other [of "lex_reset lx"] by (intro number_ok_other) (auto simp: scan_string_def)
  ultimately show ?thesis
    using Some scan_number_ok by (simp add: scan_token_def number_ok_other del: scan_literal.simps)
qed (simp add: scan_token_def number_ok_other)

definition token_ok :: "parser \<Rightarrow> bool" where
  "token_ok p \<longleftrightarrow> number_ok (last_token p) (m_lexer p)"

lemma scan_ok: "number_ok (fst (scan lx)) (snd (scan lx))"
  using scan_token_ok by (simp add: scan_def number_ok_other Let_def split: prod.split)

lemma get_token_ok [simp]: "token_ok (get_token p)"
  using scan_ok [of "m_lexer p"] by (cases "scan (m_lexer p)") (simp add: token_ok_def get_token_def)

section \<open>Values of the parser\<close>

definition frame_ok :: "frame \<Rightarrow> bool" where
  "frame_ok f \<longleftrightarrow> (case f of FArray js \<Rightarrow> json_wf (JArray js) | FObject kvs k \<Rightarrow> json_wf (JObject kvs))"

fun progress_ok :: "progress \<Rightarrow> bool" where
  "progress_ok (PValue j p) = (json_wf j \<and> token_ok p)"
| "progress_ok (PNext p fs) = (token_ok p \<and> list_all frame_ok fs)"
| "progress_ok (PDone j p) = json_wf j"
| "progress_ok (PError e p) = True"

lemma member_ok: "json_wf (JObject kvs) \<Longrightarrow> list_all frame_ok fs \<Longrightarrow> progress_ok (sax_member kvs fs p)"
  by (simp add: sax_member_def frame_ok_def Let_def)

lemma value_ok:
  assumes "token_ok p" "list_all frame_ok fs"
  shows "progress_ok (sax_value p fs)"
proof -
  have "last_token p = ValueUnsigned \<Longrightarrow> 0 \<le> value_unsigned (m_lexer p) \<and> value_unsigned (m_lexer p) \<le> 18446744073709551615"
    "last_token p = ValueInteger \<Longrightarrow> is_int64 (value_integer (m_lexer p))"
    using assms(1) by (simp_all add: token_ok_def number_ok_def)
  then show ?thesis
    using assms member_ok [of "[]" fs "get_token p"]
    by (auto simp: sax_value_def frame_ok_def [of "FArray []"] Let_def split: token_type.split)
qed

lemma obj_assign_mem: "kv \<in> set (obj_assign k v kvs) \<Longrightarrow> kv = (k, v) \<or> kv \<in> set kvs"
  by (induction k v kvs rule: obj_assign.induct) (auto split: if_splits)

lemma object_ok: "json_wf (JObject kvs) \<Longrightarrow> json_wf j \<Longrightarrow> json_wf (JObject (obj_assign k j kvs))"
  by (auto dest!: obj_assign_mem)

lemma up_ok: "json_wf j \<Longrightarrow> list_all frame_ok fs \<Longrightarrow> progress_ok (sax_up j p fs)"
proof (induction j p fs rule: sax_up.induct)
  case (2 j p js fs)
  then have "json_wf (JArray (js @ [j]))" by (auto simp: frame_ok_def)
  then show ?case using 2 by (simp add: frame_ok_def [of "FArray (js @ [j])"] Let_def)
next
  case (3 j p kvs k fs)
  then have "json_wf (JObject kvs)" by (simp add: frame_ok_def)
  from object_ok [OF this 3(2)] have "json_wf (JObject (obj_assign k j kvs))" by simp
  then show ?case using 3 member_ok by (simp add: Let_def)
qed simp

lemma step_ok: "token_ok p \<Longrightarrow> list_all frame_ok fs \<Longrightarrow> progress_ok (sax_step p fs)"
  using value_ok [of p fs] by (auto simp: sax_step_def up_ok split: progress.split)

lemma sax_parse_ok: "token_ok p \<Longrightarrow> list_all frame_ok fs \<Longrightarrow> fst (sax_parse p fs) = Ok j \<Longrightarrow> json_wf j"
proof (induction p fs rule: sax_parse.induct)
  case (1 p fs)
  have "fst (case sax_step p fs of PNext p' fs' \<Rightarrow> sax_parse p' fs' | PDone j p' \<Rightarrow> (Ok j, p')
      | PError e p' \<Rightarrow> (Throw e, p') | PValue j p' \<Rightarrow> (Abort, p')) = Ok j"
    using 1(4) by (subst (asm) sax_parse.simps)
  then show ?case using step_ok [OF 1(2,3)] 1(1) by (auto split: progress.splits)
qed

section \<open>Properties\<close>

text \<open>C33: every value that parsing returns is well formed at every depth: its integers are in the
  range of their type, and the keys of its objects are sorted and distinct.\<close>

theorem json_parse_wf:
  assumes "json_parse s = Ok j"
  shows "json_wf j"
proof -
  have "fst (sax_parse (parser_new s) []) = Ok j"
    using assms by (cases "sax_parse (parser_new s) []") (auto simp: json_parse_def Let_def split: outcome.splits if_splits)
  then show ?thesis using sax_parse_ok [of "parser_new s" "[]"] by (simp add: parser_new_def)
qed

theorem json_parse_wf_witness: "json_wf (JObject [(''a'', JUnsigned 1), (''b'', JArray [JInteger (-2)])])"
proof (rule json_parse_wf)
  show "json_parse ([CHR 0x7B, quote] @ ''b'' @ [quote] @ '':[-2],'' @ [quote] @ ''a'' @ [quote] @ '':1}'') =
      Ok (JObject [(''a'', JUnsigned 1), (''b'', JArray [JInteger (-2)])])"
    by code_simp
qed

text \<open>C34: parsing ends on every text, with a value or with an exception of the library; no
  assertion fails and nothing is undefined on the way.\<close>

theorem json_parse_total: "(\<exists>j. json_parse s = Ok j) \<or> (\<exists>i w. json_parse s = Throw (JsonException i w))"
proof (cases "\<exists>j. json_parse s = Ok j")
  case False
  then obtain e where "json_parse s = Throw e" "json_exn e" using json_parse_result by blast
  then show ?thesis by (cases e) auto
qed simp

end
