(* ===== verification/Json_Handlers.thy ===== *)
theory Json_Handlers imports Json_Roundtrip State_Machine begin

text \<open>
  The serializer of \<open>common/json.hpp\<close> with its error handler: what \<open>dump\<close> does with bytes that are
  not UTF-8. The programs use the handler \<open>strict\<close>, which throws, and so can be ended by a message;
  \<open>replace\<close> and \<open>ignore\<close> never throw, and print the value with its strings repaired.
\<close>

section \<open>The three handlers\<close>

datatype error_handler = Strict | Replace | Ignore

definition replacement :: "bool \<Rightarrow> string" where
  "replacement ascii =
     (if ascii then [backslash, CHR ''u'', CHR ''f'', CHR ''f'', CHR ''f'', CHR ''d'']
      else [CHR 0xEF, CHR 0xBF, CHR 0xBD])"

definition instead :: "error_handler \<Rightarrow> bool \<Rightarrow> string" where
  "instead h ascii = (if h = Replace then replacement ascii else [])"

text \<open>
  The loop of \<open>dump_escaped\<close>: index, state, code point and last byte as in \<open>Json_Dump\<close>, then
  \<open>undumped_chars\<close> and the bytes written since the last accepted code point, which a rejected byte
  takes back. A byte that ends a sequence too early is read again as the start of another.
\<close>

function escaped_loop ::
    "error_handler \<Rightarrow> bool \<Rightarrow> string \<Rightarrow> nat \<Rightarrow> nat \<Rightarrow> nat \<Rightarrow> nat \<Rightarrow> nat \<Rightarrow> string \<Rightarrow> string outcome" where
  "escaped_loop h ascii [] i st codep lst undumped pend =
     (if st = 0 then Ok pend
      else if h = Strict then Throw (type_error 316 (''incomplete UTF-8 string; last byte: 0x'' @ hex_bytes lst))
      else Ok (instead h ascii))"
| "escaped_loop h ascii (c # cs) i st codep lst undumped pend =
     (let b = byte_of c; cp = utf8_codepoint st codep b; st' = utf8_next st b
      in if st' = 0 then
           omap (\<lambda>s. pend @ escape_codepoint ascii cp c @ s) (escaped_loop h ascii cs (Suc i) 0 cp b 0 [])
         else if st' = 1 then
           if h = Strict then
             Throw (type_error 316 (''invalid UTF-8 byte at index '' @ nat_digits i @ '': 0x'' @ hex_bytes b))
           else omap (\<lambda>s. instead h ascii @ s)
             (if 0 < undumped then escaped_loop h ascii (c # cs) i 0 cp b 0 []
              else escaped_loop h ascii cs (Suc i) 0 cp b 0 [])
         else escaped_loop h ascii cs (Suc i) st' cp b (Suc undumped) (if ascii then pend else pend @ [c]))"
  by pat_completeness auto
termination
  by (relation "measure (\<lambda>(h, ascii, cs, i, st, codep, lst, undumped, pend). 2 * length cs + (if 0 < undumped then 1 else 0))")
     auto

declare escaped_loop.simps [simp del]

definition escaped :: "error_handler \<Rightarrow> bool \<Rightarrow> string \<Rightarrow> string outcome" where
  "escaped h ascii s = escaped_loop h ascii s 0 0 0 0 0 []"

text \<open>\<open>dump(val, pretty_print, ensure_ascii, indent_step, current_indent)\<close> for any handler.\<close>

fun dump_with :: "error_handler \<Rightarrow> bool \<Rightarrow> bool \<Rightarrow> nat \<Rightarrow> nat \<Rightarrow> json \<Rightarrow> string outcome" where
  "dump_with h pretty ascii stp cur (JObject kvs) =
     (if kvs = [] then Ok ''{}''
      else if pretty then
        omap (\<lambda>ms. ''{'' @ [CHR 0x0A] @ join ('','' @ [CHR 0x0A]) (map (\<lambda>m. indentation (cur + stp) @ m) ms)
                   @ [CHR 0x0A] @ indentation cur @ ''}'')
          (osequence (map (\<lambda>kv. obind (escaped h ascii (fst kv)) (\<lambda>k.
             omap (\<lambda>v. [quote] @ k @ [quote] @ '': '' @ v) (dump_with h pretty ascii stp (cur + stp) (snd kv)))) kvs))
      else
        omap (\<lambda>ms. ''{'' @ join '','' ms @ ''}'')
          (osequence (map (\<lambda>kv. obind (escaped h ascii (fst kv)) (\<lambda>k.
             omap (\<lambda>v. [quote] @ k @ [quote] @ '':'' @ v) (dump_with h pretty ascii stp cur (snd kv)))) kvs)))"
| "dump_with h pretty ascii stp cur (JArray js) =
     (if js = [] then Ok ''[]''
      else if pretty then
        omap (\<lambda>ms. ''['' @ [CHR 0x0A] @ join ('','' @ [CHR 0x0A]) (map (\<lambda>m. indentation (cur + stp) @ m) ms)
                   @ [CHR 0x0A] @ indentation cur @ '']'')
          (osequence (map (dump_with h pretty ascii stp (cur + stp)) js))
      else
        omap (\<lambda>ms. ''['' @ join '','' ms @ '']'')
          (osequence (map (dump_with h pretty ascii stp cur) js)))"
| "dump_with h pretty ascii stp cur (JString s) =
     omap (\<lambda>t. [quote] @ t @ [quote]) (escaped h ascii s)"
| "dump_with h pretty ascii stp cur (JBoolean b) = Ok (if b then ''true'' else ''false'')"
| "dump_with h pretty ascii stp cur (JInteger i) = Ok (dump_integer i)"
| "dump_with h pretty ascii stp cur (JUnsigned i) = Ok (dump_integer i)"
| "dump_with h pretty ascii stp cur (JFloat d) = dump_float d"
| "dump_with h pretty ascii stp cur JNull = Ok ''null''"

text \<open>A value with all its strings and keys changed by \<open>r\<close>.\<close>

fun map_strings :: "(string \<Rightarrow> string) \<Rightarrow> json \<Rightarrow> json" where
  "map_strings r (JString s) = JString (r s)"
| "map_strings r (JArray js) = JArray (map (map_strings r) js)"
| "map_strings r (JObject kvs) = JObject (map (\<lambda>kv. (r (fst kv), map_strings r (snd kv))) kvs)"
| "map_strings r j = j"

lemma dump_with_strings:
  assumes r: "\<And>s. escaped h ascii s = dump_escaped ascii (r s)"
  shows "dump_with h pretty ascii stp cur j = json_dump pretty ascii stp cur (map_strings r j)"
proof (induction j arbitrary: cur)
  case (JArray js)
  then have v: "map (dump_with h pretty ascii stp c) js = map (json_dump pretty ascii stp c) (map (map_strings r) js)" for c
    by simp
  show ?case
    using v by (cases pretty) (simp_all only: dump_with.simps json_dump.simps map_strings.simps map_is_Nil_conv if_True if_False)
next
  case (JObject kvs)
  have v: "dump_with h pretty ascii stp c (snd kv) = json_dump pretty ascii stp c (map_strings r (snd kv))"
    if "kv \<in> set kvs" for kv c using JObject [of kv "snd kv"] that by (cases kv) simp
  then have m: "map (\<lambda>kv. obind (escaped h ascii (fst kv)) (\<lambda>k. omap (f k) (dump_with h pretty ascii stp c (snd kv)))) kvs =
      map (\<lambda>kv. obind (dump_escaped ascii (fst kv)) (\<lambda>k. omap (f k) (json_dump pretty ascii stp c (snd kv))))
        (map (\<lambda>kv. (r (fst kv), map_strings r (snd kv))) kvs)"
    for f :: "string \<Rightarrow> string \<Rightarrow> string" and c by (simp add: r)
  show ?case
    using m by (cases pretty) (simp_all only: dump_with.simps json_dump.simps map_strings.simps map_is_Nil_conv if_True if_False)
qed (simp_all add: r)

text \<open>The strict handler gives the serializer of \<open>Json_Dump\<close>.\<close>

lemma omap_pend: "omap (\<lambda>s. s) r = r" "omap ((@) []) r' = r'" "omap ((@) (p @ [c])) = omap (\<lambda>s. p @ c # s)"
proof -
  show "omap (\<lambda>s. s) r = r" by (cases r) simp_all
  show "omap ((@) []) r' = r'" by (cases r') simp_all
  have "(@) (p @ [c]) = (\<lambda>s. p @ c # s)" by (simp add: fun_eq_iff)
  then show "omap ((@) (p @ [c])) = omap (\<lambda>s. p @ c # s)" by simp
qed

lemma escaped_loop_strict:
  "escaped_loop Strict ascii cs i st codep lst u pend = omap (\<lambda>s. pend @ s) (dump_escaped_loop ascii cs i st codep lst)"
proof (induction cs arbitrary: i st codep lst u pend)
  case (Cons c cs)
  show ?case by (subst escaped_loop.simps(2)) (simp add: Let_def Cons omap_pend omap_omap)
qed (simp add: escaped_loop.simps)

lemma escaped_strict: "escaped Strict = dump_escaped"
  by (intro ext) (simp add: escaped_def dump_escaped_def escaped_loop_strict omap_pend)

lemma map_strings_id: "map_strings (\<lambda>s. s) j = j"
proof (induction j)
  case (JObject kvs)
  then have "(fst kv, map_strings (\<lambda>s. s) (snd kv)) = kv" if "kv \<in> set kvs" for kv
    using that JObject [of kv "snd kv"] by (cases kv) simp
  then show ?case by (simp add: map_idI)
qed (simp_all add: map_idI)

lemma dump_with_strict: "dump_with Strict pretty ascii stp cur j = json_dump pretty ascii stp cur j"
  using dump_with_strings [of Strict ascii "\<lambda>s. s"] by (simp add: escaped_strict map_strings_id)

text \<open>
  The branch of \<open>dump\<close> for binary values, which the type of messages leaves out: the bytes, and the
  subtype if there is one.
\<close>

definition dump_binary :: "bool \<Rightarrow> nat \<Rightarrow> nat \<Rightarrow> nat list \<Rightarrow> nat option \<Rightarrow> string" where
  "dump_binary pretty stp cur bytes subtype =
     (let numbers = map (\<lambda>b. dump_integer (int b)) bytes;
          kind = (case subtype of Some t \<Rightarrow> dump_integer (int t) | None \<Rightarrow> ''null'')
      in if pretty then
           ''{'' @ [CHR 0x0A] @ indentation (cur + stp) @ [quote] @ ''bytes'' @ [quote] @ '': ['' @ join '', '' numbers @ ''],'' @ [CHR 0x0A] @
           indentation (cur + stp) @ [quote] @ ''subtype'' @ [quote] @ '': '' @ kind @ [CHR 0x0A] @ indentation cur @ ''}''
         else ''{'' @ [quote] @ ''bytes'' @ [quote] @ '':['' @ join '','' numbers @ ''],'' @ [quote] @ ''subtype'' @ [quote] @ '':'' @ kind @ ''}'')"

text \<open>Printed compactly it is the text of an object with two members.\<close>

lemma dump_binary_object:
  "dump (JObject [(''bytes'', JArray (map (\<lambda>b. JUnsigned (int b)) bytes)),
     (''subtype'', case subtype of Some t \<Rightarrow> JUnsigned (int t) | None \<Rightarrow> JNull)]) = Ok (dump_binary False 0 0 bytes subtype)"
proof -
  have "dump_escaped False ''bytes'' = Ok ''bytes''" "dump_escaped False ''subtype'' = Ok ''subtype''"
    by (rule dump_escaped_plain, code_simp)+
  moreover have "osequence (map (json_dump False False 0 0) (map (\<lambda>b. JUnsigned (int b)) bytes)) = Ok (map (\<lambda>b. dump_integer (int b)) bytes)"
    by (induction bytes) simp_all
  ultimately show ?thesis
    by (cases subtype) (auto simp: dump_def dump_binary_def Let_def comp_def)
qed

section \<open>What the other handlers print\<close>

text \<open>The string with each invalid piece taken out, or replaced by the character \<open>U+FFFD\<close>.\<close>

function repair_loop :: "error_handler \<Rightarrow> string \<Rightarrow> nat \<Rightarrow> string \<Rightarrow> string" where
  "repair_loop h [] st pend = (if st = 0 then pend else instead h False)"
| "repair_loop h (c # cs) st pend =
     (let st' = utf8_next st (byte_of c)
      in if st' = 0 then pend @ [c] @ repair_loop h cs 0 []
         else if st' = 1 then
           instead h False @ (if pend \<noteq> [] then repair_loop h (c # cs) 0 [] else repair_loop h cs 0 [])
         else repair_loop h cs st' (pend @ [c]))"
  by pat_completeness auto
termination
  by (relation "measure (\<lambda>(h, cs, st, pend). 2 * length cs + (if pend \<noteq> [] then 1 else 0))") auto

declare repair_loop.simps [simp del]

definition repair :: "error_handler \<Rightarrow> string \<Rightarrow> string" where
  "repair h s = repair_loop h s 0 []"

text \<open>The automaton reads a piece of a code point: no byte of it ends one or is wrong.\<close>

fun feeds :: "nat \<Rightarrow> nat \<Rightarrow> string \<Rightarrow> (nat \<times> nat) option" where
  "feeds st cp [] = Some (st, cp)"
| "feeds st cp (c # cs) =
     (let st' = utf8_next st (byte_of c)
      in if st' \<le> 1 then None else feeds st' (utf8_codepoint st cp (byte_of c)) cs)"

lemma feeds_snoc:
  "feeds st cp pend = Some (st1, cp1) \<Longrightarrow> \<not> utf8_next st1 (byte_of c) \<le> 1 \<Longrightarrow>
   feeds st cp (pend @ [c]) = Some (utf8_next st1 (byte_of c), utf8_codepoint st1 cp1 (byte_of c))"
  by (induction st cp pend rule: feeds.induct) (auto simp: Let_def split: if_splits)

lemma feeds_dump:
  "feeds st cp pend = Some (st1, cp1) \<Longrightarrow>
   \<exists>l1. dump_escaped_loop ascii (pend @ xs) i st cp l =
     omap (\<lambda>s. (if ascii then [] else pend) @ s) (dump_escaped_loop ascii xs (i + length pend) st1 cp1 l1)"
proof (induction st cp pend arbitrary: i l rule: feeds.induct)
  case (2 st cp c cs)
  let ?b = "byte_of c"
  have st: "\<not> utf8_next st ?b \<le> 1" and "feeds (utf8_next st ?b) (utf8_codepoint st cp ?b) cs = Some (st1, cp1)"
    using 2(2) by (simp_all add: Let_def split: if_splits)
  then obtain l1 where "dump_escaped_loop ascii (cs @ xs) (Suc i) (utf8_next st ?b) (utf8_codepoint st cp ?b) ?b =
      omap (\<lambda>s. (if ascii then [] else cs) @ s) (dump_escaped_loop ascii xs (Suc i + length cs) st1 cp1 l1)"
    using 2(1) by blast
  then show ?case using st by (intro exI [of _ l1]) (simp add: Let_def omap_omap)
qed (auto simp: omap_pend)

text \<open>At the start of a code point what was read before does not matter to what is printed.\<close>

lemma dump_start: "dump_escaped_loop ascii cs i 0 cp l = Ok t \<Longrightarrow> dump_escaped_loop ascii cs i' 0 cp' l' = Ok t"
proof -
  have "dump_escaped_loop ascii cs i st cp l = Ok t \<Longrightarrow> st = 0 \<or> cp' = cp \<Longrightarrow> dump_escaped_loop ascii cs i' st cp' l' = Ok t"
    for i st cp l i' cp' l' t
  proof (induction cs arbitrary: i st cp l i' cp' l' t)
    case (Cons c cs)
    let ?b = "byte_of c"
    let ?s = "utf8_next st ?b" and ?c = "utf8_codepoint st cp ?b"
    have eq: "utf8_codepoint st cp' ?b = ?c" using Cons.prems(2) by (auto simp: utf8_codepoint_def)
    have ok: "?s \<noteq> 1" using Cons.prems(1) by (auto simp: Let_def)
    define piece where "piece = (if ?s = 0 then escape_codepoint ascii ?c c else if ascii then [] else [c])"
    have step: "dump_escaped_loop ascii (c # cs) j st cq m =
        omap (\<lambda>s. piece @ s) (dump_escaped_loop ascii cs (Suc j) ?s ?c ?b)" if "cq = cp \<or> cq = cp'" for j cq m
      using that eq ok by (auto simp: Let_def piece_def omap_pend)
    obtain t1 where t1: "dump_escaped_loop ascii cs (Suc i) ?s ?c ?b = Ok t1" "t = piece @ t1"
      using Cons.prems(1) unfolding step [OF disjI1 [OF refl]] by (auto simp: omap_eq_Ok)
    have "dump_escaped_loop ascii cs (Suc i') ?s ?c ?b = Ok t1" by (rule Cons.IH [OF t1(1)]) simp
    then show ?case unfolding step [OF disjI2 [OF refl]] by (simp add: t1(2))
  qed (auto split: if_splits)
  then show "dump_escaped_loop ascii cs i 0 cp l = Ok t \<Longrightarrow> dump_escaped_loop ascii cs i' 0 cp' l' = Ok t" by blast
qed

lemma dump_mark:
  "\<exists>cp' l'. dump_escaped_loop ascii (replacement False @ xs) i 0 cp l =
     omap (\<lambda>s. replacement ascii @ s) (dump_escaped_loop ascii xs (i + 3) 0 cp' l')"
proof -
  have b: "byte_of CHR 0xEF = 239" "byte_of CHR 0xBF = 191" "byte_of CHR 0xBD = 189" by (code_simp)+
  have "utf8_next 0 239 = 3" "utf8_next 3 191 = 2" "utf8_next 2 189 = 0" by code_simp+
  note n = this
  have kl: "utf8_class 239 = 3" by code_simp
  have c: "utf8_codepoint 0 cp 239 = 15" "utf8_codepoint 3 15 191 = 1023" "utf8_codepoint 2 1023 189 = 65533"
    by (simp_all add: utf8_codepoint_def kl)
  have h: "hex_digit 15 = CHR ''f''" "hex_digit 13 = CHR ''d''" by code_simp+
  have e: "escape_codepoint True 65533 CHR 0xBD = replacement True" "escape_codepoint False 65533 CHR 0xBD = [CHR 0xBD]"
    using h by (simp_all add: escape_codepoint_def unicode_escape_def hex4_def replacement_def)
  have "dump_escaped_loop ascii (CHR 0xEF # CHR 0xBF # CHR 0xBD # xs) i 0 cp l =
      omap (\<lambda>s. replacement ascii @ s) (dump_escaped_loop ascii xs (Suc (Suc (Suc i))) 0 65533 189)"
    by (cases ascii) (simp_all add: b n c e omap_omap omap_pend, simp_all add: replacement_def)
  then show ?thesis by (auto simp: replacement_def numeral_3_eq_3)
qed

lemma dump_instead:
  assumes "dump_escaped_loop ascii xs 0 0 0 0 = Ok t"
  shows "dump_escaped_loop ascii (instead h False @ xs) 0 0 0 0 = Ok (instead h ascii @ t)"
proof (cases "h = Replace")
  case True
  obtain cp' l' where *: "dump_escaped_loop ascii (replacement False @ xs) 0 0 0 0 =
      omap (\<lambda>s. replacement ascii @ s) (dump_escaped_loop ascii xs (0 + 3) 0 cp' l')"
    using dump_mark by blast
  then show ?thesis unfolding instead_def if_P [OF True] * dump_start [OF assms] by simp
qed (simp add: instead_def assms)

text \<open>What is pending: nothing, or a piece of a code point that the automaton has read.\<close>

definition pends :: "nat \<Rightarrow> nat \<Rightarrow> string \<Rightarrow> bool" where
  "pends st cp pend \<longleftrightarrow> (pend = [] \<and> st = 0) \<or> (pend \<noteq> [] \<and> st \<noteq> 0 \<and> feeds 0 0 pend = Some (st, cp))"

lemma codepoint_start: "utf8_codepoint 0 cp b = utf8_codepoint 0 0 b"
  by (simp add: utf8_codepoint_def)

lemma pends_dump:
  assumes "pends st cp pend"
  obtains i1 c1 l1 where "dump_escaped_loop ascii (pend @ c # xs) 0 0 0 0 =
      omap (\<lambda>s. (if ascii then [] else pend) @ s) (dump_escaped_loop ascii (c # xs) i1 st c1 l1)"
    "utf8_codepoint st c1 (byte_of c) = utf8_codepoint st cp (byte_of c)"
proof (cases "pend = []")
  case True
  then have "st = 0" using assms by (simp add: pends_def)
  show thesis
  proof (rule that [of 0 0 0])
    show "dump_escaped_loop ascii (pend @ c # xs) 0 0 0 0 =
        omap (\<lambda>s. (if ascii then [] else pend) @ s) (dump_escaped_loop ascii (c # xs) 0 st 0 0)"
      by (simp add: True \<open>st = 0\<close> omap_pend del: dump_escaped_loop.simps)
    show "utf8_codepoint st 0 (byte_of c) = utf8_codepoint st cp (byte_of c)"
      using \<open>st = 0\<close> codepoint_start by metis
  qed
next
  case False
  then have "feeds 0 0 pend = Some (st, cp)" using assms by (simp add: pends_def)
  then obtain l1 where "dump_escaped_loop ascii (pend @ c # xs) 0 0 0 0 =
      omap (\<lambda>s. (if ascii then [] else pend) @ s) (dump_escaped_loop ascii (c # xs) (0 + length pend) st cp l1)"
    using feeds_dump by blast
  then show thesis using that by blast
qed

lemma pends_snoc:
  assumes "pends st cp pend" "\<not> utf8_next st (byte_of c) \<le> 1"
  shows "pends (utf8_next st (byte_of c)) (utf8_codepoint st cp (byte_of c)) (pend @ [c])"
proof (cases "pend = []")
  case True
  then have "st = 0" using assms(1) by (simp add: pends_def)
  then show ?thesis using True assms(2) codepoint_start [of cp "byte_of c"] by (simp add: pends_def Let_def)
qed (use assms feeds_snoc in \<open>auto simp: pends_def\<close>)

lemma escaped_loop_repair:
  "h \<noteq> Strict \<Longrightarrow> pends st cp pend \<Longrightarrow> 0 < u \<longleftrightarrow> pend \<noteq> [] \<Longrightarrow>
   \<exists>t. escaped_loop h ascii cs i st cp l u (if ascii then [] else pend) = Ok t \<and>
     dump_escaped_loop ascii (repair_loop h cs st pend) 0 0 0 0 = Ok t"
proof (induction h cs st pend arbitrary: i cp l u rule: repair_loop.induct)
  case (1 h st pend)
  have "dump_escaped_loop ascii [] 0 0 0 0 = Ok []" by simp
  from dump_instead [OF this, of h] show ?case
    using 1 by (auto simp: escaped_loop.simps repair_loop.simps pends_def)
next
  case (2 h c cs st pend)
  let ?b = "byte_of c"
  let ?s = "utf8_next st ?b" and ?c = "utf8_codepoint st cp ?b" and ?out = "if ascii then [] else pend"
  have start: "pends 0 q []" for q by (simp add: pends_def)
  have again: "\<exists>t. escaped_loop h ascii xs j 0 ?c ?b 0 [] = Ok t \<and> dump_escaped_loop ascii (repair_loop h xs 0 []) 0 0 0 0 = Ok t"
    if "\<And>i cp u. h \<noteq> Strict \<Longrightarrow> pends 0 cp [] \<Longrightarrow> (0 < u) = ([] \<noteq> ([] :: string)) \<Longrightarrow>
      \<exists>t. escaped_loop h ascii xs i 0 cp ?b u (if ascii then [] else []) = Ok t \<and>
        dump_escaped_loop ascii (repair_loop h xs 0 []) 0 0 0 0 = Ok t" for xs j
    using that [OF 2(5) start, of 0 j] by simp
  consider "?s = 0" | "?s = 1" | "\<not> ?s \<le> 1" by linarith
  then show ?case
  proof cases
    case 1
    obtain t where t: "escaped_loop h ascii cs (Suc i) 0 ?c ?b 0 [] = Ok t"
        "dump_escaped_loop ascii (repair_loop h cs 0 []) 0 0 0 0 = Ok t"
      using again [of cs "Suc i", OF 2(1) [OF refl 1]] by blast
    have "dump_escaped_loop ascii (pend @ c # repair_loop h cs 0 []) 0 0 0 0 = Ok (?out @ escape_codepoint ascii ?c c @ t)"
      using 1 dump_start [OF t(2)] by (rule_tac pends_dump [OF 2(6), of ascii c "repair_loop h cs 0 []"]) (simp add: Let_def)
    then show ?thesis
      using 1 t(1) by (subst escaped_loop.simps(2), subst repair_loop.simps(2)) (simp add: Let_def)
  next
    case 2
    note two = this
    then have n: "?s \<noteq> 0" by simp
    show ?thesis
    proof (cases "pend = []")
      case True
      obtain t where "escaped_loop h ascii cs (Suc i) 0 ?c ?b 0 [] = Ok t"
          "dump_escaped_loop ascii (repair_loop h cs 0 []) 0 0 0 0 = Ok t"
        using again [of cs "Suc i"] "2.IH"(3) [OF refl n 2] True by blast
      then show ?thesis using dump_instead "2.prems" 2 True
        by (subst escaped_loop.simps(2), subst repair_loop.simps(2)) (simp add: Let_def)
    next
      case False
      obtain t where "escaped_loop h ascii (c # cs) i 0 ?c ?b 0 [] = Ok t"
          "dump_escaped_loop ascii (repair_loop h (c # cs) 0 []) 0 0 0 0 = Ok t"
        using again [of "c # cs" i] "2.IH"(2) [OF refl n 2] False by blast
      then show ?thesis using dump_instead "2.prems" 2 False
        by (subst escaped_loop.simps(2), subst repair_loop.simps(2)) (simp add: Let_def)
    qed
  next
    case 3
    then have n: "?s \<noteq> 0" "?s \<noteq> 1" by simp_all
    have "\<exists>t. escaped_loop h ascii cs (Suc i) ?s ?c ?b (Suc u) (if ascii then [] else pend @ [c]) = Ok t \<and>
        dump_escaped_loop ascii (repair_loop h cs ?s (pend @ [c])) 0 0 0 0 = Ok t"
      by (rule 2(4) [OF refl n "2.prems"(1)]) (use pends_snoc [OF "2.prems"(2) 3] in simp_all)
    then show ?thesis using n
      by (subst escaped_loop.simps(2), subst repair_loop.simps(2)) (simp add: Let_def cong: if_cong)
  qed
qed

text \<open>Printing with such a handler is printing the repaired value with the strict one.\<close>

lemma escaped_repair:
  assumes "h \<noteq> Strict"
  shows "escaped h ascii s = dump_escaped ascii (repair h s)" "\<exists>t. escaped h ascii s = Ok t"
proof -
  obtain t where "escaped_loop h ascii s 0 0 0 0 0 [] = Ok t" "dump_escaped_loop ascii (repair_loop h s 0 []) 0 0 0 0 = Ok t"
    using escaped_loop_repair [OF assms, of 0 0 "[]" 0 ascii s 0 0] by (auto simp: pends_def)
  then show "escaped h ascii s = dump_escaped ascii (repair h s)" "\<exists>t. escaped h ascii s = Ok t"
    by (simp_all add: escaped_def dump_escaped_def repair_def)
qed

lemma dump_repair:
  "h \<noteq> Strict \<Longrightarrow> dump_with h pretty ascii stp cur j = json_dump pretty ascii stp cur (map_strings (repair h) j)"
  by (intro dump_with_strings escaped_repair(1))

lemma osequence_Ok: "(\<And>r. r \<in> set rs \<Longrightarrow> \<exists>a. r = Ok a) \<Longrightarrow> \<exists>as. osequence rs = Ok as"
proof (induction rs)
  case (Cons r rs)
  then obtain a as where "r = Ok a" "osequence rs = Ok as" by (metis list.set_intros)
  then show ?case by simp
qed simp

text \<open>What a printed value may come to: text, or the failed assertion of the printer of floats.\<close>

definition printed :: "'a outcome \<Rightarrow> bool \<Rightarrow> bool" where
  "printed r floats \<longleftrightarrow> (\<exists>t. r = Ok t) \<or> (floats \<and> r = Abort)"

lemma printed_omap: "printed r f \<Longrightarrow> printed (omap g r) f"
  by (auto simp: printed_def)

lemma printed_osequence: "(\<And>r. r \<in> set rs \<Longrightarrow> printed r f) \<Longrightarrow> printed (osequence rs) f"
proof (induction rs)
  case (Cons r rs)
  then have "printed r f" "printed (osequence rs) f" by simp_all
  then show ?case by (auto simp: printed_def)
qed (simp add: printed_def)

lemma dump_printed:
  assumes h: "h \<noteq> Strict"
  shows "printed (dump_with h pretty ascii stp cur j) (\<not> no_float j)"
proof -
  have e: "printed (obind (escaped h ascii s) (\<lambda>k. omap (g k) r)) f" if "printed r f" for s f r and g :: "string \<Rightarrow> string \<Rightarrow> string"
    using escaped_repair(2) [OF h, of ascii s] printed_omap [OF that] by auto
  have weak: "printed r f \<Longrightarrow> f \<longrightarrow> f' \<Longrightarrow> printed r f'" for r :: "string outcome" and f f' by (auto simp: printed_def)
  have nil: "printed (Ok t) f" for t :: string and f by (simp add: printed_def)
  show ?thesis
  proof (induction j arbitrary: cur)
    case (JFloat d)
    then show ?case by (auto simp: printed_def dump_float_def split: option.splits)
  next
    case (JString s)
    then show ?case using escaped_repair(2) [OF h, of ascii s] by (auto simp: printed_def)
  next
    case (JArray js)
    have "printed (osequence (map (dump_with h pretty ascii stp c) js)) (\<not> no_float (JArray js))" for c
    proof (rule printed_osequence)
      fix r
      assume "r \<in> set (map (dump_with h pretty ascii stp c) js)"
      then obtain j where j: "j \<in> set js" "r = dump_with h pretty ascii stp c j" by auto
      show "printed r (\<not> no_float (JArray js))"
        unfolding j(2) by (rule weak [OF JArray [OF j(1)]]) (use j(1) in auto)
    qed
    then show ?case by (cases pretty) (simp_all add: printed_omap nil)
  next
    case (JObject kvs)
    have m: "printed (dump_with h pretty ascii stp c (snd kv)) (\<not> no_float (JObject kvs))" if "kv \<in> set kvs" for kv c
    proof (rule weak)
      show "printed (dump_with h pretty ascii stp c (snd kv)) (\<not> no_float (snd kv))"
        using JObject [of kv "snd kv" c] that by (cases kv) simp
      show "\<not> no_float (snd kv) \<longrightarrow> \<not> no_float (JObject kvs)" using that by auto
    qed
    have "printed (osequence (map (\<lambda>kv. obind (escaped h ascii (fst kv)) (\<lambda>k. omap (g k) (dump_with h pretty ascii stp c (snd kv)))) kvs))
        (\<not> no_float (JObject kvs))" for c and g :: "string \<Rightarrow> string \<Rightarrow> string"
    proof (rule printed_osequence)
      fix r
      assume "r \<in> set (map (\<lambda>kv. obind (escaped h ascii (fst kv)) (\<lambda>k. omap (g k) (dump_with h pretty ascii stp c (snd kv)))) kvs)"
      then obtain kv where kv: "kv \<in> set kvs"
          "r = obind (escaped h ascii (fst kv)) (\<lambda>k. omap (g k) (dump_with h pretty ascii stp c (snd kv)))" by auto
      show "printed r (\<not> no_float (JObject kvs))" unfolding kv(2) by (rule e [OF m [OF kv(1)]])
    qed
    then show ?case by (cases pretty) (simp_all add: printed_omap nil)
  qed (auto simp: printed_def)
qed

text \<open>Valid strings are left alone.\<close>

lemma repair_loop_valid:
  "dump_escaped_loop ascii cs i st cp l = Ok t \<Longrightarrow> repair_loop h cs st pend = pend @ cs"
proof (induction cs arbitrary: i st cp l t pend)
  case (Cons c cs)
  then show ?case by (subst repair_loop.simps) (fastforce simp: Let_def omap_eq_Ok split: if_splits)
qed (auto simp: repair_loop.simps split: if_splits)

lemma repair_valid: "dump_escaped ascii s = Ok t \<Longrightarrow> repair h s = s"
  using repair_loop_valid [of ascii s 0 0 0 0 t h "[]"] by (simp add: dump_escaped_def repair_def)

lemma list_all2_in: "list_all2 P xs ys \<Longrightarrow> x \<in> set xs \<Longrightarrow> \<exists>y. P x y"
  by (induction rule: list_all2_induct) auto

lemma repair_strings_valid: "json_dump pretty ascii stp cur j = Ok t \<Longrightarrow> map_strings (repair h) j = j"
proof (induction j arbitrary: cur t)
  case (JString s)
  then show ?case using repair_valid by (auto simp: omap_eq_Ok)
next
  case (JArray js)
  have "\<exists>c ms. osequence (map (json_dump pretty ascii stp c) js) = Ok ms" if "js \<noteq> []"
    using JArray.prems that by (auto simp: omap_eq_Ok split: if_splits)
  then have "map_strings (repair h) j = j" if "j \<in> set js" for j
    using that JArray.IH osequence_all2 by (fastforce simp: list_all2_map1 list_all2_conv_all_nth in_set_conv_nth)
  then show ?case by (simp add: map_idI)
next
  case (JObject kvs)
  define c where "c = (if pretty then cur + stp else cur)"
  define g where "g = (\<lambda>k v. quote # k @ quote # CHR '':'' # (if pretty then '' '' else []) @ v)"
  have some: "\<exists>ms. osequence (map (\<lambda>kv. obind (dump_escaped ascii (fst kv)) (\<lambda>k.
      omap (g k) (json_dump pretty ascii stp c (snd kv)))) kvs) = Ok ms" if "kvs \<noteq> []"
    using JObject.prems that by (cases pretty) (auto simp: omap_eq_Ok c_def g_def)
  have "repair h (fst kv) = fst kv \<and> map_strings (repair h) (snd kv) = snd kv" if kv: "kv \<in> set kvs" for kv
  proof -
    have "kvs \<noteq> []" using kv by auto
    from some [OF this] obtain ms where ms: "osequence (map (\<lambda>kv. obind (dump_escaped ascii (fst kv)) (\<lambda>k.
        omap (g k) (json_dump pretty ascii stp c (snd kv)))) kvs) = Ok ms" by blast
    have "list_all2 (\<lambda>kv x. obind (dump_escaped ascii (fst kv)) (\<lambda>k. omap (g k) (json_dump pretty ascii stp c (snd kv))) = Ok x) kvs ms"
      using osequence_all2 [OF ms] by (simp add: list_all2_map1)
    then obtain x where "obind (dump_escaped ascii (fst kv)) (\<lambda>k. omap (g k) (json_dump pretty ascii stp c (snd kv))) = Ok x"
      using list_all2_in [OF _ kv] by blast
    then obtain k v where "dump_escaped ascii (fst kv) = Ok k" "json_dump pretty ascii stp c (snd kv) = Ok v"
      by (auto simp: obind_eq_Ok omap_eq_Ok)
    then show ?thesis using repair_valid JObject.IH [of kv "snd kv" c v] kv by (cases kv) simp
  qed
  then show ?case by (simp add: map_idI)
qed simp_all

section \<open>Printing that does not throw\<close>

text \<open>C31: with the handlers \<open>replace\<close> and \<open>ignore\<close> printing never throws, whatever bytes the strings of
  the value have, and where the strict handler prints, they print the same.\<close>

theorem dump_never_throws:
  assumes "h \<noteq> Strict"
  shows "dump_with h pretty ascii stp cur j \<noteq> Throw e \<and>
    (json_dump pretty ascii stp cur j = Ok t \<longrightarrow> dump_with h pretty ascii stp cur j = Ok t)"
  using dump_printed [OF assms, of pretty ascii stp cur j] dump_repair [OF assms, of pretty ascii stp cur j]
    repair_strings_valid [of pretty ascii stp cur j t h]
  by (auto simp: printed_def)

theorem dump_never_throws_witness:
  "dump_with Replace False False 0 0 (JString [CHR 0xFF]) \<noteq> Throw (type_error 316 [])"
  using dump_never_throws [of Replace False False 0 0 "JString [CHR 0xFF]" "type_error 316 []" "[]"] by simp

text \<open>C10: what \<open>replace\<close> and \<open>ignore\<close> print of a value without floats is JSON, and parsing it gives the
  value back with its invalid bytes replaced by \<open>U+FFFD\<close>, or left out.\<close>

theorem repaired_roundtrip:
  assumes "h \<noteq> Strict" "no_float j" "json_wf (map_strings (repair h) j)"
  shows "\<exists>t. dump_with h False False 0 0 j = Ok t \<and> json_parse t = Ok (json_norm (map_strings (repair h) j))"
proof -
  obtain t where t: "dump_with h False False 0 0 j = Ok t"
    using dump_printed [OF assms(1), of False False 0 0 j] assms(2) by (auto simp: printed_def)
  then have "dump (map_strings (repair h) j) = Ok t" by (simp add: dump_def dump_repair [OF assms(1)])
  moreover have "no_float (map_strings (repair h) j)" using assms(2) by (induction j rule: no_float.induct) auto
  ultimately have "json_parse (t @ []) = Ok (json_norm (map_strings (repair h) j))"
    using assms(3) by (intro parse_dumped) simp_all
  then show ?thesis using t by simp
qed

theorem repaired_roundtrip_witness:
  "\<exists>t. dump_with Replace False False 0 0 (JArray [JString [CHR ''a'', CHR 0xFF]]) = Ok t \<and>
     json_parse t = Ok (JArray [JString [CHR ''a'', CHR 0xEF, CHR 0xBF, CHR 0xBD]])"
proof -
  have r: "repair Replace [CHR ''a'', CHR 0xFF] = [CHR ''a'', CHR 0xEF, CHR 0xBF, CHR 0xBD]" by code_simp
  show ?thesis
    using repaired_roundtrip [of Replace "JArray [JString [CHR ''a'', CHR 0xFF]]"] by (simp add: r)
qed

end
