(* ===== verification/Json_Comments.thy ===== *)
theory Json_Comments imports Json_View begin

text \<open>
  Comments in the lexer of \<open>common/json.hpp\<close>: with \<open>ignore_comments\<close> the scanner takes
  \<open>//\<close> to the end of the line and \<open>/* */\<close> for white space. The programs never ask for it.
\<close>

section \<open>The scanner\<close>

function line_comment :: "lexer \<Rightarrow> lexer" where
  "line_comment lx =
     (case current (lex_get lx) of
        None \<Rightarrow> lex_get lx
      | Some c \<Rightarrow> if c = CHR 0x0A \<or> c = CHR 0x0D \<or> c = CHR 0x00 then lex_get lx else line_comment (lex_get lx))"
  by pat_completeness auto
termination
  by (relation "measure lex_left") (auto dest: lex_left_get_less)

declare line_comment.simps [simp del]

text \<open>After a star the next character is looked at, and pushed back unless it is the slash.\<close>

definition missing_end :: string where
  "missing_end = ''invalid comment; missing closing '' @ [CHR 0x27] @ ''*/'' @ [CHR 0x27]"

function block_comment :: "lexer \<Rightarrow> bool \<times> lexer" where
  "block_comment lx =
     (case current (lex_get lx) of
        None \<Rightarrow> (False, lex_error missing_end (lex_get lx))
      | Some c \<Rightarrow>
          if c = CHR 0x00 then (False, lex_error missing_end (lex_get lx))
          else if c = CHR ''*'' then
            if current (lex_get (lex_get lx)) = Some CHR ''/'' then (True, lex_get (lex_get lx))
            else block_comment (lex_unget (lex_get (lex_get lx)))
          else block_comment (lex_get lx))"
  by pat_completeness auto
termination
proof (relation "measure lex_left")
  fix lx c
  assume "current (lex_get lx) = Some c"
  then show "(lex_unget (lex_get (lex_get lx)), lx) \<in> measure lex_left"
    using lex_left_unget_get [of "lex_get lx"] lex_left_get_less [of lx c] by simp
qed (auto dest: lex_left_get_less)

declare block_comment.simps [simp del]

definition no_comment :: string where
  "no_comment =
     ''invalid comment; expecting '' @ [CHR 0x27] @ ''/'' @ [CHR 0x27] @ '' or '' @ [CHR 0x27] @ ''*'' @ [CHR 0x27] @
     '' after '' @ [CHR 0x27] @ ''/'' @ [CHR 0x27]"

definition scan_comment :: "lexer \<Rightarrow> bool \<times> lexer" where
  "scan_comment lx =
     (if current (lex_get lx) = Some CHR ''/'' then (True, line_comment (lex_get lx))
      else if current (lex_get lx) = Some CHR ''*'' then block_comment (lex_get lx)
      else (False, lex_error no_comment (lex_get lx)))"

text \<open>What the scanners leave of the input.\<close>

lemma line_comment_left: "lex_left (line_comment lx) \<le> lex_left lx"
proof (induction lx rule: line_comment.induct)
  case (1 lx)
  show ?case
  proof (cases "\<exists>c. current (lex_get lx) = Some c \<and> \<not> (c = CHR 0x0A \<or> c = CHR 0x0D \<or> c = CHR 0x00)")
    case True
    then have "line_comment lx = line_comment (lex_get lx)" "lex_left (line_comment (lex_get lx)) \<le> lex_left (lex_get lx)"
      using 1 by (auto simp: line_comment.simps [of lx])
    then show ?thesis using lex_left_get_le [of lx] by simp
  next
    case False
    then have "line_comment lx = lex_get lx" by (auto simp: line_comment.simps [of lx] split: option.split)
    then show ?thesis using lex_left_get_le [of lx] by simp
  qed
qed

lemma block_comment_left: "lex_left (snd (block_comment lx)) \<le> lex_left lx"
proof (induction lx rule: block_comment.induct)
  case (1 lx)
  have "lex_left (lex_unget (lex_get (lex_get lx))) \<le> lex_left lx" "lex_left (lex_get (lex_get lx)) \<le> lex_left lx"
    using lex_left_unget_get [of "lex_get lx"] lex_left_get_le [of lx] lex_left_get_le [of "lex_get lx"] by linarith+
  moreover have "lex_left (lex_get lx) \<le> lex_left lx" by (rule lex_left_get_le)
  ultimately have le: "lex_left x \<le> lex_left (lex_unget (lex_get (lex_get lx))) \<Longrightarrow> lex_left x \<le> lex_left lx"
      "lex_left x \<le> lex_left (lex_get lx) \<Longrightarrow> lex_left x \<le> lex_left lx" for x
    by linarith+
  show ?case
  proof (cases "current (lex_get lx)")
    case (Some c)
    consider "c = CHR 0x00" | "c = CHR ''*''" "current (lex_get (lex_get lx)) = Some CHR ''/''"
      | "c = CHR ''*''" "current (lex_get (lex_get lx)) \<noteq> Some CHR ''/''" | "c \<noteq> CHR 0x00" "c \<noteq> CHR ''*''" by blast
    then show ?thesis
      using Some le \<open>lex_left (lex_get (lex_get lx)) \<le> _\<close> \<open>lex_left (lex_get lx) \<le> _\<close> 1
      by cases (simp_all add: block_comment.simps [of lx])
  qed (use \<open>lex_left (lex_get lx) \<le> _\<close> in \<open>simp add: block_comment.simps [of lx]\<close>)
qed

lemma scan_comment_left: "scan_comment lx = (True, lx') \<Longrightarrow> lex_left lx' < lex_left lx"
  using line_comment_left [of "lex_get lx"] block_comment_left [of "lex_get lx"] lex_left_get_less [of lx]
  by (auto simp: scan_comment_def split: if_splits)

function skip_comments :: "lexer \<Rightarrow> bool \<times> lexer" where
  "skip_comments lx =
     (if current lx = Some CHR ''/''
      then (case scan_comment lx of (ok, lx1) \<Rightarrow> if ok then skip_comments (skip_whitespace lx1) else (False, lx1))
      else (True, lx))"
  by pat_completeness auto
termination
proof (relation "measure lex_left")
  fix lx ok lx1
  assume "(ok, lx1) = scan_comment lx" ok
  then have "lex_left lx1 < lex_left lx" using scan_comment_left by metis
  then show "(skip_whitespace lx1, lx) \<in> measure lex_left" using skip_whitespace_left [of lx1] by simp
qed simp

declare skip_comments.simps [simp del]

text \<open>\<open>scan\<close> for a lexer that was constructed with \<open>ignore_comments\<close>, or without.\<close>

definition scan_ignoring :: "bool \<Rightarrow> lexer \<Rightarrow> token_type \<times> lexer" where
  "scan_ignoring ignore_comments lx =
     (let (ok, lx1) = (if chars_read_total (position lx) = 0 then skip_bom lx else (True, lx))
      in if \<not> ok then (ParseError, lex_error bom_message lx1)
         else case (if ignore_comments then skip_comments (skip_whitespace lx1) else (True, skip_whitespace lx1)) of
                (fine, lx2) \<Rightarrow> if fine then scan_token lx2 else (ParseError, lx2))"

lemma scan_not_ignoring: "scan_ignoring False = scan"
  by (intro ext) (auto simp: scan_ignoring_def scan_def Let_def split: prod.split)

section \<open>A reference\<close>

text \<open>The text behind a comment, and behind all white space and comments; \<open>None\<close> where one is malformed.\<close>

definition behind_line :: "string \<Rightarrow> string" where
  "behind_line s = tl (dropWhile (\<lambda>c. c \<noteq> CHR 0x0A \<and> c \<noteq> CHR 0x0D \<and> c \<noteq> CHR 0x00) s)"

fun behind_block :: "string \<Rightarrow> string option" where
  "behind_block [] = None"
| "behind_block (c # cs) =
     (if c = CHR 0x00 then None
      else if c = CHR ''*'' \<and> first cs = Some CHR ''/'' then Some (tl cs)
      else behind_block cs)"

definition behind_comment :: "string \<Rightarrow> string option" where
  "behind_comment s =
     (if first s = Some CHR ''/'' then Some (behind_line (tl s))
      else if first s = Some CHR ''*'' then behind_block (tl s) else None)"

lemma behind_line_length: "length (behind_line s) \<le> length s"
  using length_dropWhile_le [of "\<lambda>c. c \<noteq> CHR 0x0A \<and> c \<noteq> CHR 0x0D \<and> c \<noteq> CHR 0x00" s]
  by (simp add: behind_line_def del: length_dropWhile_le)

lemma behind_block_length: "behind_block s = Some t \<Longrightarrow> length t \<le> length s"
  by (induction s) (auto split: if_splits)

lemma behind_comment_length: "behind_comment s = Some t \<Longrightarrow> length t < Suc (length s)"
  using behind_line_length [of "tl s"] behind_block_length [of "tl s" t]
  by (auto simp: behind_comment_def split: if_splits)

function first_token :: "string \<Rightarrow> string option" where
  "first_token s =
     (case dropWhile json_space s of
        [] \<Rightarrow> Some []
      | c # cs \<Rightarrow>
          if c = CHR ''/'' then (case behind_comment cs of None \<Rightarrow> None | Some t \<Rightarrow> first_token t)
          else Some (c # cs))"
  by pat_completeness auto
termination
proof (relation "measure length")
  fix s c cs t
  assume "dropWhile json_space s = c # cs" "behind_comment cs = Some t"
  then show "(t, s) \<in> measure length"
    using behind_comment_length [of cs t] length_dropWhile_le [of json_space s] by simp
qed simp

declare first_token.simps [simp del]

section \<open>The scanner meets it\<close>

text \<open>A lexer that stands behind what was skipped.\<close>

definition behind :: "bool \<times> lexer \<Rightarrow> string option \<Rightarrow> bool" where
  "behind r s \<longleftrightarrow> fst r = (s \<noteq> None) \<and> (\<forall>t. s = Some t \<longrightarrow> lex_rest (snd r) = t \<and> lex_ok (snd r))"

lemma line_comment_view: "lex_ok lx \<Longrightarrow> behind (True, line_comment lx) (Some (behind_line (lex_rest lx)))"
proof (induction lx rule: line_comment.induct)
  case (1 lx)
  show ?case
    using 1 by (cases "lex_rest lx") (auto simp: behind_def behind_line_def lex_view line_comment.simps [of lx])
qed

lemma block_comment_view: "lex_ok lx \<Longrightarrow> behind (block_comment lx) (behind_block (lex_rest lx))"
proof (induction lx rule: block_comment.induct)
  case (1 lx)
  show ?case
  proof (cases "lex_rest lx")
    case Nil
    then show ?thesis using 1(3) by (simp add: behind_def lex_view block_comment.simps [of lx])
  next
    case (Cons c cs)
    then have get: "current (lex_get lx) = Some c" "lex_rest (lex_get lx) = cs" using 1(3) by (simp_all add: lex_view)
    have ok: "lex_ok (lex_get lx)" "lex_ok (lex_unget (lex_get (lex_get lx)))" "lex_rest (lex_unget (lex_get (lex_get lx))) = cs"
      "current (lex_get (lex_get lx)) = first cs" "lex_rest (lex_get (lex_get lx)) = tl cs" "lex_ok (lex_get (lex_get lx))"
      using get(2) by (simp_all add: lex_view)
    show ?thesis
      using 1(1) [OF get(1)] 1(2) [OF get(1)] ok get
      by (simp add: Cons block_comment.simps [of lx]) (simp add: behind_def)
  qed
qed

lemma scan_comment_view: "lex_ok lx \<Longrightarrow> behind (scan_comment lx) (behind_comment (lex_rest lx))"
  using line_comment_view [of "lex_get lx"] block_comment_view [of "lex_get lx"]
  by (simp add: scan_comment_def behind_comment_def lex_view) (simp add: behind_def)

text \<open>The scanner with \<open>ignore_comments\<close> stands at the first character of the next token.\<close>

lemma skip_comments_view:
  "lex_ok lx \<Longrightarrow> case first_token (lex_rest lx) of
     None \<Rightarrow> \<not> fst (skip_comments (skip_whitespace lx))
   | Some s \<Rightarrow> fst (skip_comments (skip_whitespace lx)) \<and> current (snd (skip_comments (skip_whitespace lx))) = first s \<and>
       lex_rest (snd (skip_comments (skip_whitespace lx))) = tl s"
proof (induction "lex_rest lx" arbitrary: lx rule: first_token.induct)
  case 1
  let ?w = "skip_whitespace lx"
  have w: "current ?w = first (dropWhile json_space (lex_rest lx))" "lex_rest ?w = tl (dropWhile json_space (lex_rest lx))" "lex_ok ?w"
    using skip_whitespace_view [OF 1(2)] by blast+
  show ?case
  proof (cases "\<exists>cs. dropWhile json_space (lex_rest lx) = CHR ''/'' # cs")
    case True
    then obtain cs where cs: "dropWhile json_space (lex_rest lx) = CHR ''/'' # cs" by blast
    have v: "behind (scan_comment ?w) (behind_comment cs)" using scan_comment_view [OF w(3)] w(2) cs by simp
    obtain ok lx1 where r: "scan_comment ?w = (ok, lx1)" by force
    have skip: "skip_comments ?w = (if ok then skip_comments (skip_whitespace lx1) else (False, lx1))"
      using w(1) cs r by (simp add: skip_comments.simps [of ?w])
    show ?thesis
    proof (cases "behind_comment cs")
      case None
      then show ?thesis using v r skip cs by (simp add: behind_def first_token.simps [of "lex_rest lx"])
    next
      case (Some t)
      then have ok: ok "lex_rest lx1 = t" "lex_ok lx1" using v r by (simp_all add: behind_def)
      have "first_token (lex_rest lx) = first_token t" using cs Some by (simp add: first_token.simps [of "lex_rest lx"])
      then show ?thesis using 1(1) [OF cs refl _ ok(3)] Some skip ok(1,2) by (cases "first_token t") simp_all
    qed
  next
    case False
    then have "first_token (lex_rest lx) = Some (dropWhile json_space (lex_rest lx))"
      by (cases "dropWhile json_space (lex_rest lx)") (simp_all only: first_token.simps [of "lex_rest lx"] list.case, auto)
    moreover have "skip_comments ?w = (True, ?w)"
      using False w(1) by (cases "dropWhile json_space (lex_rest lx)") (auto simp: skip_comments.simps [of ?w])
    ultimately show ?thesis using w by simp
  qed
qed

text \<open>C35: with \<open>ignore_comments\<close> the scanner stands, after white space and comments, at the first
  character that belongs to neither, and fails exactly where a comment is not closed or a slash
  begins none; without it the scanner is the one the parser uses.\<close>

theorem comments_skipped:
  assumes "lex_ok lx"
  shows "scan_ignoring False = scan \<and>
    (case first_token (lex_rest lx) of
       None \<Rightarrow> \<not> fst (skip_comments (skip_whitespace lx))
     | Some s \<Rightarrow> fst (skip_comments (skip_whitespace lx)) \<and> current (snd (skip_comments (skip_whitespace lx))) = first s \<and>
         lex_rest (snd (skip_comments (skip_whitespace lx))) = tl s)"
  using skip_comments_view [OF assms] scan_not_ignoring by blast

theorem comments_skipped_witness:
  "current (snd (skip_comments (skip_whitespace (lexer_new '' /* a */ // b'')))) = None \<and>
   current (snd (skip_comments (skip_whitespace (lexer_new ''/* a **/ [1]'')))) = Some CHR ''[''"
proof -
  have "first_token '' /* a */ // b'' = Some []" "first_token ''/* a **/ [1]'' = Some ''[1]''" by code_simp+
  then show ?thesis
    using comments_skipped [of "lexer_new '' /* a */ // b''"] comments_skipped [of "lexer_new ''/* a **/ [1]''"] by simp
qed

end
