(* ===== verification/Logger.thy ===== *)
theory Logger imports Prelude begin

text \<open>
  The log file of a process (\<open>common/logger.hpp\<close> and \<open>common/logger.cpp\<close>). The text of \<open>now()\<close>
  depends on the clock and the time zone and is an argument. Each call holds the mutex, so calls
  are handled one after the other; what the file holds is what the stream was given, because
  every call flushes it.
\<close>

text \<open>\<open>log_file\<close> is \<open>None\<close> while the stream is not open; writing to it then does nothing.\<close>

record logger =
  log_file :: "string option"
  console :: string
  error_console :: string

text \<open>The constructor: \<open>contents\<close> is what the file holds before, \<open>None\<close> where it cannot be opened.\<close>

definition logger_new :: "string option \<Rightarrow> logger" where
  "logger_new contents = \<lparr>log_file = contents, console = [], error_console = []\<rparr>"

definition logger_destroy :: "logger \<Rightarrow> logger" where
  "logger_destroy lg = (case log_file lg of None \<Rightarrow> lg | Some s \<Rightarrow> lg\<lparr>log_file := None\<rparr>)"

definition log_line :: "string \<Rightarrow> string \<Rightarrow> string \<Rightarrow> string" where
  "log_line level stamp msg = ''['' @ stamp @ ''] ['' @ level @ ''] '' @ msg @ [CHR 0x0A]"

definition log_write :: "string \<Rightarrow> logger \<Rightarrow> logger" where
  "log_write s lg = lg\<lparr>log_file := map_option (\<lambda>t. t @ s) (log_file lg)\<rparr>"

definition log_info :: "string \<Rightarrow> string \<Rightarrow> logger \<Rightarrow> logger" where
  "log_info stamp msg lg = log_write (log_line ''INFO'' stamp msg) lg"

definition log_warn :: "string \<Rightarrow> string \<Rightarrow> logger \<Rightarrow> logger" where
  "log_warn stamp msg lg =
     (let lg1 = log_write (log_line ''WARN'' stamp msg) lg
      in lg1\<lparr>console := console lg1 @ ''[WARN] '' @ msg @ [CHR 0x0A]\<rparr>)"

definition log_debug :: "string \<Rightarrow> string \<Rightarrow> logger \<Rightarrow> logger" where
  "log_debug stamp msg lg = log_write (log_line ''DEBUG'' stamp msg) lg"

definition log_error :: "string \<Rightarrow> string \<Rightarrow> logger \<Rightarrow> logger" where
  "log_error stamp msg lg =
     (let lg1 = log_write (log_line ''ERROR'' stamp msg) lg
      in lg1\<lparr>error_console := error_console lg1 @ ''[ERROR] '' @ msg @ [CHR 0x0A]\<rparr>)"

section \<open>A journal\<close>

text \<open>A sequence of calls, and what the three outputs get from each.\<close>

datatype level = Info | Warn | Debug | Error

type_synonym log_call = "level \<times> string \<times> string"

fun log_call :: "log_call \<Rightarrow> logger \<Rightarrow> logger" where
  "log_call (Info, stamp, msg) = log_info stamp msg"
| "log_call (Warn, stamp, msg) = log_warn stamp msg"
| "log_call (Debug, stamp, msg) = log_debug stamp msg"
| "log_call (Error, stamp, msg) = log_error stamp msg"

fun level_name :: "level \<Rightarrow> string" where
  "level_name Info = ''INFO''"
| "level_name Warn = ''WARN''"
| "level_name Debug = ''DEBUG''"
| "level_name Error = ''ERROR''"

definition call_line :: "log_call \<Rightarrow> string" where
  "call_line c = log_line (level_name (fst c)) (fst (snd c)) (snd (snd c))"

definition printed :: "level \<Rightarrow> log_call \<Rightarrow> string" where
  "printed l c = (if fst c = l then ''['' @ level_name l @ ''] '' @ snd (snd c) @ [CHR 0x0A] else [])"

lemma log_call_outputs:
  "log_file (log_call c lg) = map_option (\<lambda>t. t @ call_line c) (log_file lg)"
  "console (log_call c lg) = console lg @ printed Warn c"
  "error_console (log_call c lg) = error_console lg @ printed Error c"
  by (cases c rule: log_call.cases;
      simp add: log_info_def log_warn_def log_debug_def log_error_def log_write_def call_line_def printed_def Let_def)+

lemma log_calls_outputs:
  "log_file (fold log_call cs lg) = map_option (\<lambda>t. t @ concat (map call_line cs)) (log_file lg)"
  "console (fold log_call cs lg) = console lg @ concat (map (printed Warn) cs)"
  "error_console (fold log_call cs lg) = error_console lg @ concat (map (printed Error) cs)"
proof (induction cs arbitrary: lg)
  case (Cons c cs)
  {
    case 1 then show ?case using Cons by (cases "log_file lg") (simp_all add: log_call_outputs)
  next
    case 2 then show ?case using Cons by (simp add: log_call_outputs)
  next
    case 3 then show ?case using Cons by (simp add: log_call_outputs)
  }
qed (simp_all add: option.map_ident)

text \<open>C40: the log is a journal: whatever is logged, the file keeps what it held and gets one line for
  each call, in the order of the calls; the console gets the warnings and the error console the
  errors, and neither gets anything else.\<close>

theorem log_journal:
  "log_file (fold log_call cs (logger_new (Some old))) = Some (old @ concat (map call_line cs)) \<and>
   console (fold log_call cs (logger_new (Some old))) = concat (map (printed Warn) cs) \<and>
   error_console (fold log_call cs (logger_new (Some old))) = concat (map (printed Error) cs)"
  by (simp add: log_calls_outputs logger_new_def)

end
