(* ===== verification/Thread_Pool.thy ===== *)
theory Thread_Pool imports Prelude begin

text \<open>
  The thread pool of \<open>common/thread_pool.hpp\<close> as a step relation: workers that wait on a
  condition variable under the queue's mutex, take tasks from the front, and end when \<open>stop\<close> is
  set and the queue is empty; \<open>enqueue\<close>; and the destructor, which sets \<open>stop\<close> without taking
  the mutex. A worker that found its predicate false holds the mutex until it blocks, so that
  instant is a state of its own. The two histories record tasks as they are given to the pool
  and as they are taken from it.
\<close>

section \<open>Model\<close>

datatype 'a worker_state = Acquiring | AboutToWait | Blocked | Running 'a | Exited

record 'a thread_pool =
  workers :: "'a worker_state list"
  tasks :: "'a list"
  stop :: bool
  notifications :: nat
  notified_all :: bool
  enqueued :: "'a list"
  taken :: "'a list"

definition thread_pool_new :: "nat \<Rightarrow> 'a thread_pool" where
  "thread_pool_new threads =
     \<lparr>workers = replicate threads Acquiring, tasks = [], stop = False, notifications = 0,
      notified_all = False, enqueued = [], taken = []\<rparr>"

definition mutex_free :: "'a thread_pool \<Rightarrow> bool" where
  "mutex_free p \<longleftrightarrow> AboutToWait \<notin> set (workers p)"

text \<open>A worker that holds the mutex tests the predicate of \<open>wait\<close>, and goes on if it is true.\<close>

definition worker_check :: "nat \<Rightarrow> 'a thread_pool \<Rightarrow> 'a thread_pool" where
  "worker_check i p =
     (case tasks p of
        t # ts \<Rightarrow> p\<lparr>workers := (workers p)[i := Running t], tasks := ts, taken := taken p @ [t]\<rparr>
      | [] \<Rightarrow> if stop p then p\<lparr>workers := (workers p)[i := Exited]\<rparr>
              else p\<lparr>workers := (workers p)[i := AboutToWait]\<rparr>)"

definition pool_enqueue :: "'a \<Rightarrow> 'a thread_pool \<Rightarrow> 'a thread_pool" where
  "pool_enqueue t p =
     p\<lparr>tasks := tasks p @ [t], enqueued := enqueued p @ [t], notifications := Suc (notifications p)\<rparr>"

definition wake_all :: "'a worker_state list \<Rightarrow> 'a worker_state list" where
  "wake_all ws = map (\<lambda>w. if w = Blocked then Acquiring else w) ws"

inductive pool_step :: "'a thread_pool \<Rightarrow> 'a thread_pool \<Rightarrow> bool" where
  check: "i < length (workers p) \<Longrightarrow> workers p ! i = Acquiring \<Longrightarrow> mutex_free p \<Longrightarrow>
    pool_step p (worker_check i p)"
| block: "i < length (workers p) \<Longrightarrow> workers p ! i = AboutToWait \<Longrightarrow>
    pool_step p (p\<lparr>workers := (workers p)[i := Blocked]\<rparr>)"
| finish: "i < length (workers p) \<Longrightarrow> workers p ! i = Running t \<Longrightarrow>
    pool_step p (p\<lparr>workers := (workers p)[i := Acquiring]\<rparr>)"
| enqueue: "mutex_free p \<Longrightarrow> \<not> stop p \<Longrightarrow> pool_step p (pool_enqueue t p)"
| notify_one: "notifications p = Suc k \<Longrightarrow> i < length (workers p) \<Longrightarrow> workers p ! i = Blocked \<Longrightarrow>
    pool_step p (p\<lparr>notifications := k, workers := (workers p)[i := Acquiring]\<rparr>)"
| notify_nobody: "notifications p = Suc k \<Longrightarrow> Blocked \<notin> set (workers p) \<Longrightarrow>
    pool_step p (p\<lparr>notifications := k\<rparr>)"
| set_stop: "\<not> stop p \<Longrightarrow> pool_step p (p\<lparr>stop := True\<rparr>)"
| notify_all: "stop p \<Longrightarrow> \<not> notified_all p \<Longrightarrow>
    pool_step p (p\<lparr>notified_all := True, workers := wake_all (workers p)\<rparr>)"

inductive_cases pool_stepE: "pool_step p p'"

definition pool_reachable :: "nat \<Rightarrow> 'a thread_pool \<Rightarrow> bool" where
  "pool_reachable k p \<longleftrightarrow> pool_step\<^sup>*\<^sup>* (thread_pool_new k) p"

text \<open>The destructor returns when every worker has ended.\<close>

definition joined :: "'a thread_pool \<Rightarrow> bool" where
  "joined p \<longleftrightarrow> stop p \<and> set (workers p) \<subseteq> {Exited}"

section \<open>Invariant\<close>

text \<open>
  The queue is what was given and not yet taken; a worker ends only after \<open>stop\<close> with an empty
  queue, and nothing is queued after \<open>stop\<close>; at most one worker holds the mutex.
\<close>

definition pool_inv :: "nat \<Rightarrow> 'a thread_pool \<Rightarrow> bool" where
  "pool_inv k p \<longleftrightarrow>
     length (workers p) = k \<and> enqueued p = taken p @ tasks p \<and>
     (Exited \<in> set (workers p) \<longrightarrow> stop p \<and> tasks p = []) \<and>
     (\<forall>i < k. \<forall>j < k. workers p ! i = AboutToWait \<longrightarrow> workers p ! j = AboutToWait \<longrightarrow> i = j)"

lemma pool_inv_new: "pool_inv k (thread_pool_new k)"
  by (auto simp: pool_inv_def thread_pool_new_def)

lemma set_update_in: "x \<in> set (xs[i := y]) \<Longrightarrow> x \<noteq> y \<Longrightarrow> x \<in> set xs"
  using set_update_subset_insert by fastforce

lemma nth_wake_all: "i < length ws \<Longrightarrow> wake_all ws ! i = (if ws ! i = Blocked then Acquiring else ws ! i)"
  by (simp add: wake_all_def)

lemma pool_inv_check:
  assumes "pool_inv k p" "i < length (workers p)" "mutex_free p"
  shows "pool_inv k (worker_check i p)"
proof -
  have free: "workers p ! j \<noteq> AboutToWait" if "j < length (workers p)" for j
    using assms(3) that by (metis mutex_free_def nth_mem)
  show ?thesis
    using assms free
    by (cases "tasks p") (auto simp: pool_inv_def worker_check_def nth_list_update dest: set_update_in)
qed

lemma pool_inv_update:
  assumes "pool_inv k p" "w \<noteq> AboutToWait" "w \<noteq> Exited"
  shows "pool_inv k (p\<lparr>workers := (workers p)[i := w]\<rparr>)"
proof -
  have "Exited \<in> set ((workers p)[i := w]) \<Longrightarrow> Exited \<in> set (workers p)"
    using assms(3) by (auto dest: set_update_in)
  moreover have "(workers p)[i := w] ! a = AboutToWait \<Longrightarrow> workers p ! a = AboutToWait" if "a < k" for a
    using assms(1,2) that
    by (cases "i < length (workers p)") (auto simp: pool_inv_def nth_list_update split: if_splits)
  ultimately show ?thesis using assms(1) by (auto simp: pool_inv_def)
qed

lemma pool_inv_step: "pool_step p p' \<Longrightarrow> pool_inv k p \<Longrightarrow> pool_inv k p'"
proof (induction rule: pool_step.induct)
  case (check i p)
  then show ?case by (simp add: pool_inv_check)
next
  case (enqueue p t)
  then show ?case by (auto simp: pool_inv_def pool_enqueue_def)
next
  case (notify_one p c i)
  then have "pool_inv k (p\<lparr>workers := (workers p)[i := Acquiring]\<rparr>)"
    by (simp add: pool_inv_update)
  then show ?case by (simp add: pool_inv_def)
next
  case (notify_all p)
  then show ?case
    by (auto simp: pool_inv_def nth_wake_all) (auto simp: wake_all_def split: if_splits)
qed (auto simp: pool_inv_update, auto simp: pool_inv_def)

lemma pool_inv_reachable: "pool_reachable k p \<Longrightarrow> pool_inv k p"
  unfolding pool_reachable_def
  by (induction rule: rtranclp_induct) (auto simp: pool_inv_new intro: pool_inv_step)

text \<open>A pool of one worker that was given two tasks, took the first, and was told to stop.\<close>

definition two_tasks :: "nat thread_pool" where
  "two_tasks = pool_enqueue 2 (pool_enqueue 1 (thread_pool_new 1))"

definition drained_pool :: "nat thread_pool" where
  "drained_pool =
     (let p1 = worker_check 0 two_tasks; p2 = worker_check 0 (p1\<lparr>workers := [Acquiring]\<rparr>);
          p3 = p2\<lparr>workers := [Acquiring]\<rparr>
      in worker_check 0 (p3\<lparr>stop := True\<rparr>))"

lemmas pool_example_defs =
  two_tasks_def drained_pool_def pool_enqueue_def thread_pool_new_def worker_check_def mutex_free_def

lemma two_tasks_reachable: "pool_reachable 1 (worker_check 0 two_tasks)"
proof -
  have "pool_step (thread_pool_new 1 :: nat thread_pool) (pool_enqueue 1 (thread_pool_new 1))"
    by (rule pool_step.enqueue) (simp_all add: pool_example_defs)
  moreover have "pool_step (pool_enqueue 1 (thread_pool_new 1)) two_tasks"
    unfolding two_tasks_def by (rule pool_step.enqueue) (simp_all add: pool_example_defs)
  moreover have "pool_step two_tasks (worker_check 0 two_tasks)"
    by (rule pool_step.check) (simp_all add: pool_example_defs)
  ultimately show ?thesis
    unfolding pool_reachable_def by (meson rtranclp.rtrancl_into_rtrancl rtranclp.rtrancl_refl)
qed

lemma drained_pool_reachable: "pool_reachable 1 drained_pool"
proof -
  let ?p1 = "worker_check 0 two_tasks" let ?q1 = "?p1\<lparr>workers := (workers ?p1)[0 := Acquiring]\<rparr>"
  let ?p2 = "worker_check 0 ?q1" let ?q2 = "?p2\<lparr>workers := (workers ?p2)[0 := Acquiring]\<rparr>"
  have "pool_step ?p1 ?q1" by (rule pool_step.finish [where t = 1]) (simp_all add: pool_example_defs)
  moreover have "pool_step ?q1 ?p2" by (rule pool_step.check) (simp_all add: pool_example_defs)
  moreover have "pool_step ?p2 ?q2" by (rule pool_step.finish [where t = 2]) (simp_all add: pool_example_defs)
  moreover have "pool_step ?q2 (?q2\<lparr>stop := True\<rparr>)" by (rule pool_step.set_stop) (simp add: pool_example_defs)
  moreover have "pool_step (?q2\<lparr>stop := True\<rparr>) (worker_check 0 (?q2\<lparr>stop := True\<rparr>))"
    by (rule pool_step.check) (simp_all add: pool_example_defs)
  moreover have "worker_check 0 (?q2\<lparr>stop := True\<rparr>) = drained_pool"
    by (simp add: pool_example_defs Let_def)
  ultimately show ?thesis
    using two_tasks_reachable unfolding pool_reachable_def
    by (metis (no_types, lifting) rtranclp.rtrancl_into_rtrancl)
qed

section \<open>Properties\<close>

text \<open>C22: the pool is a queue: at every moment the tasks taken so far, followed by the waiting
  ones, are the tasks enqueued so far in their order; so no task is lost, run twice or
  overtaken.\<close>

theorem pool_fifo:
  assumes "pool_reachable k p"
  shows "enqueued p = taken p @ tasks p"
  using pool_inv_reachable [OF assms] by (simp add: pool_inv_def)

theorem pool_fifo_witness: "taken (worker_check 0 two_tasks) @ tasks (worker_check 0 two_tasks) = [1, 2]"
  using pool_fifo [OF two_tasks_reachable] by (simp add: pool_example_defs)



text \<open>The pool of one worker in which the destructor's wake-up is lost.\<close>

definition lost_wakeup :: "nat thread_pool" where
  "lost_wakeup =
     \<lparr>workers = [Blocked], tasks = [], stop = True, notifications = 0, notified_all = True,
      enqueued = [], taken = []\<rparr>"

lemma lost_wakeup_reachable: "pool_reachable 1 lost_wakeup"
proof -
  let ?p0 = "thread_pool_new 1 :: nat thread_pool"
  let ?p1 = "worker_check 0 ?p0" let ?p2 = "?p1\<lparr>stop := True\<rparr>"
  let ?p3 = "?p2\<lparr>notified_all := True, workers := wake_all (workers ?p2)\<rparr>"
  let ?p4 = "?p3\<lparr>workers := (workers ?p3)[0 := Blocked]\<rparr>"
  have "pool_step ?p0 ?p1"
    by (rule pool_step.check) (simp_all add: thread_pool_new_def mutex_free_def)
  moreover have "pool_step ?p1 ?p2"
    by (rule pool_step.set_stop) (simp add: worker_check_def thread_pool_new_def)
  moreover have "pool_step ?p2 ?p3"
    by (rule pool_step.notify_all) (simp_all add: worker_check_def thread_pool_new_def)
  moreover have "pool_step ?p3 ?p4"
    by (rule pool_step.block) (simp_all add: worker_check_def thread_pool_new_def wake_all_def)
  ultimately have "pool_step\<^sup>*\<^sup>* ?p0 ?p4"
    by (meson rtranclp.rtrancl_into_rtrancl rtranclp.rtrancl_refl)
  moreover have "?p4 = lost_wakeup"
    by (simp add: lost_wakeup_def worker_check_def thread_pool_new_def wake_all_def)
  ultimately show ?thesis by (simp add: pool_reachable_def)
qed

text \<open>C24: the destructor can wait forever: it sets \<open>stop\<close> and notifies without the mutex, and when
  it does so while a worker has tested its predicate but not yet blocked, that worker blocks
  with no notification to come.\<close>

theorem pool_lost_wakeup:
  "pool_reachable 1 lost_wakeup \<and> \<not> joined lost_wakeup \<and> (\<forall>p'. \<not> pool_step lost_wakeup p')"
  using lost_wakeup_reachable
  by (auto simp: joined_def lost_wakeup_def elim!: pool_stepE)

end
